(* ===== verification/Prelude.thy ===== *)
theory Prelude
  imports Main "HOL-Library.Word" "HOL-Library.Multiset"
begin

text \<open>
  What the component theories share: the widths of the kernel's integers, Rust's checked and
  saturating arithmetic on them, page alignment as bit masks, the \<open>Vec\<close> operations the
  kernel uses (\<open>insert\<close>, \<open>remove\<close>, \<open>swap_remove\<close>, \<open>position\<close>) and the slice binary
  search of the Rust standard library with its specification on sorted slices. A Rust
  \<open>Result<T, E>\<close> is a sum \<open>'e + 'a\<close> with \<open>Inl\<close> for \<open>Err\<close>; the outcome of a
  fallible allocation (\<open>try_reserve\<close>, \<open>Box::try_new\<close>) is a boolean argument of the
  operation that makes it.
\<close>

unbundle bit_operations_syntax

named_theorems word_nat \<open>word arithmetic read on natural numbers\<close>

named_theorems vec_simps \<open>list facts about the Vec operations\<close>

type_synonym u8 = "8 word"
type_synonym u16 = "16 word"
type_synonym u32 = "32 word"
type_synonym u64 = "64 word"
type_synonym usize = "64 word"

subsection \<open>Checked and saturating arithmetic\<close>

definition checked_add :: "'w::len word \<Rightarrow> 'w word \<Rightarrow> 'w word option" where
  "checked_add a b = (if unat a + unat b < 2 ^ LENGTH('w) then Some (a + b) else None)"

definition checked_sub :: "'w::len word \<Rightarrow> 'w word \<Rightarrow> 'w word option" where
  "checked_sub a b = (if b \<le> a then Some (a - b) else None)"

definition checked_mul :: "'w::len word \<Rightarrow> 'w word \<Rightarrow> 'w word option" where
  "checked_mul a b = (if unat a * unat b < 2 ^ LENGTH('w) then Some (a * b) else None)"

definition saturating_add :: "'w::len word \<Rightarrow> 'w word \<Rightarrow> 'w word" where
  "saturating_add a b = (if unat a + unat b < 2 ^ LENGTH('w) then a + b else - 1)"

definition saturating_sub :: "'w::len word \<Rightarrow> 'w word \<Rightarrow> 'w word" where
  "saturating_sub a b = (if b \<le> a then a - b else 0)"

definition saturating_mul :: "'w::len word \<Rightarrow> 'w word \<Rightarrow> 'w word" where
  "saturating_mul a b = (if unat a * unat b < 2 ^ LENGTH('w) then a * b else - 1)"

lemma checked_add_Some_iff [word_nat]:
  "checked_add a b = Some c \<longleftrightarrow> unat a + unat b = unat c"
proof
  assume "checked_add a b = Some c"
  then have "unat a + unat b < 2 ^ LENGTH('a)" and "c = a + b"
    by (auto simp: checked_add_def split: if_splits)
  then show "unat a + unat b = unat c"
    by (simp add: unat_add_lem [THEN iffD1])
next
  assume sum: "unat a + unat b = unat c"
  then have less: "unat a + unat b < 2 ^ LENGTH('a)"
    using unsigned_less [of c] by metis
  then have "unat (a + b) = unat c"
    using sum by (simp add: unat_add_lem [THEN iffD1])
  with less show "checked_add a b = Some c"
    by (simp add: checked_add_def word_unat_eq_iff)
qed

lemma checked_add_None_iff [word_nat]:
  "checked_add (a :: 'w::len word) b = None \<longleftrightarrow> 2 ^ LENGTH('w) \<le> unat a + unat b"
  by (auto simp: checked_add_def)

lemma checked_sub_Some_iff [word_nat]:
  "checked_sub a b = Some c \<longleftrightarrow> unat c + unat b = unat a"
proof
  assume "checked_sub a b = Some c"
  then have "b \<le> a" and "c = a - b"
    by (auto simp: checked_sub_def split: if_splits)
  then show "unat c + unat b = unat a"
    by (simp add: unat_sub word_le_nat_alt)
next
  assume sum: "unat c + unat b = unat a"
  then have le: "b \<le> a" by (simp add: word_le_nat_alt)
  then have "unat (a - b) = unat c"
    using sum by (simp add: unat_sub)
  with le show "checked_sub a b = Some c"
    by (simp add: checked_sub_def word_unat_eq_iff)
qed

lemma unat_add_checked [word_nat]:
  "unat a + unat b < 2 ^ LENGTH('w) \<Longrightarrow> unat (a + b :: 'w::len word) = unat a + unat b"
  by (simp add: unat_add_lem [THEN iffD1])

lemma unat_sub_le [word_nat]: "b \<le> a \<Longrightarrow> unat (a - b) = unat a - unat b"
  by (rule unat_sub)

lemma unat_max [word_nat]: "unat (max a b) = max (unat a) (unat b)"
  by (auto simp: max_def word_le_nat_alt)

lemma unat_min [word_nat]: "unat (min a b) = min (unat a) (unat b)"
  by (auto simp: min_def word_le_nat_alt)

lemma saturating_sub_nat [word_nat]: "unat (saturating_sub a b) = unat a - unat b"
  by (auto simp: saturating_sub_def unat_sub word_le_nat_alt)

lemma saturating_add_nat [word_nat]:
  "unat (saturating_add a b :: 'w::len word) = min (unat a + unat b) (2 ^ LENGTH('w) - 1)"
proof (cases "unat a + unat b < 2 ^ LENGTH('w)")
  case True
  then show ?thesis by (simp add: saturating_add_def unat_add_checked)
next
  case False
  then show ?thesis
    by (simp add: saturating_add_def unsigned_minus_1_eq_mask mask_eq_exp_minus_1)
qed

subsection \<open>Pages\<close>

text \<open>
  The kernel tests page alignment with \<^verbatim>\<open>x & 4095\<close> and rounds down with
  \<^verbatim>\<open>x & !4095\<close>; on natural numbers these are divisibility by and rounding to 4096.
\<close>

lemma page_mask: "(4095 :: u64) = mask 12"
  by (simp add: mask_eq_exp_minus_1)

lemma page_offset_zero_iff [word_nat]: "(x :: u64) AND 4095 = 0 \<longleftrightarrow> 4096 dvd unat x"
  using and_mask_dvd_nat [of 12 x] by (simp add: page_mask)

lemma page_offset_nat [word_nat]: "unat ((x :: u64) AND 4095) = unat x mod 4096"
proof -
  have "unat (x AND 4095) = unat (take_bit 12 x)"
    by (simp add: page_mask take_bit_eq_mask)
  also have "\<dots> = take_bit 12 (unat x)"
    by (rule unsigned_take_bit_eq)
  also have "\<dots> = unat x mod 4096"
    by (simp add: take_bit_eq_mod)
  finally show ?thesis .
qed

lemma page_floor_split: "(x :: u64) = (x AND NOT 4095) + (x AND 4095)"
proof -
  have "x = (x AND NOT 4095) OR (x AND 4095)"
    by (rule bit_word_eqI) (auto simp: bit_simps)
  moreover have "(x AND NOT 4095) AND (x AND 4095) = 0"
    by (rule bit_word_eqI) (auto simp: bit_simps)
  ultimately show ?thesis
    by (metis disjunctive_add_eq_or)
qed

lemma page_floor_nat [word_nat]: "unat ((x :: u64) AND NOT 4095) = unat x div 4096 * 4096"
proof -
  have le: "x AND 4095 \<le> x"
    by (rule word_and_le2)
  have "x AND NOT 4095 = x - (x AND 4095)"
    using page_floor_split [of x] by (simp add: algebra_simps)
  then have "unat (x AND NOT 4095) = unat x - unat x mod 4096"
    using le by (simp add: unat_sub page_offset_nat)
  then show ?thesis
    by (simp add: minus_mod_eq_div_mult)
qed

subsection \<open>Vec operations\<close>

definition vec_insert :: "nat \<Rightarrow> 'a \<Rightarrow> 'a list \<Rightarrow> 'a list" where
  "vec_insert i x xs = take i xs @ x # drop i xs"

definition vec_remove :: "nat \<Rightarrow> 'a list \<Rightarrow> 'a list" where
  "vec_remove i xs = take i xs @ drop (Suc i) xs"

text \<open>\<open>swap_remove\<close>: the last element takes the place of the removed one.\<close>

definition vec_swap_remove :: "nat \<Rightarrow> 'a list \<Rightarrow> 'a list" where
  "vec_swap_remove i xs = butlast (xs[i := last xs])"

text \<open>\<open>Iterator::position\<close>: the first index whose element satisfies the predicate.\<close>

fun position :: "('a \<Rightarrow> bool) \<Rightarrow> 'a list \<Rightarrow> nat option" where
  "position p [] = None"
| "position p (x # xs) = (if p x then Some 0 else map_option Suc (position p xs))"

lemma position_Some [vec_simps]:
  "position p xs = Some i \<Longrightarrow> i < length xs \<and> p (xs ! i) \<and> (\<forall>j<i. \<not> p (xs ! j))"
  by (induction xs arbitrary: i) (auto split: if_splits simp: less_Suc_eq_0_disj)

lemma position_None_iff [vec_simps]: "position p xs = None \<longleftrightarrow> (\<forall>x\<in>set xs. \<not> p x)"
  by (induction xs) auto

lemma length_vec_insert [simp]: "length (vec_insert i x xs) = Suc (length xs)"
  by (simp add: vec_insert_def)

lemma length_vec_remove [simp]: "i < length xs \<Longrightarrow> length (vec_remove i xs) = length xs - 1"
  by (simp add: vec_remove_def)

lemma set_vec_insert [simp]: "set (vec_insert i x xs) = insert x (set xs)"
  unfolding vec_insert_def using set_append [of "take i xs" "drop i xs"] by auto

lemma set_vec_remove_insert:
  "i < length xs \<Longrightarrow> insert (xs ! i) (set (vec_remove i xs)) = set xs"
  using arg_cong [OF id_take_nth_drop, of i xs set] by (simp add: vec_remove_def)

lemma set_vec_remove_subset: "set (vec_remove i xs) \<subseteq> set xs"
  unfolding vec_remove_def by (auto dest: in_set_takeD in_set_dropD)

lemma map_vec_remove [vec_simps]: "map f (vec_remove i xs) = vec_remove i (map f xs)"
  by (simp add: vec_remove_def take_map drop_map)

lemma map_vec_insert [vec_simps]: "map f (vec_insert i x xs) = vec_insert i (f x) (map f xs)"
  by (simp add: vec_insert_def take_map drop_map)

lemma distinct_vec_remove:
  assumes "distinct xs" and "i < length xs"
  shows "distinct (vec_remove i xs) \<and> set (vec_remove i xs) = set xs - {xs ! i}"
proof -
  have xs: "xs = take i xs @ xs ! i # drop (Suc i) xs"
    using assms(2) by (rule id_take_nth_drop)
  have "distinct (take i xs @ xs ! i # drop (Suc i) xs)"
    using assms(1) by (subst xs [symmetric])
  then show ?thesis
    using arg_cong [OF xs, of set] by (auto simp: vec_remove_def)
qed

lemma mset_vec_swap_remove:
  assumes "i < length xs"
  shows "mset (vec_swap_remove i xs) = mset (vec_remove i xs)"
proof -
  from assms obtain ys l where xs: "xs = ys @ [l]"
    by (cases xs rule: rev_cases) auto
  show ?thesis
  proof (cases "i = length ys")
    case True
    then show ?thesis by (simp add: xs vec_swap_remove_def vec_remove_def)
  next
    case False
    with assms have i: "i < length ys" by (simp add: xs)
    then have "vec_swap_remove i xs = ys[i := l]"
      by (simp add: xs vec_swap_remove_def list_update_append1)
    also have "\<dots> = take i ys @ l # drop (Suc i) ys"
      using i by (rule upd_conv_take_nth_drop)
    finally show ?thesis
      using i by (simp add: xs vec_remove_def)
  qed
qed

lemma set_vec_swap_remove: "i < length xs \<Longrightarrow> set (vec_swap_remove i xs) = set (vec_remove i xs)"
  by (rule mset_eq_setD) (rule mset_vec_swap_remove)

lemma mset_map_vec_swap_remove:
  "i < length xs \<Longrightarrow> mset (map f (vec_swap_remove i xs)) = mset (vec_remove i (map f xs))"
  by (simp add: mset_vec_swap_remove flip: map_vec_remove)

lemma distinct_vec_swap_remove:
  assumes "distinct (map f xs)" and "i < length xs"
  shows "distinct (map f (vec_swap_remove i xs))"
    and "f ` set (vec_swap_remove i xs) = f ` set xs - {f (xs ! i)}"
proof -
  have m: "mset (map f (vec_swap_remove i xs)) = mset (vec_remove i (map f xs))"
    using assms(2) by (rule mset_map_vec_swap_remove)
  have d: "distinct (vec_remove i (map f xs))"
    "set (vec_remove i (map f xs)) = set (map f xs) - {map f xs ! i}"
    using distinct_vec_remove [OF assms(1), of i] assms(2) by auto
  show "distinct (map f (vec_swap_remove i xs))"
    using d(1) mset_eq_imp_distinct_iff [OF m] by simp
  show "f ` set (vec_swap_remove i xs) = f ` set xs - {f (xs ! i)}"
    using mset_eq_setD [OF m] d(2) assms(2) by simp
qed

lemma length_vec_swap_remove [simp]: "length (vec_swap_remove i xs) = length xs - 1"
  by (simp add: vec_swap_remove_def)

subsection \<open>Binary search\<close>

text \<open>
  \<open>slice::binary_search_by_key\<close> of the Rust standard library: the window is halved until
  one element is left, the base moving to the middle unless the middle is greater than the
  key; the last comparison decides between \<open>Ok\<close> (here \<open>Inr\<close>) and \<open>Err\<close> with the
  insertion point (\<open>Inl\<close>).
\<close>

function search_base :: "('a \<Rightarrow> 'k::linorder) \<Rightarrow> 'k \<Rightarrow> 'a list \<Rightarrow> nat \<Rightarrow> nat \<Rightarrow> nat" where
  "search_base f k xs base n =
     (if n > 1 then
        let half = n div 2; mid = base + half
        in search_base f k xs (if f (xs ! mid) > k then base else mid) (n - half)
      else base)"
  by pat_completeness auto
termination
  by (relation "measure (\<lambda>(f, k, xs, base, n). n)") auto

declare search_base.simps [simp del]

definition binary_search_by_key :: "('a \<Rightarrow> 'k::linorder) \<Rightarrow> 'k \<Rightarrow> 'a list \<Rightarrow> nat + nat" where
  "binary_search_by_key f k xs =
     (if xs = [] then Inl 0
      else let base = search_base f k xs 0 (length xs)
           in if f (xs ! base) = k then Inr base
              else Inl (base + (if f (xs ! base) < k then 1 else 0)))"

lemma search_base_spec:
  assumes "sorted_wrt (<) (map f xs)" and "0 < n" and "base + n \<le> length xs"
    and "\<forall>j<base. f (xs ! j) < k"
    and "\<forall>j. base + n \<le> j \<and> j < length xs \<longrightarrow> k < f (xs ! j)"
  shows "search_base f k xs base n < length xs \<and>
    (\<forall>j < search_base f k xs base n. f (xs ! j) < k) \<and>
    (\<forall>j. search_base f k xs base n < j \<and> j < length xs \<longrightarrow> k < f (xs ! j))"
  using assms
proof (induction f k xs base n rule: search_base.induct)
  case (1 f k xs base n)
  have mono: "f (xs ! i) < f (xs ! j)" if "i < j" "j < length xs" for i j
    using sorted_wrt_nth_less [OF "1.prems"(1), of i j] that by simp
  show ?case
  proof (cases "n > 1")
    case False
    then have "search_base f k xs base n = base"
      by (simp add: search_base.simps [of f k xs base n])
    moreover have "n = 1" using False "1.prems" by simp
    ultimately show ?thesis using "1.prems" by (simp add: Suc_le_eq)
  next
    case True
    define half where "half = n div 2"
    define mid where "mid = base + half"
    define base' where "base' = (if f (xs ! mid) > k then base else mid)"
    have half: "0 < half" "half < n" using True by (auto simp: half_def)
    have mid: "mid < length xs" using half "1.prems"(3) by (simp add: mid_def)
    have low: "\<forall>j<base'. f (xs ! j) < k"
    proof (intro allI impI)
      fix j assume j: "j < base'"
      show "f (xs ! j) < k"
      proof (cases "f (xs ! mid) > k")
        case True
        with j "1.prems"(4) show ?thesis by (simp add: base'_def)
      next
        case False
        with j have "f (xs ! j) < f (xs ! mid)" using mono mid by (simp add: base'_def)
        with False show ?thesis by simp
      qed
    qed
    have high: "\<forall>j. base' + (n - half) \<le> j \<and> j < length xs \<longrightarrow> k < f (xs ! j)"
    proof (intro allI impI)
      fix j assume j: "base' + (n - half) \<le> j \<and> j < length xs"
      show "k < f (xs ! j)"
      proof (cases "f (xs ! mid) > k")
        case True
        have "half \<le> n - half" by (simp add: half_def)
        with j True half have "mid \<le> j" by (auto simp: base'_def mid_def)
        with True mono [of mid j] j show ?thesis by (cases "mid = j") (auto intro: less_trans)
      next
        case False
        with j half "1.prems"(5) show ?thesis by (simp add: base'_def mid_def)
      qed
    qed
    have "base' + (n - half) \<le> length xs"
      using "1.prems"(3) half by (auto simp: base'_def mid_def)
    then have "search_base f k xs base' (n - half) < length xs \<and>
      (\<forall>j < search_base f k xs base' (n - half). f (xs ! j) < k) \<and>
      (\<forall>j. search_base f k xs base' (n - half) < j \<and> j < length xs \<longrightarrow> k < f (xs ! j))"
      using "1.IH" [OF True half_def mid_def, folded base'_def, OF "1.prems"(1) _ _ low high] half(2)
      by (metis zero_less_diff)
    moreover have "search_base f k xs base n = search_base f k xs base' (n - half)"
      using True by (subst search_base.simps) (simp add: base'_def mid_def half_def Let_def)
    ultimately show ?thesis by simp
  qed
qed

lemma search_base_all:
  assumes "sorted_wrt (<) (map f xs)" and "xs \<noteq> []"
  shows "search_base f k xs 0 (length xs) < length xs"
    and "j < search_base f k xs 0 (length xs) \<Longrightarrow> f (xs ! j) < k"
    and "search_base f k xs 0 (length xs) < j \<Longrightarrow> j < length xs \<Longrightarrow> k < f (xs ! j)"
proof -
  have *: "\<forall>j. 0 + length xs \<le> j \<and> j < length xs \<longrightarrow> k < f (xs ! j)" by auto
  show "search_base f k xs 0 (length xs) < length xs"
    and "j < search_base f k xs 0 (length xs) \<Longrightarrow> f (xs ! j) < k"
    and "search_base f k xs 0 (length xs) < j \<Longrightarrow> j < length xs \<Longrightarrow> k < f (xs ! j)"
    using search_base_spec [OF assms(1), of "length xs" 0 k, OF _ _ _ *] assms(2) by auto
qed

lemma binary_search_Inr:
  assumes "sorted_wrt (<) (map f xs)" and "binary_search_by_key f k xs = Inr i"
  shows "i < length xs \<and> f (xs ! i) = k"
  using assms search_base_all(1) [OF assms(1), of k]
  by (auto simp: binary_search_by_key_def Let_def split: if_splits)

lemma binary_search_Inl:
  assumes sorted: "sorted_wrt (<) (map f xs)" and res: "binary_search_by_key f k xs = Inl i"
  shows "i \<le> length xs \<and> (\<forall>j<i. f (xs ! j) < k) \<and> (\<forall>j. i \<le> j \<and> j < length xs \<longrightarrow> k < f (xs ! j))"
proof (cases "xs = []")
  case True
  with res show ?thesis by (simp add: binary_search_by_key_def)
next
  case False
  define b where "b = search_base f k xs 0 (length xs)"
  have b: "b < length xs" "\<forall>j<b. f (xs ! j) < k" "\<forall>j. b < j \<and> j < length xs \<longrightarrow> k < f (xs ! j)"
    using search_base_all [OF sorted False] by (simp_all add: b_def)
  show ?thesis
  proof (cases "f (xs ! b) < k")
    case True
    then have "i = Suc b" using False res by (auto simp: binary_search_by_key_def Let_def b_def split: if_splits)
    with b True show ?thesis by (auto simp: less_Suc_eq)
  next
    case nless: False
    with False res have "i = b" "k < f (xs ! b)"
      by (auto simp: binary_search_by_key_def Let_def b_def split: if_splits)
    with b show ?thesis by (auto simp: le_less)
  qed
qed

text \<open>On a sorted slice the search decides membership of the key.\<close>

lemma binary_search_found_iff:
  assumes "sorted_wrt (<) (map f xs)"
  shows "(\<exists>i. binary_search_by_key f k xs = Inr i) \<longleftrightarrow> k \<in> f ` set xs"
proof (cases "binary_search_by_key f k xs")
  case (Inr i)
  then show ?thesis using binary_search_Inr [OF assms Inr] by force
next
  case (Inl i)
  have "k \<noteq> f (xs ! j)" if "j < length xs" for j
    using binary_search_Inl [OF assms Inl] that
    by (cases "j < i") (auto simp: not_less dest: less_imp_neq)
  then have "k \<notin> f ` set xs" by (metis image_iff in_set_conv_nth)
  with Inl show ?thesis by simp
qed

lemma binary_search_insert_sorted:
  assumes sorted: "sorted_wrt (<) (map f xs)" and res: "binary_search_by_key f (f x) xs = Inl i"
  shows "sorted_wrt (<) (map f (vec_insert i x xs))"
proof -
  have i: "i \<le> length xs" "\<forall>j<i. f (xs ! j) < f x"
    "\<forall>j. i \<le> j \<and> j < length xs \<longrightarrow> f x < f (xs ! j)"
    using binary_search_Inl [OF sorted res] by auto
  have "\<forall>y\<in>set (take i xs). f y < f x"
    using i by (auto simp: in_set_conv_nth)
  moreover have "\<forall>y\<in>set (drop i xs). f x < f y"
    using i by (auto simp: in_set_conv_nth)
  moreover have "sorted_wrt (<) (map f (take i xs) @ map f (drop i xs))"
    using sorted by (simp flip: map_append)
  ultimately show ?thesis
    by (auto simp: vec_insert_def sorted_wrt_append intro: less_trans)
qed

lemma vec_remove_sorted:
  assumes "sorted_wrt P xs"
  shows "sorted_wrt P (vec_remove i xs)"
proof -
  have "sorted_wrt P (take i xs @ drop i xs)" using assms by simp
  then show ?thesis
    unfolding vec_remove_def sorted_wrt_append
    using sorted_wrt_drop [OF assms, of "Suc i"] set_drop_subset_set_drop [of i "Suc i" xs]
    by auto
qed

lemma sorted_less_distinct: "sorted_wrt (<) (xs :: 'a::linorder list) \<Longrightarrow> distinct xs"
  by (simp add: strict_sorted_iff)

subsection \<open>Iterators\<close>

text \<open>\<open>Iterator::find_map\<close>: the first result the closure produces.\<close>

fun find_map :: "('a \<Rightarrow> 'b option) \<Rightarrow> 'a list \<Rightarrow> 'b option" where
  "find_map f [] = None"
| "find_map f (x # xs) = (case f x of Some y \<Rightarrow> Some y | None \<Rightarrow> find_map f xs)"

lemma find_map_SomeD: "find_map f xs = Some y \<Longrightarrow> \<exists>i<length xs. f (xs ! i) = Some y \<and> (\<forall>j<i. f (xs ! j) = None)"
proof (induction xs)
  case (Cons x xs)
  show ?case
  proof (cases "f x")
    case None
    with Cons obtain i where "i < length xs" "f (xs ! i) = Some y" "\<forall>j<i. f (xs ! j) = None" by auto
    with None show ?thesis by (intro exI [of _ "Suc i"]) (auto simp: less_Suc_eq_0_disj)
  next
    case (Some z)
    with Cons.prems show ?thesis by (intro exI [of _ 0]) simp
  qed
qed simp

lemma find_map_None_iff: "find_map f xs = None \<longleftrightarrow> (\<forall>x\<in>set xs. f x = None)"
  by (induction xs) (auto split: option.splits)

lemma length_filter_update:
  "i < length xs \<Longrightarrow>
   length (filter P (xs[i := y])) + of_bool (P (xs ! i)) = length (filter P xs) + of_bool (P y)"
proof (induction xs arbitrary: i)
  case (Cons x xs)
  show ?case
  proof (cases i)
    case (Suc j)
    then show ?thesis using Cons.IH [of j] Cons.prems by simp
  qed simp
qed simp

end
