(* ===== verification/Status.thy ===== *)
theory Status
  imports Prelude
begin

text \<open>
  Error values: the mechanism failures of the native ABI (\<^verbatim>\<open>crates/abi/src/status.rs\<close>)
  with their raw encoding, and the kernel's internal error type
  (\<^verbatim>\<open>src/result.rs\<close>) with its severity classification.
\<close>

subsection \<open>ABI status codes\<close>

datatype status_error =
    LimitExceeded
  | InvalidAddress
  | ResourceUnavailable
  | BackingFailure
  | InvalidArgument
  | AccessDenied
  | NotReady
  | AlreadyExists
  | NotFound
  | PeerClosed
  | Unsupported
  | InvalidFormat

text \<open>The discriminants of the \<^verbatim>\<open>repr(u16)\<close> enum.\<close>

primrec discriminant :: "status_error \<Rightarrow> u64" where
  "discriminant LimitExceeded = 1"
| "discriminant InvalidAddress = 2"
| "discriminant ResourceUnavailable = 3"
| "discriminant BackingFailure = 4"
| "discriminant InvalidArgument = 5"
| "discriminant AccessDenied = 6"
| "discriminant NotReady = 7"
| "discriminant AlreadyExists = 8"
| "discriminant NotFound = 9"
| "discriminant PeerClosed = 10"
| "discriminant Unsupported = 11"
| "discriminant InvalidFormat = 12"

definition STATUS_TAG :: u64 where
  "STATUS_TAG = 0xfffffffffffc0000"

definition STATUS_MASK :: u64 where
  "STATUS_MASK = 0xffffffffffff0000"

definition into_raw :: "status_error \<Rightarrow> u64" where
  "into_raw e = STATUS_TAG OR discriminant e"

definition SUCCESS :: u64 where
  "SUCCESS = 0"

lemma into_raw_not_success [simp]: "into_raw e \<noteq> SUCCESS"
  by (cases e) (simp_all add: into_raw_def STATUS_TAG_def SUCCESS_def)

definition is_error :: "u64 \<Rightarrow> bool" where
  "is_error raw \<longleftrightarrow> raw AND STATUS_MASK = STATUS_TAG"

definition from_raw :: "u64 \<Rightarrow> status_error option" where
  "from_raw raw =
     (if \<not> is_error raw then None
      else let code = raw AND NOT STATUS_MASK in
        if code = 1 then Some LimitExceeded
        else if code = 2 then Some InvalidAddress
        else if code = 3 then Some ResourceUnavailable
        else if code = 4 then Some BackingFailure
        else if code = 5 then Some InvalidArgument
        else if code = 6 then Some AccessDenied
        else if code = 7 then Some NotReady
        else if code = 8 then Some AlreadyExists
        else if code = 9 then Some NotFound
        else if code = 10 then Some PeerClosed
        else if code = 11 then Some Unsupported
        else if code = 12 then Some InvalidFormat
        else None)"

lemmas status_defs = into_raw_def is_error_def from_raw_def STATUS_TAG_def STATUS_MASK_def

lemma is_error_into_raw: "is_error (into_raw e)"
  by (cases e) (simp_all add: status_defs)

lemma from_raw_into_raw: "from_raw (into_raw e) = Some e"
  by (cases e) (simp_all add: status_defs)

lemma word_mask_split: "(x :: u64) = (x AND m) OR (x AND NOT m)"
  by (rule bit_word_eqI) (auto simp: bit_simps)

lemma from_raw_Some:
  assumes "from_raw raw = Some e"
  shows "raw = into_raw e"
proof -
  have tag: "raw AND STATUS_MASK = STATUS_TAG"
    using assms by (auto simp: from_raw_def is_error_def split: if_splits)
  moreover have "raw AND NOT STATUS_MASK = discriminant e"
    using assms by (auto simp: from_raw_def Let_def split: if_splits)
  ultimately show ?thesis
    using word_mask_split [of raw STATUS_MASK] by (simp add: into_raw_def)
qed

text \<open>
  A raw error truncated to the 32-bit signed status field of a service message and
  sign-extended back is the same raw value: bits 31 to 63 of the tag are all ones.
\<close>

definition service_status_field :: "u64 \<Rightarrow> u64" where
  "service_status_field raw = signed (ucast raw :: 32 word)"

lemma is_error_high_bits:
  assumes "is_error raw" and "18 \<le> n" and "n < 64"
  shows "bit raw n"
proof -
  have "bit (raw AND STATUS_MASK) n = bit STATUS_TAG n"
    using assms(1) by (simp add: is_error_def)
  moreover have "bit STATUS_TAG n"
  proof -
    have "STATUS_TAG = NOT (mask 18)"
      by (simp add: STATUS_TAG_def mask_eq_exp_minus_1)
    moreover have "bit (NOT (mask 18) :: u64) n"
      unfolding bit_not_iff bit_mask_iff using assms(2,3) by simp
    ultimately show ?thesis by metis
  qed
  ultimately show ?thesis by (simp add: bit_simps)
qed

lemma service_status_field_error: "is_error raw \<Longrightarrow> service_status_field raw = raw"
  unfolding service_status_field_def
proof (rule bit_word_eqI)
  fix n assume raw: "is_error raw" and "n < LENGTH(64)"
  then show "bit (signed (ucast raw :: 32 word) :: u64) n = bit raw n"
    using is_error_high_bits [OF raw, of n] is_error_high_bits [OF raw, of 31]
    by (cases "n < 32") (auto simp: bit_simps min_def)
qed

subsection \<open>Kernel errors\<close>

datatype memory_error =
    Mem_Busy
  | Mem_OutOfMemory
  | Mem_InvalidAddress
  | Mem_PermissionDenied
  | Mem_AlreadyMapped
  | Mem_NotMapped
  | Mem_AlignmentError

datatype process_error =
    Proc_InvalidPid
  | Proc_ProcessNotFound
  | Proc_MaxProcessesReached
  | Proc_InsufficientPrivilege
  | Proc_IpcError
  | Proc_Timeout
  | Proc_RogueProcessDetected
  | Proc_CreationOk

datatype elf_error =
    Elf_InvalidFormat
  | Elf_UnsupportedType
  | Elf_SegmentLoadFailure
  | Elf_SymbolResolutionFailure
  | Elf_InsufficientLength

datatype device_error =
    Dev_Busy
  | Dev_HardwareFailure
  | Dev_Timeout
  | Dev_InvalidOperation
  | Dev_DeviceNotFound
  | Dev_DriverLoadFailure
  | Dev_Disconnected
  | Dev_Unsupported
  | Dev_CommunicationLost
  | Dev_ResourceUnavailable

datatype kernel_error =
    Kernel_Memory memory_error
  | Kernel_Process process_error
  | Kernel_Device device_error
  | Kernel_Elf elf_error
  | Kernel_InvalidParam
  | Kernel_NotImplemented

fun is_fatal :: "kernel_error \<Rightarrow> bool" where
  "is_fatal (Kernel_Memory Mem_OutOfMemory) = True"
| "is_fatal (Kernel_Device Dev_HardwareFailure) = True"
| "is_fatal _ = False"

fun is_retryable :: "kernel_error \<Rightarrow> bool" where
  "is_retryable (Kernel_Device Dev_Busy) = True"
| "is_retryable (Kernel_Device Dev_Timeout) = True"
| "is_retryable _ = False"

end
