(* ===== verification/Owner_Counting.thy ===== *)
theory Owner_Counting
  imports Prelude
begin

text \<open>
  The contract between the page-table code and a table of owner counts: a key has at least
  one owner, a successful \<open>retain\<close> adds one, a \<open>release\<close> removes one and answers
  \<open>True\<close> exactly when the caller was the only owner left (then the caller frees the
  resource). Clients run arbitrary sequences of these two operations, as
  \<open>retain_shared_user_frame\<close> and \<open>release_user_frame\<close> of
  \<^verbatim>\<open>src/mem/paging.rs\<close> do on the shared-frame table. An operation returns an option:
  \<open>None\<close> would be a call that never returns.
\<close>

datatype ('a, 'k) owner_event = Retain 'a 'k | Release 'k

datatype 'k owner_outcome = Retained 'k bool | Released 'k bool

text \<open>A trace of calls and their answers; \<open>'a\<close> is what \<open>retain\<close> takes from its environment.\<close>

fun run_owners ::
  "('t \<Rightarrow> 'a \<Rightarrow> 'k \<Rightarrow> (bool \<times> 't) option) \<Rightarrow> ('t \<Rightarrow> 'k \<Rightarrow> (bool \<times> 't) option)
     \<Rightarrow> ('a, 'k) owner_event list \<Rightarrow> 't \<Rightarrow> ('k owner_outcome list \<times> 't) option" where
  "run_owners ret rel [] t = Some ([], t)"
| "run_owners ret rel (Retain a k # es) t =
     (case ret t a k of
        None \<Rightarrow> None
      | Some (ok, t') \<Rightarrow> map_option (\<lambda>(os, t''). (Retained k ok # os, t'')) (run_owners ret rel es t'))"
| "run_owners ret rel (Release k # es) t =
     (case rel t k of
        None \<Rightarrow> None
      | Some (freed, t') \<Rightarrow> map_option (\<lambda>(os, t''). (Released k freed # os, t'')) (run_owners ret rel es t'))"

text \<open>The owners of \<open>k\<close> after the answers \<open>os\<close>, starting from \<open>n\<close> owners.\<close>

definition owners_after :: "nat \<Rightarrow> 'k \<Rightarrow> 'k owner_outcome list \<Rightarrow> nat" where
  "owners_after n k os = n + count_list os (Retained k True) - count_list os (Released k False)"

text \<open>
  Every release among the answers frees its key exactly when all references taken on it so
  far have been given back.
\<close>

definition frees_last_owner :: "('k \<Rightarrow> nat) \<Rightarrow> 'k owner_outcome list \<Rightarrow> bool" where
  "frees_last_owner n os \<longleftrightarrow>
     (\<forall>i < length os. \<forall>k freed. os ! i = Released k freed \<longrightarrow>
        (freed \<longleftrightarrow> n k + count_list (take i os) (Retained k True)
                   = 1 + count_list (take i os) (Released k False)))"

locale owner_counts =
  fixes invar :: "'t \<Rightarrow> bool"
    and owners :: "'t \<Rightarrow> 'k \<Rightarrow> nat"
    and ret :: "'t \<Rightarrow> 'a \<Rightarrow> 'k \<Rightarrow> (bool \<times> 't) option"
    and rel :: "'t \<Rightarrow> 'k \<Rightarrow> (bool \<times> 't) option"
  assumes owners_pos: "invar t \<Longrightarrow> 1 \<le> owners t k"
    and ret_law: "invar t \<Longrightarrow> \<exists>ok t'. ret t a k = Some (ok, t') \<and> invar t' \<and>
          owners t' = (if ok then (owners t)(k := owners t k + 1) else owners t)"
    and rel_law: "invar t \<Longrightarrow> \<exists>t'. rel t k = Some (owners t k = 1, t') \<and> invar t' \<and>
          owners t' = (if owners t k = 1 then owners t else (owners t)(k := owners t k - 1))"
begin

lemma frees_last_owner_Cons:
  assumes "frees_last_owner n' os" and "\<And>k. n' k + of_bool (o' = Released k False) = n k + of_bool (o' = Retained k True)"
    and "\<And>k freed. o' = Released k freed \<Longrightarrow> (freed \<longleftrightarrow> n k = 1)"
  shows "frees_last_owner n (o' # os)"
  unfolding frees_last_owner_def
proof (intro allI impI)
  fix i k freed
  assume i: "i < length (o' # os)" and at: "(o' # os) ! i = Released k freed"
  show "freed \<longleftrightarrow> n k + count_list (take i (o' # os)) (Retained k True)
          = 1 + count_list (take i (o' # os)) (Released k False)"
  proof (cases i)
    case 0
    with at assms(3) show ?thesis by simp
  next
    case (Suc m)
    with assms(1) i at have "freed \<longleftrightarrow> n' k + count_list (take m os) (Retained k True)
        = 1 + count_list (take m os) (Released k False)"
      by (simp add: frees_last_owner_def)
    with assms(2) [of k] Suc show ?thesis by (cases o') auto
  qed
qed

lemma run_owners_correct:
  assumes "invar t"
  shows "\<exists>os t'. run_owners ret rel es t = Some (os, t') \<and> invar t' \<and> length os = length es \<and>
    (\<forall>k. owners t' k + count_list os (Released k False) = owners t k + count_list os (Retained k True)) \<and>
    frees_last_owner (owners t) os"
  using assms
proof (induction es arbitrary: t)
  case Nil
  then show ?case by (simp add: frees_last_owner_def)
next
  case (Cons e es)
  show ?case
  proof (cases e)
    case (Retain a k)
    obtain ok t1 where t1: "ret t a k = Some (ok, t1)" "invar t1"
      "owners t1 = (if ok then (owners t)(k := owners t k + 1) else owners t)"
      using ret_law [OF Cons.prems] by blast
    obtain os t2 where t2: "run_owners ret rel es t1 = Some (os, t2)" "invar t2" "length os = length es"
      "\<forall>k. owners t2 k + count_list os (Released k False) = owners t1 k + count_list os (Retained k True)"
      "frees_last_owner (owners t1) os"
      using Cons.IH [OF t1(2)] by blast
    have "frees_last_owner (owners t) (Retained k ok # os)"
      by (rule frees_last_owner_Cons [OF t2(5)]) (auto simp: t1(3))
    then show ?thesis
      using Retain t1 t2 by (auto split: if_splits)
  next
    case (Release k)
    obtain t1 where t1: "rel t k = Some (owners t k = 1, t1)" "invar t1"
      "owners t1 = (if owners t k = 1 then owners t else (owners t)(k := owners t k - 1))"
      using rel_law [OF Cons.prems] by blast
    obtain os t2 where t2: "run_owners ret rel es t1 = Some (os, t2)" "invar t2" "length os = length es"
      "\<forall>k. owners t2 k + count_list os (Released k False) = owners t1 k + count_list os (Retained k True)"
      "frees_last_owner (owners t1) os"
      using Cons.IH [OF t1(2)] by blast
    have pos: "1 \<le> owners t k" using owners_pos [OF Cons.prems] .
    have "frees_last_owner (owners t) (Released k (owners t k = 1) # os)"
      by (rule frees_last_owner_Cons [OF t2(5)]) (use pos in \<open>auto simp: t1(3)\<close>)
    moreover have "owners t2 q + count_list (Released k (owners t k = 1) # os) (Released q False) =
        owners t q + count_list (Released k (owners t k = 1) # os) (Retained q True)" for q
      using t2(4) [rule_format, of q] pos by (auto simp: t1(3) split: if_splits)
    ultimately show ?thesis
      using Release t1 t2 by auto
  qed
qed

end

end
