(* ===== verification/Frame_Refs.thy ===== *)
theory Frame_Refs
  imports Status Owner_Counting
begin

text \<open>
  The reference counts of shared user frames (\<^verbatim>\<open>src/mem/frame_refs.rs\<close>): an
  open-addressing hash table with linear probing and tombstones. A frame that is not in the
  table has one owner; a live slot counts two or more. The probe loops of the code have no
  bound, so they are \<^theory_text>\<open>partial_function (option)\<close> with \<open>None\<close> for "never
  returns"; under the table invariant every one of them returns.
\<close>

subsection \<open>The table\<close>

record slot =
  slot_phys :: u64
  slot_refs :: u32

definition EMPTY :: u32 where "EMPTY = 0"

definition DELETED :: u32 where "DELETED = 1"

definition INITIAL_CAPACITY :: nat where "INITIAL_CAPACITY = 64"

definition Slot_EMPTY :: slot where
  "Slot_EMPTY = \<lparr>slot_phys = 0, slot_refs = 0\<rparr>"

record frame_reference_table =
  slots :: "slot list"
  live :: nat
  deleted :: nat

definition frame_refs_new :: frame_reference_table where
  "frame_refs_new = \<lparr>slots = [], live = 0, deleted = 0\<rparr>"

definition frame_hash :: "u64 \<Rightarrow> usize" where
  "frame_hash phys =
     (let value = drop_bit 12 phys;
          value = value XOR drop_bit 30 value;
          value = value * 0xbf58476d1ce4e5b9;
          value = value XOR drop_bit 27 value;
          value = value * 0x94d049bb133111eb
      in value XOR drop_bit 31 value)"

definition home_index :: "u64 \<Rightarrow> slot list \<Rightarrow> nat" where
  "home_index phys ss = unat (frame_hash phys) AND (length ss - 1)"

definition next_index :: "nat \<Rightarrow> slot list \<Rightarrow> nat" where
  "next_index index ss = (index + 1) AND (length ss - 1)"

subsection \<open>Growing\<close>

text \<open>The inner \<^verbatim>\<open>while\<close> of \<open>rehash\<close>: the first empty slot from \<open>index\<close> on.\<close>

partial_function (option) rehash_place :: "slot list \<Rightarrow> nat \<Rightarrow> nat option" where
  "rehash_place ss index =
     (if slot_refs (ss ! index) \<noteq> EMPTY then rehash_place ss (next_index index ss)
      else Some index)"

fun rehash_loop :: "slot list \<Rightarrow> slot list \<Rightarrow> slot list option" where
  "rehash_loop [] ss = Some ss"
| "rehash_loop (old # olds) ss =
     (if slot_refs old < 2 then rehash_loop olds ss
      else case rehash_place ss (home_index (slot_phys old) ss) of
             None \<Rightarrow> None
           | Some index \<Rightarrow> rehash_loop olds (ss[index := old]))"

text \<open>
  \<open>alloc\<close> is the outcome of \<^verbatim>\<open>try_reserve_exact\<close>. The outer option is \<open>None\<close>
  when a loop does not return.
\<close>

definition rehash ::
  "bool \<Rightarrow> nat \<Rightarrow> frame_reference_table \<Rightarrow> ((kernel_error + unit) \<times> frame_reference_table) option" where
  "rehash alloc capacity t =
     (if \<not> alloc then Some (Inl (Kernel_Memory Mem_OutOfMemory), t)
      else case rehash_loop (slots t) (replicate capacity Slot_EMPTY) of
             None \<Rightarrow> None
           | Some ss \<Rightarrow> Some (Inr (), t\<lparr>slots := ss, deleted := 0\<rparr>))"

definition ensure_insert_capacity ::
  "bool \<Rightarrow> frame_reference_table \<Rightarrow> ((kernel_error + unit) \<times> frame_reference_table) option" where
  "ensure_insert_capacity alloc t =
     (if slots t = [] then rehash alloc INITIAL_CAPACITY t
      else if live t + deleted t + 1 \<le> length (slots t) * 3 div 4 then Some (Inr (), t)
      else if live t + 1 \<le> length (slots t) div 2 then rehash alloc (length (slots t)) t
      else if length (slots t) * 2 < 2 ^ 64 then rehash alloc (length (slots t) * 2) t
      else Some (Inl (Kernel_Memory Mem_OutOfMemory), t))"

subsection \<open>Operations\<close>

partial_function (option) retain_loop ::
  "frame_reference_table \<Rightarrow> u64 \<Rightarrow> nat option \<Rightarrow> nat
     \<Rightarrow> ((kernel_error + unit) \<times> frame_reference_table) option" where
  "retain_loop t phys first_deleted index =
     (let s = slots t ! index in
      if slot_refs s = EMPTY then
        let target = (case first_deleted of None \<Rightarrow> index | Some i \<Rightarrow> i) in
        Some (Inr (),
          t\<lparr>slots := (slots t)[target := \<lparr>slot_phys = phys, slot_refs = 2\<rparr>],
            live := live t + 1,
            deleted := (if first_deleted \<noteq> None then deleted t - 1 else deleted t)\<rparr>)
      else if slot_refs s = DELETED then
        retain_loop t phys (case first_deleted of None \<Rightarrow> Some index | Some i \<Rightarrow> Some i)
          (next_index index (slots t))
      else if slot_phys s = phys then
        (case checked_add (slot_refs s) 1 of
           None \<Rightarrow> Some (Inl (Kernel_Memory Mem_OutOfMemory), t)
         | Some r \<Rightarrow> Some (Inr (), t\<lparr>slots := (slots t)[index := s\<lparr>slot_refs := r\<rparr>]\<rparr>))
      else retain_loop t phys first_deleted (next_index index (slots t)))"

definition retain ::
  "bool \<Rightarrow> frame_reference_table \<Rightarrow> u64
     \<Rightarrow> ((kernel_error + unit) \<times> frame_reference_table) option" where
  "retain alloc t phys =
     (case ensure_insert_capacity alloc t of
        None \<Rightarrow> None
      | Some (Inl e, t') \<Rightarrow> Some (Inl e, t')
      | Some (Inr _, t') \<Rightarrow> retain_loop t' phys None (home_index phys (slots t')))"

partial_function (option) release_loop ::
  "frame_reference_table \<Rightarrow> u64 \<Rightarrow> nat \<Rightarrow> (bool \<times> frame_reference_table) option" where
  "release_loop t phys index =
     (let s = slots t ! index in
      if slot_refs s = EMPTY then Some (True, t)
      else if slot_refs s = DELETED then release_loop t phys (next_index index (slots t))
      else if slot_refs s = 2 \<and> slot_phys s = phys then
        Some (False,
          t\<lparr>slots := (slots t)[index := s\<lparr>slot_refs := DELETED\<rparr>],
            live := live t - 1, deleted := deleted t + 1\<rparr>)
      else if slot_phys s = phys then
        Some (False, t\<lparr>slots := (slots t)[index := s\<lparr>slot_refs := slot_refs s - 1\<rparr>]\<rparr>)
      else release_loop t phys (next_index index (slots t)))"

text \<open>\<open>True\<close>: the caller was the last owner and frees the frame.\<close>

definition release ::
  "frame_reference_table \<Rightarrow> u64 \<Rightarrow> (bool \<times> frame_reference_table) option" where
  "release t phys =
     (if slots t = [] then Some (True, t) else release_loop t phys (home_index phys (slots t)))"

partial_function (option) owners_loop :: "frame_reference_table \<Rightarrow> u64 \<Rightarrow> nat \<Rightarrow> bool option" where
  "owners_loop t phys index =
     (let s = slots t ! index in
      if slot_refs s = EMPTY then Some False
      else if slot_refs s = DELETED then owners_loop t phys (next_index index (slots t))
      else if slot_phys s = phys then Some True
      else owners_loop t phys (next_index index (slots t)))"

definition has_multiple_owners :: "frame_reference_table \<Rightarrow> u64 \<Rightarrow> bool option" where
  "has_multiple_owners t phys =
     (if slots t = [] then Some False else owners_loop t phys (home_index phys (slots t)))"

subsection \<open>Abstraction and invariant\<close>

definition is_live :: "slot \<Rightarrow> bool" where
  "is_live s \<longleftrightarrow> 2 \<le> slot_refs s"

definition holds :: "u64 \<Rightarrow> slot \<Rightarrow> bool" where
  "holds phys s \<longleftrightarrow> is_live s \<and> slot_phys s = phys"

text \<open>What the table means: the count of each frame with more than one owner.\<close>

definition slot_lookup :: "slot list \<Rightarrow> u64 \<Rightarrow> u32 option" where
  "slot_lookup ss phys = map_option slot_refs (find (holds phys) ss)"

definition refs_of :: "frame_reference_table \<Rightarrow> u64 \<Rightarrow> u32 option" where
  "refs_of t = slot_lookup (slots t)"

definition owner_count :: "frame_reference_table \<Rightarrow> u64 \<Rightarrow> nat" where
  "owner_count t phys = (case refs_of t phys of None \<Rightarrow> 1 | Some r \<Rightarrow> unat r)"

text \<open>Every live slot is reachable from its home index over non-empty slots.\<close>

definition reachable_slots :: "slot list \<Rightarrow> bool" where
  "reachable_slots ss \<longleftrightarrow>
     (\<forall>i < length ss. is_live (ss ! i) \<longrightarrow>
       (\<exists>d < length ss. i = (home_index (slot_phys (ss ! i)) ss + d) mod length ss \<and>
         (\<forall>j < d. slot_refs (ss ! ((home_index (slot_phys (ss ! i)) ss + j) mod length ss)) \<noteq> EMPTY)))"

definition unique_slots :: "slot list \<Rightarrow> bool" where
  "unique_slots ss \<longleftrightarrow>
     (\<forall>i < length ss. \<forall>j < length ss.
       is_live (ss ! i) \<and> is_live (ss ! j) \<and> slot_phys (ss ! i) = slot_phys (ss ! j) \<longrightarrow> i = j)"

definition count_live :: "slot list \<Rightarrow> nat" where
  "count_live ss = length (filter is_live ss)"

definition count_deleted :: "slot list \<Rightarrow> nat" where
  "count_deleted ss = length (filter (\<lambda>s. slot_refs s = DELETED) ss)"

definition frame_refs_invar :: "frame_reference_table \<Rightarrow> bool" where
  "frame_refs_invar t \<longleftrightarrow>
     (slots t = [] \<and> live t = 0 \<and> deleted t = 0) \<or>
     ((\<exists>k. length (slots t) = 2 ^ k) \<and> 4 \<le> length (slots t) \<and>
      live t = count_live (slots t) \<and> deleted t = count_deleted (slots t) \<and>
      live t + deleted t \<le> length (slots t) * 3 div 4 \<and>
      unique_slots (slots t) \<and> reachable_slots (slots t))"


subsection \<open>Counting and indexing\<close>

lemma refs_cases:
  obtains (empty) "slot_refs s = EMPTY" | (deleted) "slot_refs s = DELETED" | (live) "is_live s"
proof -
  have "unat (slot_refs s) = 0 \<or> unat (slot_refs s) = 1 \<or> 2 \<le> unat (slot_refs s)"
    by arith
  then have "slot_refs s = EMPTY \<or> slot_refs s = DELETED \<or> is_live s"
    by (simp add: EMPTY_def DELETED_def is_live_def word_le_nat_alt word_unat_eq_iff)
  then show thesis using that by blast
qed

lemma live_not_empty: "is_live s \<Longrightarrow> slot_refs s \<noteq> EMPTY"
  and live_not_deleted: "is_live s \<Longrightarrow> slot_refs s \<noteq> DELETED"
  by (auto simp: is_live_def EMPTY_def DELETED_def word_le_nat_alt)

lemma empty_not_deleted [simp]: "EMPTY \<noteq> DELETED" "DELETED \<noteq> EMPTY"
  by (auto simp: EMPTY_def DELETED_def)

lemma live_iff: "is_live s \<longleftrightarrow> slot_refs s \<noteq> EMPTY \<and> slot_refs s \<noteq> DELETED"
  by (cases s rule: refs_cases) (auto dest: live_not_empty live_not_deleted)

lemma count_partition:
  "length ss = count_live ss + count_deleted ss + length (filter (\<lambda>s. slot_refs s = EMPTY) ss)"
proof (induction ss)
  case (Cons s ss)
  then show ?case
    by (cases s rule: refs_cases) (auto simp: count_live_def count_deleted_def live_iff)
qed (simp add: count_live_def count_deleted_def)

lemma empty_slot_exists:
  assumes "count_live ss + count_deleted ss < length ss"
  obtains i where "i < length ss" and "slot_refs (ss ! i) = EMPTY"
proof -
  have "filter (\<lambda>s. slot_refs s = EMPTY) ss \<noteq> []"
    using count_partition [of ss] assms by auto
  then obtain s where "s \<in> set ss" and "slot_refs s = EMPTY"
    by (auto simp: filter_empty_conv)
  then show thesis using that by (auto simp: in_set_conv_nth)
qed

lemma and_pow2_minus_1: "(n :: nat) AND (2 ^ k - Suc 0) = n mod 2 ^ k"
  using take_bit_eq_mask [of k n] by (simp add: take_bit_eq_mod mask_eq_exp_minus_1)

lemma next_index_mod: "length ss = 2 ^ k \<Longrightarrow> next_index i ss = Suc i mod length ss"
  by (simp add: next_index_def and_pow2_minus_1)

lemma home_index_less: "length ss = 2 ^ k \<Longrightarrow> home_index phys ss < length ss"
  by (simp add: home_index_def and_pow2_minus_1)

lemma home_index_cong: "length ss = length ss' \<Longrightarrow> home_index phys ss = home_index phys ss'"
  by (simp add: home_index_def)

subsection \<open>Looking slots up\<close>

lemma unique_slotsD:
  assumes "unique_slots ss" and "i < length ss" and "j < length ss"
    and "holds q (ss ! i)" and "holds q (ss ! j)"
  shows "i = j"
  using assms unfolding unique_slots_def holds_def by metis

lemma slot_lookup_None_iff:
  "slot_lookup ss phys = None \<longleftrightarrow> (\<forall>i < length ss. \<not> holds phys (ss ! i))"
  by (auto simp: slot_lookup_def find_None_iff in_set_conv_nth)

lemma slot_lookup_Some_iff:
  assumes "unique_slots ss"
  shows "slot_lookup ss phys = Some r \<longleftrightarrow>
    (\<exists>i < length ss. holds phys (ss ! i) \<and> slot_refs (ss ! i) = r)"
proof
  assume "slot_lookup ss phys = Some r"
  then show "\<exists>i < length ss. holds phys (ss ! i) \<and> slot_refs (ss ! i) = r"
    by (auto simp: slot_lookup_def find_Some_iff)
next
  assume "\<exists>i < length ss. holds phys (ss ! i) \<and> slot_refs (ss ! i) = r"
  then obtain i where i: "i < length ss" "holds phys (ss ! i)" "slot_refs (ss ! i) = r" by blast
  then have "slot_lookup ss phys \<noteq> None" by (auto simp: slot_lookup_None_iff)
  then obtain j where j: "j < length ss" "holds phys (ss ! j)"
      "slot_lookup ss phys = Some (slot_refs (ss ! j))"
    by (auto simp: slot_lookup_def find_Some_iff)
  with i have "i = j" by (blast intro: unique_slotsD [OF assms])
  with i j show "slot_lookup ss phys = Some r" by simp
qed

lemma slot_lookup_eqI:
  assumes "unique_slots ss" and "unique_slots ss'"
    and "\<And>r. (\<exists>i < length ss. holds q (ss ! i) \<and> slot_refs (ss ! i) = r) \<longleftrightarrow>
             (\<exists>i < length ss'. holds q (ss' ! i) \<and> slot_refs (ss' ! i) = r)"
  shows "slot_lookup ss q = slot_lookup ss' q"
proof -
  have "slot_lookup ss q = Some r \<longleftrightarrow> slot_lookup ss' q = Some r" for r
    unfolding slot_lookup_Some_iff [OF assms(1)] slot_lookup_Some_iff [OF assms(2)]
    by (rule assms(3))
  then show ?thesis by (metis option.exhaust)
qed

lemma slot_lookup_update_other:
  assumes "unique_slots ss" and "i < length ss" and "unique_slots (ss[i := s])"
    and "\<not> holds q s" and "\<not> holds q (ss ! i)"
  shows "slot_lookup (ss[i := s]) q = slot_lookup ss q"
proof (rule slot_lookup_eqI [OF assms(3,1)])
  fix r
  have "holds q (ss[i := s] ! j) \<and> slot_refs (ss[i := s] ! j) = r \<longleftrightarrow>
      holds q (ss ! j) \<and> slot_refs (ss ! j) = r" if "j < length ss" for j
    using assms(2,4,5) that by (cases "j = i") auto
  then show "(\<exists>j < length (ss[i := s]). holds q (ss[i := s] ! j) \<and> slot_refs (ss[i := s] ! j) = r) \<longleftrightarrow>
      (\<exists>j < length ss. holds q (ss ! j) \<and> slot_refs (ss ! j) = r)"
    by auto
qed

lemma slot_lookup_update_live:
  assumes "unique_slots ss" and "i < length ss" and "unique_slots (ss[i := s])" and "is_live s"
    and "is_live (ss ! i) \<Longrightarrow> slot_phys s = slot_phys (ss ! i)"
  shows "slot_lookup (ss[i := s]) = (slot_lookup ss)(slot_phys s \<mapsto> slot_refs s)"
proof (rule ext)
  fix q
  show "slot_lookup (ss[i := s]) q = ((slot_lookup ss)(slot_phys s \<mapsto> slot_refs s)) q"
  proof (cases "q = slot_phys s")
    case True
    then have "\<exists>j < length (ss[i := s]). holds q (ss[i := s] ! j) \<and> slot_refs (ss[i := s] ! j) = slot_refs s"
      using assms(2,4) by (intro exI [of _ i]) (simp add: holds_def)
    then show ?thesis using True by (simp add: slot_lookup_Some_iff [OF assms(3)])
  next
    case False
    then have "slot_lookup (ss[i := s]) q = slot_lookup ss q"
      using assms(5) by (intro slot_lookup_update_other [OF assms(1-3)]) (auto simp: holds_def)
    with False show ?thesis by simp
  qed
qed

lemma slot_lookup_update_dead:
  assumes "unique_slots ss" and "i < length ss" and "unique_slots (ss[i := s])"
    and "\<not> is_live s" and "is_live (ss ! i)"
  shows "slot_lookup (ss[i := s]) = (slot_lookup ss)(slot_phys (ss ! i) := None)"
proof (rule ext)
  fix q
  show "slot_lookup (ss[i := s]) q = ((slot_lookup ss)(slot_phys (ss ! i) := None)) q"
  proof (cases "q = slot_phys (ss ! i)")
    case True
    have "\<not> holds q (ss[i := s] ! j)" if "j < length ss" for j
      using assms(2,4,5) True that unique_slotsD [OF assms(1,2) that, of q]
      by (cases "j = i") (auto simp: holds_def)
    then show ?thesis using True by (simp add: slot_lookup_None_iff)
  next
    case False
    then have "slot_lookup (ss[i := s]) q = slot_lookup ss q"
      using assms(4) by (intro slot_lookup_update_other [OF assms(1-3)]) (auto simp: holds_def)
    with False show ?thesis by simp
  qed
qed

lemma unique_slots_update:
  assumes "unique_slots ss" and "i < length ss"
    and "is_live s \<Longrightarrow> (\<forall>j < length ss. j \<noteq> i \<longrightarrow> \<not> holds (slot_phys s) (ss ! j))"
  shows "unique_slots (ss[i := s])"
  using assms by (auto simp: unique_slots_def holds_def nth_list_update)

lemma reachable_slots_update:
  assumes "reachable_slots ss" and "i < length ss" and "slot_refs s \<noteq> EMPTY"
    and "is_live s \<Longrightarrow> \<exists>d < length ss. i = (home_index (slot_phys s) ss + d) mod length ss \<and>
         (\<forall>j < d. slot_refs (ss ! ((home_index (slot_phys s) ss + j) mod length ss)) \<noteq> EMPTY)"
  shows "reachable_slots (ss[i := s])"
  unfolding reachable_slots_def
proof (intro allI impI)
  fix m assume m: "m < length (ss[i := s])" and live: "is_live (ss[i := s] ! m)"
  define q where "q = slot_phys (ss[i := s] ! m)"
  have home: "home_index q (ss[i := s]) = home_index q ss"
    by (rule home_index_cong) simp
  have "\<exists>d < length ss. m = (home_index q ss + d) mod length ss \<and>
      (\<forall>j < d. slot_refs (ss ! ((home_index q ss + j) mod length ss)) \<noteq> EMPTY)"
  proof (cases "m = i")
    case True
    with assms(2,4) live show ?thesis by (simp add: q_def)
  next
    case False
    with assms(1) m live show ?thesis by (auto simp: reachable_slots_def q_def)
  qed
  then obtain d where d: "d < length ss" "m = (home_index q ss + d) mod length ss"
    "\<forall>j < d. slot_refs (ss ! ((home_index q ss + j) mod length ss)) \<noteq> EMPTY" by blast
  then have "\<forall>j < d. slot_refs (ss[i := s] ! ((home_index q ss + j) mod length ss)) \<noteq> EMPTY"
    using assms(2,3) by (auto simp: nth_list_update)
  with d show "\<exists>d < length (ss[i := s]). m = (home_index (slot_phys (ss[i := s] ! m)) (ss[i := s]) + d)
      mod length (ss[i := s]) \<and>
      (\<forall>j < d. slot_refs (ss[i := s] ! ((home_index (slot_phys (ss[i := s] ! m)) (ss[i := s]) + j)
        mod length (ss[i := s]))) \<noteq> EMPTY)"
    unfolding q_def [symmetric] home by auto
qed

subsection \<open>Probing\<close>

text \<open>
  From the home index the probe visits \<open>probe_at ss phys 0, probe_at ss phys 1, \<dots>\<close> and
  stops at an empty slot or at the frame's own slot. With one empty slot in the table it
  stops within one round, and by reachability it stops at the frame's slot if there is one.
\<close>

definition probe_at :: "slot list \<Rightarrow> u64 \<Rightarrow> nat \<Rightarrow> nat" where
  "probe_at ss phys j = (home_index phys ss + j) mod length ss"

definition stops :: "u64 \<Rightarrow> slot \<Rightarrow> bool" where
  "stops phys s \<longleftrightarrow> slot_refs s = EMPTY \<or> holds phys s"

definition slots_ok :: "slot list \<Rightarrow> bool" where
  "slots_ok ss \<longleftrightarrow> (\<exists>k. length ss = 2 ^ k) \<and> unique_slots ss \<and> reachable_slots ss \<and>
     count_live ss + count_deleted ss < length ss"

lemma probe_at_0: "slots_ok ss \<Longrightarrow> probe_at ss phys 0 = home_index phys ss"
  using home_index_less by (auto simp: probe_at_def slots_ok_def)

lemma probe_at_less: "slots_ok ss \<Longrightarrow> probe_at ss phys j < length ss"
  by (auto simp: probe_at_def slots_ok_def)

lemma probe_at_Suc: "slots_ok ss \<Longrightarrow> next_index (probe_at ss phys j) ss = probe_at ss phys (Suc j)"
  by (auto simp: slots_ok_def probe_at_def next_index_mod mod_Suc_eq)

lemma probe_at_onto:
  assumes "slots_ok ss" and "i < length ss"
  shows "\<exists>j < length ss. probe_at ss phys j = i"
proof -
  define h where "h = home_index phys ss"
  have h: "h < length ss"
    using assms(1) home_index_less by (auto simp: slots_ok_def h_def)
  have "(h + (i + length ss - h) mod length ss) mod length ss = (h + (i + length ss - h)) mod length ss"
    by (rule mod_add_right_eq)
  also have "\<dots> = i"
    using h assms(2) by simp
  finally show ?thesis
    using assms(2) by (intro exI [of _ "(i + length ss - h) mod length ss"])
      (auto simp: probe_at_def h_def intro!: mod_less_divisor)
qed

lemma probe_stops:
  assumes ok: "slots_ok ss"
  obtains j where "j < length ss" and "\<forall>m < j. \<not> stops phys (ss ! probe_at ss phys m)"
    and "slot_lookup ss phys = None \<Longrightarrow> slot_refs (ss ! probe_at ss phys j) = EMPTY"
    and "slot_lookup ss phys \<noteq> None \<Longrightarrow> holds phys (ss ! probe_at ss phys j)"
proof -
  from ok obtain e where e: "e < length ss" "slot_refs (ss ! e) = EMPTY"
    by (auto simp: slots_ok_def elim: empty_slot_exists)
  then obtain je where je: "je < length ss" "probe_at ss phys je = e"
    using probe_at_onto [OF ok] by blast
  define j where "j = (LEAST j. stops phys (ss ! probe_at ss phys j))"
  have stop: "stops phys (ss ! probe_at ss phys j)"
    unfolding j_def by (rule LeastI [of _ je]) (simp add: e je stops_def)
  have "j \<le> je"
    unfolding j_def by (rule Least_le) (simp add: e je stops_def)
  with je have jless: "j < length ss" by simp
  have before: "\<forall>m < j. \<not> stops phys (ss ! probe_at ss phys m)"
    unfolding j_def by (auto dest: not_less_Least)
  show thesis
  proof (rule that [OF jless before])
    assume "slot_lookup ss phys = None"
    then show "slot_refs (ss ! probe_at ss phys j) = EMPTY"
      using stop probe_at_less [OF ok] by (auto simp: slot_lookup_None_iff stops_def)
  next
    assume "slot_lookup ss phys \<noteq> None"
    then obtain i where i: "i < length ss" "holds phys (ss ! i)"
      by (auto simp: slot_lookup_None_iff)
    then obtain d where d: "d < length ss" "i = probe_at ss phys d"
      "\<forall>m < d. slot_refs (ss ! probe_at ss phys m) \<noteq> EMPTY"
      using ok by (auto simp: slots_ok_def reachable_slots_def holds_def probe_at_def)
    have "j \<le> d"
      unfolding j_def by (rule Least_le) (use i d in \<open>simp add: stops_def\<close>)
    then have "slot_refs (ss ! probe_at ss phys j) \<noteq> EMPTY"
      using d i by (cases "j = d") (auto simp: holds_def dest: live_not_empty)
    then show "holds phys (ss ! probe_at ss phys j)"
      using stop by (simp add: stops_def)
  qed
qed

lemma run_to: "(\<And>m. m < j \<Longrightarrow> f m = f (Suc m)) \<Longrightarrow> f 0 = f j"
  for f :: "nat \<Rightarrow> 'a"
  by (induction j) auto

text \<open>A loop that moves on at every slot where the probe does not stop runs to the stop.\<close>

lemma probe_run:
  fixes f :: "nat \<Rightarrow> 'a"
  assumes ok: "slots_ok ss"
    and step: "\<And>i. \<not> stops phys (ss ! i) \<Longrightarrow> f i = f (next_index i ss)"
  obtains i where "i < length ss" and "f (home_index phys ss) = f i"
    and "slot_lookup ss phys = None \<longrightarrow> slot_refs (ss ! i) = EMPTY"
    and "\<forall>r. slot_lookup ss phys = Some r \<longrightarrow> holds phys (ss ! i) \<and> slot_refs (ss ! i) = r"
proof -
  obtain j where before: "\<forall>m < j. \<not> stops phys (ss ! probe_at ss phys m)"
    and none: "slot_lookup ss phys = None \<Longrightarrow> slot_refs (ss ! probe_at ss phys j) = EMPTY"
    and some: "slot_lookup ss phys \<noteq> None \<Longrightarrow> holds phys (ss ! probe_at ss phys j)"
    using probe_stops [OF ok] by metis
  have "f (probe_at ss phys 0) = f (probe_at ss phys j)"
    by (rule run_to [where f = "\<lambda>m. f (probe_at ss phys m)"])
      (use before step in \<open>simp add: probe_at_Suc [OF ok]\<close>)
  then have run: "f (home_index phys ss) = f (probe_at ss phys j)"
    by (simp add: probe_at_0 [OF ok])
  have refs: "slot_refs (ss ! probe_at ss phys j) = r" if "slot_lookup ss phys = Some r" for r
  proof -
    from ok have uni: "unique_slots ss" by (simp add: slots_ok_def)
    with that obtain i where "i < length ss" "holds phys (ss ! i)" "slot_refs (ss ! i) = r"
      by (auto simp: slot_lookup_Some_iff)
    moreover from some that have "holds phys (ss ! probe_at ss phys j)" by simp
    ultimately show ?thesis
      using unique_slotsD [OF uni _ probe_at_less [OF ok]] by metis
  qed
  show thesis
    by (rule that [OF probe_at_less [OF ok] run]) (use none some refs in auto)
qed

lemma not_stops: "\<not> stops phys s \<Longrightarrow>
  slot_refs s \<noteq> EMPTY \<and> (slot_refs s = DELETED \<or> slot_phys s \<noteq> phys)"
  by (auto simp: stops_def holds_def live_iff)

subsection \<open>Each operation against the abstract counts\<close>

lemma owners_loop_correct:
  assumes ok: "slots_ok (slots t)"
  shows "owners_loop t phys (home_index phys (slots t)) = Some (slot_lookup (slots t) phys \<noteq> None)"
proof -
  have "owners_loop t phys i = owners_loop t phys (next_index i (slots t))"
    if "\<not> stops phys (slots t ! i)" for i
    using not_stops [OF that] by (subst owners_loop.simps) (auto simp: Let_def)
  then obtain i where "i < length (slots t)"
    and run: "owners_loop t phys (home_index phys (slots t)) = owners_loop t phys i"
    and none: "slot_lookup (slots t) phys = None \<longrightarrow> slot_refs (slots t ! i) = EMPTY"
    and some: "\<forall>r. slot_lookup (slots t) phys = Some r \<longrightarrow>
      holds phys (slots t ! i) \<and> slot_refs (slots t ! i) = r"
    by (rule probe_run [OF ok, where f = "owners_loop t phys"])
  show ?thesis
  proof (cases "slot_lookup (slots t) phys")
    case None
    then show ?thesis using none by (simp add: run owners_loop.simps [of t phys i])
  next
    case (Some r)
    then show ?thesis
      using some by (subst run, subst owners_loop.simps) (auto simp: Let_def holds_def live_iff)
  qed
qed

text \<open>The result of \<open>release\<close> and of \<open>retain\<close> on the abstract counts.\<close>

definition spec_release :: "(u64 \<Rightarrow> u32 option) \<Rightarrow> u64 \<Rightarrow> bool \<times> (u64 \<Rightarrow> u32 option)" where
  "spec_release m phys =
     (case m phys of
        None \<Rightarrow> (True, m)
      | Some r \<Rightarrow> (False, if r = 2 then m(phys := None) else m(phys \<mapsto> r - 1)))"

definition spec_retain :: "(u64 \<Rightarrow> u32 option) \<Rightarrow> u64 \<Rightarrow> (kernel_error + unit) \<times> (u64 \<Rightarrow> u32 option)" where
  "spec_retain m phys =
     (case m phys of
        None \<Rightarrow> (Inr (), m(phys \<mapsto> 2))
      | Some r \<Rightarrow> (case checked_add r 1 of
                    None \<Rightarrow> (Inl (Kernel_Memory Mem_OutOfMemory), m)
                  | Some r' \<Rightarrow> (Inr (), m(phys \<mapsto> r'))))"

lemma invar_nonempty:
  assumes "frame_refs_invar t" and "slots t \<noteq> []"
  shows "slots_ok (slots t)" and "4 \<le> length (slots t)"
    and "live t = count_live (slots t)" and "deleted t = count_deleted (slots t)"
    and "live t + deleted t \<le> length (slots t) * 3 div 4"
  using assms by (auto simp: frame_refs_invar_def slots_ok_def)

lemma invarI:
  assumes "slots_ok (slots t)" and "4 \<le> length (slots t)"
    and "live t = count_live (slots t)" and "deleted t = count_deleted (slots t)"
    and "live t + deleted t \<le> length (slots t) * 3 div 4"
  shows "frame_refs_invar t"
  using assms by (auto simp: frame_refs_invar_def slots_ok_def)

lemma count_live_update:
  "i < length ss \<Longrightarrow> count_live (ss[i := s]) + of_bool (is_live (ss ! i)) = count_live ss + of_bool (is_live s)"
  unfolding count_live_def by (rule length_filter_update)

lemma count_deleted_update:
  "i < length ss \<Longrightarrow> count_deleted (ss[i := s]) + of_bool (slot_refs (ss ! i) = DELETED)
     = count_deleted ss + of_bool (slot_refs s = DELETED)"
  unfolding count_deleted_def
  using length_filter_update [of i ss "\<lambda>s. slot_refs s = DELETED" s] by simp

lemma slots_ok_update_same:
  assumes ok: "slots_ok ss" and i: "i < length ss" and h: "holds q (ss ! i)"
    and s: "slot_phys s = q" "slot_refs s \<noteq> EMPTY"
  shows "slots_ok (ss[i := s])"
proof -
  from ok have uni: "unique_slots ss" and reach: "reachable_slots ss"
    by (auto simp: slots_ok_def)
  have "unique_slots (ss[i := s])"
  proof (rule unique_slots_update [OF uni i])
    show "\<forall>j < length ss. j \<noteq> i \<longrightarrow> \<not> holds (slot_phys s) (ss ! j)"
      using unique_slotsD [OF uni i] h s by blast
  qed
  moreover have "reachable_slots (ss[i := s])"
  proof (rule reachable_slots_update [OF reach i s(2)])
    have "slot_phys (ss ! i) = slot_phys s" "is_live (ss ! i)" using h s(1) by (auto simp: holds_def)
    then show "\<exists>d < length ss. i = (home_index (slot_phys s) ss + d) mod length ss \<and>
        (\<forall>j < d. slot_refs (ss ! ((home_index (slot_phys s) ss + j) mod length ss)) \<noteq> EMPTY)"
      using reach i unfolding reachable_slots_def by metis
  qed
  moreover have "count_live (ss[i := s]) + count_deleted (ss[i := s]) < length ss"
    using ok count_live_update [OF i, of s] count_deleted_update [OF i, of s] h s(2)
    by (cases s rule: refs_cases) (auto simp: slots_ok_def holds_def live_iff)
  ultimately show ?thesis using ok by (simp add: slots_ok_def)
qed

lemma release_correct:
  assumes inv: "frame_refs_invar t"
  shows "\<exists>b t'. release t phys = Some (b, t') \<and> frame_refs_invar t' \<and>
    (b, refs_of t') = spec_release (refs_of t) phys"
proof (cases "slots t = []")
  case True
  then have "release t phys = Some (True, t)" and "refs_of t phys = None"
    by (simp_all add: release_def refs_of_def slot_lookup_def)
  then show ?thesis using inv by (auto simp: spec_release_def)
next
  case False
  note ok = invar_nonempty [OF inv False]
  have "release_loop t phys i = release_loop t phys (next_index i (slots t))"
    if "\<not> stops phys (slots t ! i)" for i
    using not_stops [OF that] by (subst release_loop.simps) (auto simp: Let_def)
  then obtain i where i: "i < length (slots t)"
    and run: "release_loop t phys (home_index phys (slots t)) = release_loop t phys i"
    and none: "slot_lookup (slots t) phys = None \<longrightarrow> slot_refs (slots t ! i) = EMPTY"
    and some: "\<forall>r. slot_lookup (slots t) phys = Some r \<longrightarrow>
      holds phys (slots t ! i) \<and> slot_refs (slots t ! i) = r"
    by (rule probe_run [OF ok(1), where f = "release_loop t phys"])
  define s where "s = slots t ! i"
  show ?thesis
  proof (cases "slot_lookup (slots t) phys")
    case None
    then have "release t phys = Some (True, t)"
      using none False by (simp add: release_def run release_loop.simps [of t phys i])
    then show ?thesis using inv None by (auto simp: spec_release_def refs_of_def)
  next
    case (Some r)
    with some have h: "holds phys s" "slot_refs s = r" by (auto simp: s_def)
    then have live: "is_live s" "slot_phys s = phys" by (auto simp: holds_def)
    define s' where "s' = s\<lparr>slot_refs := (if r = 2 then DELETED else r - 1)\<rparr>"
    have r2: "r \<noteq> 2 \<Longrightarrow> 2 \<le> r - 1"
      using live h by (auto simp: is_live_def word_le_nat_alt unat_sub word_unat_eq_iff)
    have nz: "slot_phys s' = phys" "slot_refs s' \<noteq> EMPTY"
      using live r2 by (auto simp: s'_def EMPTY_def DELETED_def)
    have ok': "slots_ok ((slots t)[i := s'])"
      using slots_ok_update_same [OF ok(1) i _ nz] h by (simp add: s_def)
    have uni: "unique_slots (slots t)" "unique_slots ((slots t)[i := s'])"
      using ok(1) ok' by (auto simp: slots_ok_def)
    define t' where "t' = (if r = 2 then t\<lparr>slots := (slots t)[i := s'], live := live t - 1, deleted := deleted t + 1\<rparr>
      else t\<lparr>slots := (slots t)[i := s']\<rparr>)"
    have rel: "release t phys = Some (False, t')"
      using False live h
      by (simp add: release_def run release_loop.simps [of t phys i] Let_def t'_def s'_def live_iff flip: s_def)
    have dead: "\<not> is_live s'" "slot_refs s' = DELETED" if "r = 2"
      using that by (auto simp: s'_def live_iff)
    have alive: "is_live s'" "slot_refs s' = r - 1" if "r \<noteq> 2"
      using that r2 by (auto simp: s'_def is_live_def)
    have "frame_refs_invar t'"
      using ok ok' i live dead alive count_live_update [OF i, of s'] count_deleted_update [OF i, of s']
      by (intro invarI) (auto simp: t'_def s_def live_iff)
    moreover have "refs_of t' = (if r = 2 then (refs_of t)(phys := None) else (refs_of t)(phys \<mapsto> r - 1))"
      using slot_lookup_update_dead [OF uni(1) i uni(2)] slot_lookup_update_live [OF uni(1) i uni(2)]
        live dead alive nz(1)
      by (auto simp: refs_of_def t'_def s_def)
    ultimately show ?thesis
      using rel Some by (auto simp: spec_release_def refs_of_def)
  qed
qed

subsection \<open>Inserting a frame\<close>

lemma slots_ok_insert:
  assumes ok: "slots_ok ss" and new: "slot_lookup ss phys = None"
    and j: "j < length ss" "\<forall>m < j. slot_refs (ss ! probe_at ss phys m) \<noteq> EMPTY"
    and i: "i = probe_at ss phys j" "\<not> is_live (ss ! i)"
    and s: "is_live s" "slot_phys s = phys"
    and room: "count_live ss + count_deleted ss + 1 < length ss"
  shows "slots_ok (ss[i := s])"
    and "slot_lookup (ss[i := s]) = (slot_lookup ss)(phys \<mapsto> slot_refs s)"
    and "count_live (ss[i := s]) = count_live ss + 1"
    and "count_deleted (ss[i := s]) = count_deleted ss - of_bool (slot_refs (ss ! i) = DELETED)"
proof -
  have less: "i < length ss" using probe_at_less [OF ok] i(1) by simp
  have uni: "unique_slots ss" and reach: "reachable_slots ss" using ok by (auto simp: slots_ok_def)
  have uni': "unique_slots (ss[i := s])"
    using new s(2) by (intro unique_slots_update [OF uni less]) (simp add: slot_lookup_None_iff)
  have reach': "reachable_slots (ss[i := s])"
    using s i(1) j by (intro reachable_slots_update [OF reach less live_not_empty [OF s(1)]])
      (auto simp: probe_at_def)
  show live': "count_live (ss[i := s]) = count_live ss + 1"
    using count_live_update [OF less, of s] i(2) s(1) by simp
  show del': "count_deleted (ss[i := s]) = count_deleted ss - of_bool (slot_refs (ss ! i) = DELETED)"
    using count_deleted_update [OF less, of s] s(1) by (auto dest: live_not_deleted)
  show "slots_ok (ss[i := s])"
    using ok room uni' reach' live' del' by (auto simp: slots_ok_def)
  show "slot_lookup (ss[i := s]) = (slot_lookup ss)(phys \<mapsto> slot_refs s)"
    using slot_lookup_update_live [OF uni less uni' s(1)] i(2) s(2) by simp
qed

lemma rehash_place_correct:
  assumes ok: "slots_ok ss" and new: "slot_lookup ss phys = None"
  obtains j where "j < length ss" and "rehash_place ss (home_index phys ss) = Some (probe_at ss phys j)"
    and "slot_refs (ss ! probe_at ss phys j) = EMPTY"
    and "\<forall>m < j. slot_refs (ss ! probe_at ss phys m) \<noteq> EMPTY"
proof -
  obtain j where j: "j < length ss" "\<forall>m < j. \<not> stops phys (ss ! probe_at ss phys m)"
    and stop: "slot_refs (ss ! probe_at ss phys j) = EMPTY"
    using probe_stops [OF ok] new by metis
  have "rehash_place ss (probe_at ss phys 0) = rehash_place ss (probe_at ss phys j)"
  proof (rule run_to [where f = "\<lambda>m. rehash_place ss (probe_at ss phys m)"])
    fix m assume "m < j"
    with j(2) have "slot_refs (ss ! probe_at ss phys m) \<noteq> EMPTY" by (simp add: stops_def)
    then show "rehash_place ss (probe_at ss phys m) = rehash_place ss (probe_at ss phys (Suc m))"
      by (subst rehash_place.simps) (simp add: probe_at_Suc [OF ok])
  qed
  also have "\<dots> = Some (probe_at ss phys j)"
    by (subst rehash_place.simps) (simp add: stop)
  finally have "rehash_place ss (home_index phys ss) = Some (probe_at ss phys j)"
    by (simp add: probe_at_0 [OF ok])
  then show thesis
    using that [OF j(1)] stop j(2) by (simp add: stops_def)
qed

lemma unique_slots_Cons:
  assumes "unique_slots (s # ss)"
  shows "unique_slots ss" and "is_live s \<Longrightarrow> slot_lookup ss (slot_phys s) = None"
proof -
  have uni: "i = j" if "i < Suc (length ss)" "j < Suc (length ss)"
    "is_live ((s # ss) ! i)" "is_live ((s # ss) ! j)" "slot_phys ((s # ss) ! i) = slot_phys ((s # ss) ! j)" for i j
    using assms that unfolding unique_slots_def by simp
  show "unique_slots ss"
    unfolding unique_slots_def using uni [of "Suc i" "Suc j" for i j] by simp
  show "slot_lookup ss (slot_phys s) = None" if "is_live s"
    using uni [of "Suc j" 0 for j] that by (auto simp: slot_lookup_None_iff holds_def)
qed

lemma slot_lookup_Cons:
  "slot_lookup (s # ss) q = (if holds q s then Some (slot_refs s) else slot_lookup ss q)"
  by (simp add: slot_lookup_def)

lemma rehash_loop_correct:
  assumes "slots_ok ss" and "unique_slots olds" and "count_deleted ss = 0"
    and "\<forall>q. slot_lookup olds q \<noteq> None \<longrightarrow> slot_lookup ss q = None"
    and "count_live ss + count_live olds < length ss"
  shows "\<exists>ss'. rehash_loop olds ss = Some ss' \<and> slots_ok ss' \<and> length ss' = length ss \<and>
    count_deleted ss' = 0 \<and> count_live ss' = count_live ss + count_live olds \<and>
    slot_lookup ss' = slot_lookup ss ++ slot_lookup olds"
  using assms
proof (induction olds arbitrary: ss)
  case Nil
  then show ?case by (simp add: count_live_def slot_lookup_def map_add_def)
next
  case (Cons old olds)
  note uni = unique_slots_Cons [OF Cons.prems(2)]
  show ?case
  proof (cases "is_live old")
    case False
    then have "slot_refs old < 2" by (simp add: is_live_def)
    moreover have "count_live (old # olds) = count_live olds" using False by (simp add: count_live_def)
    moreover have "slot_lookup (old # olds) = slot_lookup olds"
      using False by (simp add: fun_eq_iff slot_lookup_Cons holds_def)
    ultimately show ?thesis using Cons.IH [OF Cons.prems(1) uni(1) Cons.prems(3)] Cons.prems(4,5) by simp
  next
    case True
    define p where "p = slot_phys old"
    have lk: "slot_lookup (old # olds) = (slot_lookup olds)(p \<mapsto> slot_refs old)"
      using True by (auto simp: fun_eq_iff slot_lookup_Cons holds_def p_def)
    have cl: "count_live (old # olds) = Suc (count_live olds)" using True by (simp add: count_live_def)
    have new: "slot_lookup ss p = None" using Cons.prems(4) lk by simp
    obtain j where j: "j < length ss" "rehash_place ss (home_index p ss) = Some (probe_at ss p j)"
      "slot_refs (ss ! probe_at ss p j) = EMPTY" "\<forall>m < j. slot_refs (ss ! probe_at ss p m) \<noteq> EMPTY"
      by (rule rehash_place_correct [OF Cons.prems(1) new])
    have vacant: "\<not> is_live (ss ! probe_at ss p j)" using j(3) by (simp add: live_iff)
    have room: "count_live ss + count_deleted ss + 1 < length ss"
      using Cons.prems(3,5) cl by simp
    define ss' where "ss' = ss[probe_at ss p j := old]"
    have ins: "slots_ok ss'" "slot_lookup ss' = (slot_lookup ss)(p \<mapsto> slot_refs old)"
      "count_live ss' = count_live ss + 1" "count_deleted ss' = 0"
      using slots_ok_insert [OF Cons.prems(1) new j(1,4) refl vacant True p_def [symmetric] room]
        Cons.prems(3) by (simp_all add: ss'_def)
    have "\<not> slot_refs old < 2" using True by (simp add: is_live_def)
    then have step: "rehash_loop (old # olds) ss = rehash_loop olds ss'"
      using j(2) by (simp add: p_def ss'_def)
    have p: "slot_lookup olds p = None" using uni(2) True by (simp add: p_def)
    have disj: "\<forall>q. slot_lookup olds q \<noteq> None \<longrightarrow> slot_lookup ss' q = None"
      using Cons.prems(4) lk p by (auto simp: ins(2))
    have "count_live ss' + count_live olds < length ss'"
      using Cons.prems(5) cl ins(3) by (simp add: ss'_def)
    from Cons.IH [OF ins(1) uni(1) ins(4) disj this]
    obtain ss'' where "rehash_loop olds ss' = Some ss''" "slots_ok ss''" "length ss'' = length ss'"
      "count_deleted ss'' = 0" "count_live ss'' = count_live ss' + count_live olds"
      "slot_lookup ss'' = slot_lookup ss' ++ slot_lookup olds" by blast
    moreover have "slot_lookup ss' ++ slot_lookup olds = slot_lookup ss ++ slot_lookup (old # olds)"
      using p by (auto simp: ins(2) lk map_add_def fun_eq_iff split: option.splits)
    ultimately show ?thesis using step cl ins(3) by (simp add: ss'_def)
  qed
qed

lemma slots_ok_replicate:
  assumes "0 < n" and "n = 2 ^ k"
  shows "slots_ok (replicate n Slot_EMPTY)" and "slot_lookup (replicate n Slot_EMPTY) = Map.empty"
    and "count_live (replicate n Slot_EMPTY) = 0" and "count_deleted (replicate n Slot_EMPTY) = 0"
proof -
  have empty: "\<not> is_live Slot_EMPTY" "slot_refs Slot_EMPTY \<noteq> DELETED"
    by (simp_all add: Slot_EMPTY_def is_live_def DELETED_def)
  show cl: "count_live (replicate n Slot_EMPTY) = 0" and cd: "count_deleted (replicate n Slot_EMPTY) = 0"
    using empty by (simp_all add: count_live_def count_deleted_def filter_replicate)
  show "slot_lookup (replicate n Slot_EMPTY) = Map.empty"
    using empty by (auto simp: fun_eq_iff slot_lookup_None_iff holds_def)
  show "slots_ok (replicate n Slot_EMPTY)"
    using empty assms cl cd by (auto simp: slots_ok_def unique_slots_def reachable_slots_def)
qed

lemma rehash_correct:
  assumes inv: "frame_refs_invar t" and cap: "capacity = 2 ^ k" "4 \<le> capacity"
    and room: "live t + 1 \<le> capacity * 3 div 4"
  shows "\<exists>t'. rehash True capacity t = Some (Inr (), t') \<and> frame_refs_invar t' \<and> refs_of t' = refs_of t \<and>
    slots t' \<noteq> [] \<and> live t' + deleted t' + 1 \<le> length (slots t') * 3 div 4"
proof -
  have old: "unique_slots (slots t)" "live t = count_live (slots t)"
    using inv by (auto simp: frame_refs_invar_def unique_slots_def count_live_def)
  note new = slots_ok_replicate [OF _ cap(1)]
  have "count_live (slots t) < capacity" using room old(2) by simp
  then obtain ss where ss: "rehash_loop (slots t) (replicate capacity Slot_EMPTY) = Some ss"
      "slots_ok ss" "length ss = capacity" "count_deleted ss = 0" "count_live ss = count_live (slots t)"
      "slot_lookup ss = slot_lookup (slots t)"
    using rehash_loop_correct [OF new(1) old(1) new(4)] new(2,3) cap(2) by auto
  then show ?thesis
    using room cap(2) old(2) by (auto simp: rehash_def refs_of_def intro!: invarI)
qed

lemma ensure_insert_capacity_correct:
  assumes inv: "frame_refs_invar t"
  shows "\<exists>r t'. ensure_insert_capacity alloc t = Some (r, t') \<and> frame_refs_invar t' \<and>
    refs_of t' = refs_of t \<and>
    (case r of
       Inl e \<Rightarrow> e = Kernel_Memory Mem_OutOfMemory \<and> t' = t \<and> (\<not> alloc \<or> 2 ^ 64 \<le> length (slots t) * 2)
     | Inr _ \<Rightarrow> slots t' \<noteq> [] \<and> live t' + deleted t' + 1 \<le> length (slots t') * 3 div 4)"
proof -
  have fail: "rehash False capacity t = Some (Inl (Kernel_Memory Mem_OutOfMemory), t)" for capacity
    by (simp add: rehash_def)
  show ?thesis
  proof (cases "slots t = []")
    case True
    with inv have "live t = 0" by (auto simp: frame_refs_invar_def)
    then show ?thesis
      using rehash_correct [OF inv, of 64 6] fail [of 64] True inv
      by (cases alloc) (auto simp: ensure_insert_capacity_def INITIAL_CAPACITY_def)
  next
    case False
    note ok = invar_nonempty [OF inv False]
    obtain k where k: "length (slots t) = 2 ^ k" using ok(1) by (auto simp: slots_ok_def)
    consider (room) "live t + deleted t + 1 \<le> length (slots t) * 3 div 4"
      | (same) "\<not> live t + deleted t + 1 \<le> length (slots t) * 3 div 4" "live t + 1 \<le> length (slots t) div 2"
      | (double) "\<not> live t + deleted t + 1 \<le> length (slots t) * 3 div 4" "\<not> live t + 1 \<le> length (slots t) div 2"
      by blast
    then show ?thesis
    proof cases
      case room
      then show ?thesis using inv False by (simp add: ensure_insert_capacity_def)
    next
      case same
      then have "live t + 1 \<le> length (slots t) * 3 div 4" by simp
      from rehash_correct [OF inv k ok(2) this] same False inv fail [of "length (slots t)"]
      show ?thesis by (cases alloc) (auto simp: ensure_insert_capacity_def)
    next
      case double
      have "live t + 1 \<le> length (slots t) * 2 * 3 div 4" using ok(2,5) by simp
      moreover have "length (slots t) * 2 = 2 ^ Suc k" using k by simp
      moreover have "4 \<le> length (slots t) * 2" using ok(2) by simp
      ultimately show ?thesis
        using rehash_correct [OF inv, of "length (slots t) * 2" "Suc k"] double False inv
          fail [of "length (slots t) * 2"]
        by (cases "alloc \<and> length (slots t) * 2 < 2 ^ 64") (auto simp: ensure_insert_capacity_def)
    qed
  qed
qed

subsection \<open>Retaining\<close>

text \<open>The tombstone that \<open>retain_loop\<close> remembers after \<open>j\<close> probes.\<close>

primrec seen_deleted :: "slot list \<Rightarrow> u64 \<Rightarrow> nat \<Rightarrow> nat option" where
  "seen_deleted ss phys 0 = None"
| "seen_deleted ss phys (Suc j) =
     (case seen_deleted ss phys j of
        Some i \<Rightarrow> Some i
      | None \<Rightarrow> if slot_refs (ss ! probe_at ss phys j) = DELETED then Some (probe_at ss phys j) else None)"

lemma seen_deleted_Some:
  "seen_deleted ss phys j = Some i \<Longrightarrow>
   \<exists>m < j. i = probe_at ss phys m \<and> slot_refs (ss ! i) = DELETED"
proof (induction j)
  case (Suc j)
  show ?case
  proof (cases "seen_deleted ss phys j")
    case None
    with Suc.prems show ?thesis by (auto split: if_splits)
  next
    case (Some i')
    with Suc.prems have "i' = i" by simp
    with Suc.IH Some show ?thesis by (auto intro: less_SucI)
  qed
qed simp

lemma retain_loop_probe:
  assumes ok: "slots_ok (slots t)" and before: "\<forall>m < j. \<not> stops phys (slots t ! probe_at (slots t) phys m)"
  shows "retain_loop t phys None (home_index phys (slots t)) =
    retain_loop t phys (seen_deleted (slots t) phys j) (probe_at (slots t) phys j)"
proof -
  have "retain_loop t phys (seen_deleted (slots t) phys 0) (probe_at (slots t) phys 0) =
    retain_loop t phys (seen_deleted (slots t) phys j) (probe_at (slots t) phys j)"
  proof (rule run_to [where f = "\<lambda>m. retain_loop t phys (seen_deleted (slots t) phys m) (probe_at (slots t) phys m)"])
    fix m assume "m < j"
    then have "\<not> stops phys (slots t ! probe_at (slots t) phys m)" using before by blast
    from not_stops [OF this]
    show "retain_loop t phys (seen_deleted (slots t) phys m) (probe_at (slots t) phys m) =
        retain_loop t phys (seen_deleted (slots t) phys (Suc m)) (probe_at (slots t) phys (Suc m))"
      by (subst retain_loop.simps) (auto simp: Let_def probe_at_Suc [OF ok] split: option.splits)
  qed
  then show ?thesis by (simp add: probe_at_0 [OF ok])
qed

lemma retain_loop_correct:
  assumes inv: "frame_refs_invar t" and ne: "slots t \<noteq> []"
    and room: "live t + deleted t + 1 \<le> length (slots t) * 3 div 4"
  shows "\<exists>r t'. retain_loop t phys None (home_index phys (slots t)) = Some (r, t') \<and>
    frame_refs_invar t' \<and> (r, refs_of t') = spec_retain (refs_of t) phys"
proof -
  note ok = invar_nonempty [OF inv ne]
  let ?ss = "slots t"
  obtain j where j: "j < length ?ss" "\<forall>m < j. \<not> stops phys (?ss ! probe_at ?ss phys m)"
    and none: "slot_lookup ?ss phys = None \<Longrightarrow> slot_refs (?ss ! probe_at ?ss phys j) = EMPTY"
    and some: "slot_lookup ?ss phys \<noteq> None \<Longrightarrow> holds phys (?ss ! probe_at ?ss phys j)"
    using probe_stops [OF ok(1)] by metis
  define i where "i = probe_at ?ss phys j"
  define s where "s = ?ss ! i"
  have i: "i < length ?ss" using probe_at_less [OF ok(1)] by (simp add: i_def)
  note run = retain_loop_probe [OF ok(1) j(2), folded i_def]
  show ?thesis
  proof (cases "slot_lookup ?ss phys")
    case None
    define seen where "seen = seen_deleted ?ss phys j"
    define target where "target = (case seen of None \<Rightarrow> i | Some d \<Rightarrow> d)"
    have "\<exists>m \<le> j. target = probe_at ?ss phys m \<and> \<not> is_live (?ss ! target) \<and>
        (slot_refs (?ss ! target) = DELETED \<longleftrightarrow> seen \<noteq> None)"
    proof (cases seen)
      case None
      then show ?thesis using none \<open>slot_lookup ?ss phys = None\<close>
        by (intro exI [of _ j]) (simp add: target_def i_def live_iff)
    next
      case (Some d)
      then show ?thesis using seen_deleted_Some [of ?ss phys j d]
        by (auto simp: target_def seen_def live_iff intro: less_imp_le)
    qed
    then obtain m where m: "m \<le> j" "target = probe_at ?ss phys m" "\<not> is_live (?ss ! target)"
      "slot_refs (?ss ! target) = DELETED \<longleftrightarrow> seen \<noteq> None" by blast
    define s' where "s' = \<lparr>slot_phys = phys, slot_refs = 2 :: u32\<rparr>"
    have s': "is_live s'" "slot_phys s' = phys" by (simp_all add: s'_def is_live_def)
    have path: "\<forall>n < m. slot_refs (?ss ! probe_at ?ss phys n) \<noteq> EMPTY"
      using j(2) m(1) by (auto simp: stops_def)
    have "m < length ?ss" using m(1) j(1) by simp
    moreover have "count_live ?ss + count_deleted ?ss + 1 < length ?ss"
      using room ok(2,3,4) by simp
    ultimately have ins: "slots_ok (?ss[target := s'])"
      "slot_lookup (?ss[target := s']) = (slot_lookup ?ss)(phys \<mapsto> 2)"
      "count_live (?ss[target := s']) = count_live ?ss + 1"
      "count_deleted (?ss[target := s']) = count_deleted ?ss - of_bool (seen \<noteq> None)"
      using slots_ok_insert [OF ok(1) None _ path m(2,3) s'] m(4) by (simp_all add: s'_def)
    define t' where "t' = t\<lparr>slots := ?ss[target := s'], live := live t + 1,
      deleted := (if seen \<noteq> None then deleted t - 1 else deleted t)\<rparr>"
    have "retain_loop t phys None (home_index phys ?ss) = Some (Inr (), t')"
      using none None by (subst run, subst retain_loop.simps)
        (simp add: i_def seen_def target_def t'_def s'_def)
    moreover have "frame_refs_invar t'"
      using ins ok room by (intro invarI) (auto simp: t'_def)
    ultimately show ?thesis using None ins(2) by (auto simp: spec_retain_def refs_of_def t'_def)
  next
    case (Some r)
    with some have h: "holds phys s" by (simp add: s_def i_def)
    have uni: "unique_slots ?ss" using ok(1) by (simp add: slots_ok_def)
    have "slot_lookup ?ss phys = Some (slot_refs s)"
      using h i by (auto simp: slot_lookup_Some_iff [OF uni] s_def)
    with Some have r: "slot_refs s = r" by simp
    have live: "is_live s" "slot_phys s = phys" using h by (auto simp: holds_def)
    show ?thesis
    proof (cases "checked_add r 1")
      case None
      then have "retain_loop t phys None (home_index phys ?ss) = Some (Inl (Kernel_Memory Mem_OutOfMemory), t)"
        using live r by (subst run, subst retain_loop.simps) (simp add: live_iff flip: s_def)
      then show ?thesis using inv None Some by (auto simp: spec_retain_def refs_of_def)
    next
      case r': (Some r')
      define s' where "s' = s\<lparr>slot_refs := r'\<rparr>"
      have "2 \<le> r'" using r' live r by (auto simp: checked_add_Some_iff is_live_def word_le_nat_alt)
      then have s': "is_live s'" "slot_phys s' = phys" using live by (simp_all add: s'_def is_live_def)
      have ok': "slots_ok (?ss[i := s'])"
        using slots_ok_update_same [OF ok(1) i _ s'(2) live_not_empty [OF s'(1)]] h by (simp add: s_def)
      have lk: "slot_lookup (?ss[i := s']) = (slot_lookup ?ss)(phys \<mapsto> r')"
        using slot_lookup_update_live [OF uni i _ s'(1)] ok' live s'
        by (simp add: slots_ok_def s'_def s_def)
      have "retain_loop t phys None (home_index phys ?ss) = Some (Inr (), t\<lparr>slots := ?ss[i := s']\<rparr>)"
        using live r r' by (subst run, subst retain_loop.simps) (simp add: live_iff s'_def flip: s_def)
      moreover have "frame_refs_invar (t\<lparr>slots := ?ss[i := s']\<rparr>)"
        using ok ok' i live s' count_live_update [OF i, of s'] count_deleted_update [OF i, of s']
        by (intro invarI) (auto simp: s_def live_iff)
      ultimately show ?thesis using Some r' lk by (auto simp: spec_retain_def refs_of_def)
    qed
  qed
qed

lemma retain_correct:
  assumes inv: "frame_refs_invar t"
  shows "\<exists>r t'. retain alloc t phys = Some (r, t') \<and> frame_refs_invar t' \<and>
    ((r, refs_of t') = spec_retain (refs_of t) phys \<or>
     r = Inl (Kernel_Memory Mem_OutOfMemory) \<and> t' = t \<and> (\<not> alloc \<or> 2 ^ 64 \<le> length (slots t) * 2))"
proof -
  obtain r t' where e: "ensure_insert_capacity alloc t = Some (r, t')" "frame_refs_invar t'"
    "refs_of t' = refs_of t"
    "case r of Inl e \<Rightarrow> e = Kernel_Memory Mem_OutOfMemory \<and> t' = t \<and> (\<not> alloc \<or> 2 ^ 64 \<le> length (slots t) * 2)
     | Inr _ \<Rightarrow> slots t' \<noteq> [] \<and> live t' + deleted t' + 1 \<le> length (slots t') * 3 div 4"
    using ensure_insert_capacity_correct [OF inv] by blast
  show ?thesis
  proof (cases r)
    case (Inl x)
    with e show ?thesis by (auto simp: retain_def)
  next
    case (Inr u)
    with e retain_loop_correct [OF e(2), of phys] show ?thesis by (auto simp: retain_def)
  qed
qed

subsection \<open>The table as an owner count\<close>

lemma has_multiple_owners_correct:
  assumes "frame_refs_invar t"
  shows "has_multiple_owners t phys = Some (refs_of t phys \<noteq> None)"
proof (cases "slots t = []")
  case True
  then show ?thesis by (simp add: has_multiple_owners_def refs_of_def slot_lookup_def)
next
  case False
  with invar_nonempty(1) [OF assms False] show ?thesis
    by (simp add: has_multiple_owners_def refs_of_def owners_loop_correct)
qed

lemma refs_of_ge_2: "refs_of t phys = Some r \<Longrightarrow> 2 \<le> unat r"
  by (auto simp: refs_of_def slot_lookup_def find_Some_iff holds_def is_live_def word_le_nat_alt)

lemma owner_count_pos: "1 \<le> owner_count t phys"
  using refs_of_ge_2 [of t phys] by (fastforce simp: owner_count_def split: option.splits)

lemma multiple_owners_iff: "refs_of t phys \<noteq> None \<longleftrightarrow> 2 \<le> owner_count t phys"
  using refs_of_ge_2 [of t phys] by (auto simp: owner_count_def split: option.splits)

lemma frame_refs_new_invar: "frame_refs_invar frame_refs_new"
  by (simp add: frame_refs_invar_def frame_refs_new_def)

lemma owner_count_new: "owner_count frame_refs_new = (\<lambda>_. 1)"
  by (simp add: fun_eq_iff owner_count_def refs_of_def slot_lookup_def frame_refs_new_def)

lemma owner_count_spec_retain:
  assumes "(r, refs_of t') = spec_retain (refs_of t) phys"
  shows "owner_count t' = (if isl r then owner_count t else (owner_count t)(phys := owner_count t phys + 1))"
    and "isl r \<longleftrightarrow> owner_count t phys = 2 ^ 32 - 1"
proof -
  have "unat (2 :: u32) = 2" by simp
  then show "owner_count t' = (if isl r then owner_count t else (owner_count t)(phys := owner_count t phys + 1))"
    using assms
    by (auto simp: fun_eq_iff owner_count_def spec_retain_def checked_add_Some_iff split: option.splits)
  show "isl r \<longleftrightarrow> owner_count t phys = 2 ^ 32 - 1"
  proof (cases "refs_of t phys")
    case None
    then show ?thesis using assms by (simp add: owner_count_def spec_retain_def)
  next
    case (Some c)
    moreover have "unat c < 2 ^ 32" using unsigned_less [of c] by simp
    ultimately show ?thesis
      using assms by (auto simp: owner_count_def spec_retain_def checked_add_def split: option.splits if_splits)
  qed
qed

lemma owner_count_spec_release:
  assumes "(b, refs_of t') = spec_release (refs_of t) phys"
  shows "b \<longleftrightarrow> owner_count t phys = 1"
    and "owner_count t' = (if b then owner_count t else (owner_count t)(phys := owner_count t phys - 1))"
proof -
  show "b \<longleftrightarrow> owner_count t phys = 1"
    using assms refs_of_ge_2 [of t phys] by (auto simp: owner_count_def spec_release_def split: option.splits)
  have "unat (r - 1) = unat r - 1" if "refs_of t phys = Some r" for r
    using refs_of_ge_2 [OF that] by (simp add: unat_sub word_le_nat_alt)
  then show "owner_count t' = (if b then owner_count t else (owner_count t)(phys := owner_count t phys - 1))"
    using assms
    by (auto simp: fun_eq_iff owner_count_def spec_release_def split: option.splits)
qed

text \<open>\<open>retain_shared_user_frame\<close>: the answer is whether the reference was taken.\<close>

definition retain_shared_user_frame ::
  "frame_reference_table \<Rightarrow> bool \<Rightarrow> u64 \<Rightarrow> (bool \<times> frame_reference_table) option" where
  "retain_shared_user_frame t alloc phys = map_option (\<lambda>(r, t'). (\<not> isl r, t')) (retain alloc t phys)"

interpretation frames: owner_counts frame_refs_invar owner_count retain_shared_user_frame release
proof unfold_locales
  fix t phys alloc
  assume inv: "frame_refs_invar t"
  show "1 \<le> owner_count t phys" by (rule owner_count_pos)
  show "\<exists>ok t'. retain_shared_user_frame t alloc phys = Some (ok, t') \<and> frame_refs_invar t' \<and>
      owner_count t' = (if ok then (owner_count t)(phys := owner_count t phys + 1) else owner_count t)"
    using retain_correct [OF inv, of alloc phys] owner_count_spec_retain(1)
    by (fastforce simp: retain_shared_user_frame_def)
  obtain b t' where t': "release t phys = Some (b, t')" "frame_refs_invar t'"
    "(b, refs_of t') = spec_release (refs_of t) phys"
    using release_correct [OF inv, of phys] by blast
  then show "\<exists>t'. release t phys = Some (owner_count t phys = 1, t') \<and> frame_refs_invar t' \<and>
      owner_count t' = (if owner_count t phys = 1 then owner_count t
        else (owner_count t)(phys := owner_count t phys - 1))"
    using owner_count_spec_release [OF t'(3)] by simp
qed

subsection \<open>Properties\<close>

text \<open>
  C10: taking a reference on a shared frame terminates and keeps the table's invariant; on
  success the frame has one owner more and no other count changes; a failure changes no
  count and happens only when the slot array cannot be grown or the count is at its maximum.
\<close>

theorem retain_adds_one_owner:
  assumes "frame_refs_invar t"
  shows "\<exists>r t'. retain alloc t phys = Some (r, t') \<and> frame_refs_invar t' \<and>
    (case r of
       Inr _ \<Rightarrow> owner_count t' = (owner_count t)(phys := owner_count t phys + 1)
     | Inl e \<Rightarrow> e = Kernel_Memory Mem_OutOfMemory \<and> owner_count t' = owner_count t \<and>
         (\<not> alloc \<or> 2 ^ 64 \<le> length (slots t) * 2 \<or> owner_count t phys = 2 ^ 32 - 1))"
proof -
  obtain r t' where t': "retain alloc t phys = Some (r, t')" "frame_refs_invar t'"
    "(r, refs_of t') = spec_retain (refs_of t) phys \<or>
     r = Inl (Kernel_Memory Mem_OutOfMemory) \<and> t' = t \<and> (\<not> alloc \<or> 2 ^ 64 \<le> length (slots t) * 2)"
    using retain_correct [OF assms, of alloc phys] by blast
  have "r = Inl e \<Longrightarrow> (r, refs_of t') = spec_retain (refs_of t) phys \<Longrightarrow> e = Kernel_Memory Mem_OutOfMemory" for e
    by (auto simp: spec_retain_def split: option.splits)
  then show ?thesis
    using t' owner_count_spec_retain [of r t' t phys] by (auto split: sum.splits)
qed

theorem retain_adds_one_owner_witness:
  "frame_refs_invar frame_refs_new \<and>
   (\<exists>r t'. retain True frame_refs_new 0x1000 = Some (r, t') \<and> r = Inr () \<and> owner_count t' 0x1000 = 2)"
proof -
  have "owner_count frame_refs_new 0x1000 = 1" "length (slots frame_refs_new) = 0"
    by (simp_all add: owner_count_new) (simp add: frame_refs_new_def)
  moreover obtain r t' where t': "retain True frame_refs_new 0x1000 = Some (r, t')"
    "case r of Inr _ \<Rightarrow> owner_count t' = (owner_count frame_refs_new)(0x1000 := owner_count frame_refs_new 0x1000 + 1)
     | Inl e \<Rightarrow> e = Kernel_Memory Mem_OutOfMemory \<and> owner_count t' = owner_count frame_refs_new \<and>
         (\<not> True \<or> 2 ^ 64 \<le> length (slots frame_refs_new) * 2 \<or> owner_count frame_refs_new 0x1000 = 2 ^ 32 - 1)"
    using retain_adds_one_owner [OF frame_refs_new_invar, of True "0x1000"] by blast
  ultimately show ?thesis using frame_refs_new_invar by (cases r) auto
qed

text \<open>
  C11: the copy-on-write test \<open>has_multiple_owners\<close> terminates and answers whether the frame
  has at least two owners.
\<close>

theorem has_multiple_owners_iff:
  assumes "frame_refs_invar t"
  shows "has_multiple_owners t phys = Some (2 \<le> owner_count t phys)"
  using has_multiple_owners_correct [OF assms, of phys] multiple_owners_iff [of t phys] by simp

theorem has_multiple_owners_iff_witness:
  "\<exists>t. retain True frame_refs_new 0x1000 = Some (Inr (), t) \<and> frame_refs_invar t \<and>
     has_multiple_owners t 0x1000 = Some True"
proof -
  have *: "refs_of frame_refs_new 0x1000 = None"
    by (simp add: refs_of_def slot_lookup_def frame_refs_new_def)
  then obtain t where t: "retain True frame_refs_new 0x1000 = Some (Inr (), t)" "frame_refs_invar t"
    "refs_of t = (refs_of frame_refs_new)(0x1000 \<mapsto> 2)"
    using retain_correct [OF frame_refs_new_invar, of True "0x1000"]
    by (auto simp: spec_retain_def frame_refs_new_def)
  then have "owner_count t 0x1000 = 2" by (simp add: owner_count_def)
  then show ?thesis using t has_multiple_owners_iff [OF t(2), of "0x1000"] by auto
qed

text \<open>
  C9: over any sequence of \<open>retain\<close> and \<open>release\<close> calls from an empty table, whatever
  allocations fail, every call returns and a \<open>release\<close> answers "last owner, free the frame"
  exactly when every reference taken on that frame so far has been given back: no frame is
  freed while a mapping still refers to it, and none is leaked.
\<close>

theorem frame_freed_by_last_owner:
  "\<exists>os t. run_owners retain_shared_user_frame release es frame_refs_new = Some (os, t) \<and>
     frame_refs_invar t \<and> length os = length es \<and>
     (\<forall>phys. owner_count t phys + count_list os (Released phys False)
              = 1 + count_list os (Retained phys True)) \<and>
     frees_last_owner (\<lambda>_. 1) os"
  using frames.run_owners_correct [OF frame_refs_new_invar, of es] by (simp add: owner_count_new)

end
