(* ===== verification/Rust_Str.thy ===== *)
theory Rust_Str
  imports Prelude
begin

text \<open>
  The string operations of the Rust standard library that the kernel uses on capability
  names and authority specifications. A \<open>&str\<close> is its UTF-8 bytes, one \<open>char\<close> each.
\<close>

definition strip_prefix :: "string \<Rightarrow> string \<Rightarrow> string option" where
  "strip_prefix p s = (if take (length p) s = p then Some (drop (length p) s) else None)"

definition split_once :: "char \<Rightarrow> string \<Rightarrow> (string \<times> string) option" where
  "split_once c s =
     (if c \<in> set s then Some (takeWhile (\<lambda>x. x \<noteq> c) s, tl (dropWhile (\<lambda>x. x \<noteq> c) s)) else None)"

subsection \<open>White space\<close>

text \<open>The UTF-8 encodings of the code points with the Unicode property White\_Space.\<close>

definition white_space :: "string list" where
  "white_space =
     [[CHR 0x09], [CHR 0x0A], [CHR 0x0B], [CHR 0x0C], [CHR 0x0D], [CHR 0x20],
      [CHR 0xC2, CHR 0x85], [CHR 0xC2, CHR 0xA0], [CHR 0xE1, CHR 0x9A, CHR 0x80],
      [CHR 0xE2, CHR 0x80, CHR 0x80], [CHR 0xE2, CHR 0x80, CHR 0x81], [CHR 0xE2, CHR 0x80, CHR 0x82],
      [CHR 0xE2, CHR 0x80, CHR 0x83], [CHR 0xE2, CHR 0x80, CHR 0x84], [CHR 0xE2, CHR 0x80, CHR 0x85],
      [CHR 0xE2, CHR 0x80, CHR 0x86], [CHR 0xE2, CHR 0x80, CHR 0x87], [CHR 0xE2, CHR 0x80, CHR 0x88],
      [CHR 0xE2, CHR 0x80, CHR 0x89], [CHR 0xE2, CHR 0x80, CHR 0x8A], [CHR 0xE2, CHR 0x80, CHR 0xA8],
      [CHR 0xE2, CHR 0x80, CHR 0xA9], [CHR 0xE2, CHR 0x80, CHR 0xAF], [CHR 0xE2, CHR 0x81, CHR 0x9F],
      [CHR 0xE3, CHR 0x80, CHR 0x80]]"

function strip_leading :: "string list \<Rightarrow> string \<Rightarrow> string" where
  "strip_leading ws s =
     (case find (\<lambda>w. w \<noteq> [] \<and> s \<noteq> [] \<and> take (length w) s = w) ws of
        None \<Rightarrow> s
      | Some w \<Rightarrow> strip_leading ws (drop (length w) s))"
  by pat_completeness auto
termination
  by (relation "measure (\<lambda>(ws, s). length s)") (auto simp: find_Some_iff)

declare strip_leading.simps [simp del]

definition str_trim :: "string \<Rightarrow> string" where
  "str_trim s = rev (strip_leading (map rev white_space) (rev (strip_leading white_space s)))"

subsection \<open>Numbers\<close>

definition digit_value :: "nat \<Rightarrow> char \<Rightarrow> nat option" where
  "digit_value radix c =
     (let n = of_char c :: nat;
          v = (if 48 \<le> n \<and> n \<le> 57 then n - 48
               else if 97 \<le> n \<and> n \<le> 122 then n - 87
               else if 65 \<le> n \<and> n \<le> 90 then n - 55 else radix)
      in if v < radix then Some v else None)"

fun parse_digits :: "nat \<Rightarrow> u64 \<Rightarrow> string \<Rightarrow> u64 option" where
  "parse_digits radix acc [] = Some acc"
| "parse_digits radix acc (c # cs) =
     (case digit_value radix c of
        None \<Rightarrow> None
      | Some d \<Rightarrow>
          (case checked_mul acc (of_nat radix) of
             None \<Rightarrow> None
           | Some m \<Rightarrow>
               (case checked_add m (of_nat d) of
                  None \<Rightarrow> None
                | Some v \<Rightarrow> parse_digits radix v cs)))"

definition from_str_radix :: "string \<Rightarrow> nat \<Rightarrow> u64 option" where
  "from_str_radix s radix =
     (case s of
        [] \<Rightarrow> None
      | c # cs \<Rightarrow>
          if cs = [] \<and> (c = CHR ''+'' \<or> c = CHR ''-'') then None
          else if c = CHR ''+'' then parse_digits radix 0 cs
          else parse_digits radix 0 s)"

text \<open>The value the digits denote, and that parsing computes it exactly when it fits.\<close>

definition digits_denote :: "nat \<Rightarrow> nat \<Rightarrow> string \<Rightarrow> nat \<Rightarrow> bool" where
  "digits_denote radix acc s n \<longleftrightarrow>
     (\<forall>c\<in>set s. digit_value radix c \<noteq> None) \<and>
     n = foldl (\<lambda>a c. a * radix + the (digit_value radix c)) acc s"

lemma digit_value_less: "digit_value radix c = Some d \<Longrightarrow> d < radix"
  by (auto simp: digit_value_def Let_def split: if_splits)

lemma foldl_digits_ge: "1 \<le> radix \<Longrightarrow> acc \<le> foldl (\<lambda>a c. a * radix + f c) acc s" for acc radix :: nat
proof (induction s arbitrary: acc)
  case (Cons c s)
  have "acc \<le> acc * radix + f c" using Cons.prems by (simp add: trans_le_add1)
  also have "\<dots> \<le> foldl (\<lambda>a c. a * radix + f c) (acc * radix + f c) s" by (rule Cons.IH [OF Cons.prems])
  finally show ?case by simp
qed simp

lemma checked_digit_step:
  fixes acc :: u64
  assumes "radix < 2 ^ 64" and "d < radix"
  shows "(case checked_mul acc (of_nat radix) of None \<Rightarrow> None | Some m \<Rightarrow> checked_add m (of_nat d)) = Some v
    \<longleftrightarrow> unat acc * radix + d = unat v"
proof -
  have r: "unat (of_nat radix :: u64) = radix" and d: "unat (of_nat d :: u64) = d"
    using assms by (simp_all add: unat_of_nat)
  show ?thesis
  proof (cases "unat acc * radix < 2 ^ 64")
    case True
    then have "unat (acc * of_nat radix) = unat acc * radix"
      using unat_mult_lem [of acc "of_nat radix"] r by simp
    with True r d show ?thesis by (simp add: checked_mul_def checked_add_Some_iff)
  next
    case False
    have "unat v < 2 ^ 64" using unsigned_less [of v] by simp
    with False r show ?thesis by (auto simp: checked_mul_def)
  qed
qed

lemma parse_digits_Some_iff:
  assumes "1 \<le> radix" and "radix < 2 ^ 64"
  shows "parse_digits radix acc s = Some v \<longleftrightarrow> digits_denote radix (unat acc) s (unat v)"
proof (induction s arbitrary: acc)
  case Nil
  then show ?case by (auto simp: digits_denote_def word_unat_eq_iff)
next
  case (Cons c s)
  show ?case
  proof (cases "digit_value radix c")
    case None
    then show ?thesis by (simp add: digits_denote_def)
  next
    case (Some d)
    note step = checked_digit_step [OF assms(2) digit_value_less [OF Some], of acc]
    define w where "w = (case checked_mul acc (of_nat radix) of None \<Rightarrow> None | Some m \<Rightarrow> checked_add m (of_nat d))"
    have parse: "parse_digits radix acc (c # s) = (case w of None \<Rightarrow> None | Some x \<Rightarrow> parse_digits radix x s)"
      by (simp add: Some w_def split: option.splits)
    have denote: "digits_denote radix (unat acc) (c # s) (unat v) \<longleftrightarrow>
        digits_denote radix (unat acc * radix + d) s (unat v)"
      by (auto simp: digits_denote_def Some)
    show ?thesis
    proof (cases w)
      case None
      have "2 ^ 64 \<le> unat acc * radix + d"
      proof (rule ccontr)
        assume "\<not> 2 ^ 64 \<le> unat acc * radix + d"
        then have "unat (of_nat (unat acc * radix + d) :: u64) = unat acc * radix + d"
          by (simp add: unat_of_nat del: of_nat_add of_nat_mult)
        with None step [of "of_nat (unat acc * radix + d)"] show False
          by (simp add: w_def del: of_nat_add of_nat_mult)
      qed
      moreover have "unat v < 2 ^ 64" using unsigned_less [of v] by simp
      ultimately have "\<not> digits_denote radix (unat acc * radix + d) s (unat v)"
        using foldl_digits_ge [OF assms(1), of "unat acc * radix + d" "\<lambda>c. the (digit_value radix c)" s]
        by (auto simp: digits_denote_def)
      with None parse denote show ?thesis by simp
    next
      case w: (Some x)
      with step have "unat x = unat acc * radix + d" by (simp add: w_def)
      with w parse denote Cons.IH [of x] show ?thesis by simp
    qed
  qed
qed

subsection \<open>UTF-8\<close>

definition utf8_cont :: "char \<Rightarrow> bool" where
  "utf8_cont c \<longleftrightarrow> 0x80 \<le> (of_char c :: nat) \<and> (of_char c :: nat) \<le> 0xBF"

definition byte_in :: "nat \<Rightarrow> nat \<Rightarrow> char \<Rightarrow> bool" where
  "byte_in lo hi c \<longleftrightarrow> lo \<le> of_char c \<and> of_char c \<le> hi"

text \<open>\<open>String::from_utf8\<close> accepts exactly the well-formed byte sequences.\<close>

fun valid_utf8 :: "string \<Rightarrow> bool" where
  "valid_utf8 [] = True"
| "valid_utf8 (a # s) =
     (if byte_in 0 0x7F a then valid_utf8 s
      else case s of
        [] \<Rightarrow> False
      | b # s1 \<Rightarrow>
          if byte_in 0xC2 0xDF a then utf8_cont b \<and> valid_utf8 s1
          else (case s1 of
            [] \<Rightarrow> False
          | c # s2 \<Rightarrow>
              if byte_in 0xE0 0xE0 a then byte_in 0xA0 0xBF b \<and> utf8_cont c \<and> valid_utf8 s2
              else if byte_in 0xED 0xED a then byte_in 0x80 0x9F b \<and> utf8_cont c \<and> valid_utf8 s2
              else if byte_in 0xE1 0xEF a then utf8_cont b \<and> utf8_cont c \<and> valid_utf8 s2
              else (case s2 of
                [] \<Rightarrow> False
              | d # s3 \<Rightarrow>
                  (if byte_in 0xF0 0xF0 a then byte_in 0x90 0xBF b
                   else if byte_in 0xF1 0xF3 a then utf8_cont b
                   else if byte_in 0xF4 0xF4 a then byte_in 0x80 0x8F b
                   else False) \<and> utf8_cont c \<and> utf8_cont d \<and> valid_utf8 s3)))"

end
