(* ===== verification/Capability.thy ===== *)
theory Capability
  imports Status Rust_Str "HOL-Library.Char_ord"
begin

text \<open>
  Capabilities: the authorities a process holds (\<open>src/capability/mod.rs\<close>) and the canonical
  metadata table of \<open>crates/abi/src/capability.rs\<close>. Two kinds of authority exist. A plain
  \<open>Capability\<close> is a built-in constant or an interned dynamic name; a \<open>KernelAuthority\<close> binds
  a kernel capability to an object such as an MMIO region. Both carry an implication order,
  stated once in the locale \<open>authority_order\<close> and interpreted for each.

  A fallible reservation (\<open>try_reserve\<close>) is a boolean argument: whether memory was available.
\<close>

section \<open>Canonical metadata\<close>

datatype capability_classification = UserGrantable | Privileged | SystemOnly

record capability_metadata =
  metadata_name :: string
  classification :: capability_classification
  delegable :: bool
  user_grantable :: bool

definition user_metadata :: "string \<Rightarrow> capability_metadata" where
  "user_metadata n =
     \<lparr>metadata_name = n, classification = UserGrantable, delegable = True, user_grantable = True\<rparr>"

definition privileged_metadata :: "string \<Rightarrow> capability_metadata" where
  "privileged_metadata n =
     \<lparr>metadata_name = n, classification = Privileged, delegable = False, user_grantable = False\<rparr>"

definition system_metadata :: "string \<Rightarrow> capability_metadata" where
  "system_metadata n =
     \<lparr>metadata_name = n, classification = SystemOnly, delegable = False, user_grantable = False\<rparr>"

definition CAPABILITIES :: "capability_metadata list" where
  "CAPABILITIES =
     [user_metadata ''fs.read.user.documents'',
      user_metadata ''fs.write.user.documents'',
      user_metadata ''fs.read.user.downloads'',
      user_metadata ''fs.write.user.downloads'',
      user_metadata ''fs.read.user.desktop'',
      user_metadata ''fs.write.user.desktop'',
      user_metadata ''fs.read.user.pictures'',
      user_metadata ''fs.write.user.pictures'',
      user_metadata ''fs.read.user.music'',
      user_metadata ''fs.write.user.music'',
      user_metadata ''fs.read.user.videos'',
      user_metadata ''fs.write.user.videos'',
      user_metadata ''fs.read.user'',
      user_metadata ''fs.write.user'',
      user_metadata ''fs.read.tmp'',
      user_metadata ''fs.write.tmp'',
      user_metadata ''fs.read.removable'',
      user_metadata ''fs.write.removable'',
      system_metadata ''fs.read.applications'',
      privileged_metadata ''fs.read.all'',
      privileged_metadata ''fs.write.all'',
      user_metadata ''net.connect'',
      user_metadata ''net.listen'',
      privileged_metadata ''net.raw'',
      user_metadata ''net.tls.connect'',
      user_metadata ''net.http.request'',
      system_metadata ''ipc.client'',
      system_metadata ''ipc.server'',
      system_metadata ''process.spawn'',
      system_metadata ''process.inspect'',
      system_metadata ''process.kill'',
      user_metadata ''window.create'',
      user_metadata ''window.overlay'',
      system_metadata ''window.modal.control'',
      system_metadata ''window.secure-overlay'',
      privileged_metadata ''window.decorate'',
      privileged_metadata ''window.capture'',
      user_metadata ''display.read'',
      privileged_metadata ''display.capture'',
      user_metadata ''input.keyboard'',
      privileged_metadata ''input.keyboard.global'',
      user_metadata ''input.pointer'',
      privileged_metadata ''input.pointer.global'',
      privileged_metadata ''input.gamepad'',
      user_metadata ''audio.playback'',
      user_metadata ''audio.record'',
      user_metadata ''clipboard.read'',
      user_metadata ''clipboard.write'',
      system_metadata ''control-center.read'',
      user_metadata ''control-center.register'',
      system_metadata ''file-association.read'',
      user_metadata ''file-association.write'',
      user_metadata ''notification.send'',
      user_metadata ''keychain.access'',
      system_metadata ''keychain.manage'',
      system_metadata ''keychain.session'',
      system_metadata ''keychain.authentication'',
      privileged_metadata ''camera.access'',
      privileged_metadata ''microphone.access'',
      privileged_metadata ''location.access'',
      privileged_metadata ''bluetooth.access'',
      privileged_metadata ''usb.access'',
      privileged_metadata ''serial.access'',
      privileged_metadata ''power.shutdown'',
      privileged_metadata ''power.reboot'',
      privileged_metadata ''power.suspend'',
      user_metadata ''system.time.read'',
      system_metadata ''system.random.read'',
      privileged_metadata ''system.time.set'',
      user_metadata ''system.info.read'',
      user_metadata ''system.logs.read'',
      privileged_metadata ''package.inspect'',
      privileged_metadata ''package.install'',
      privileged_metadata ''package.remove'',
      privileged_metadata ''package.update'',
      privileged_metadata ''service.register'',
      privileged_metadata ''service.control'',
      privileged_metadata ''vm.create'',
      privileged_metadata ''vm.control'',
      system_metadata ''dma.allocate'',
      system_metadata ''memory.phys.map'',
      system_metadata ''memory.phys.translate'',
      system_metadata ''kernel.module.load'',
      system_metadata ''kernel.debug'',
      system_metadata ''diagnostics.read'',
      privileged_metadata ''device.gpu'',
      privileged_metadata ''device.audio'',
      privileged_metadata ''device.input'',
      privileged_metadata ''device.storage'',
      privileged_metadata ''device.storage.scoped'',
      privileged_metadata ''device.storage.scoped.write'',
      privileged_metadata ''device.net'',
      user_metadata ''account.self.read'',
      user_metadata ''account.self.modify'',
      privileged_metadata ''account.authenticate'',
      privileged_metadata ''account.other.read'',
      privileged_metadata ''account.other.modify'',
      user_metadata ''settings.read'',
      privileged_metadata ''settings.write'',
      system_metadata ''capabilities.manage'',
      system_metadata ''unsandboxed'',
      system_metadata ''developer.debug'',
      system_metadata ''developer.profile'',
      system_metadata ''developer.tracing'',
      system_metadata ''signature.db.read'',
      system_metadata ''signature.db.write'']"

definition metadata :: "string \<Rightarrow> capability_metadata option" where
  "metadata n = find (\<lambda>m. metadata_name m = n) CAPABILITIES"

section \<open>Kernel authorities\<close>

datatype kernel_capability =
    K_ProcessKill
  | K_ProcessSpawn
  | K_IpcEndpointCreate
  | K_IpcEndpointSend
  | K_IpcEndpointRecv
  | K_VmMap
  | K_VmUnmap
  | K_MmioMap
  | K_DmaAllocate
  | K_PhysMap
  | K_PhysTranslate
  | K_IrqBind
  | K_CextLoad
  | K_CextStop
  | K_DeviceClaim
  | K_KernelDebug
  | K_DiagnosticsRead
  | K_SignatureWrite
  | K_SignatureRead

datatype kernel_object_ref =
    ObjProcess u64
  | ObjThread u64
  | ObjIpcEndpoint u64
  | ObjVmObject u64
  | MmioRegion u64 u64
  | IrqLine u32
  | CextInstance u64
  | DeviceHandle u64

record kernel_authority =
  auth_capability :: kernel_capability
  auth_object :: kernel_object_ref

definition parse_u64_component :: "string \<Rightarrow> u64 option" where
  "parse_u64_component raw =
     (let trimmed = str_trim raw
      in case (case strip_prefix ''0x'' trimmed of
                 Some hex \<Rightarrow> Some hex
               | None \<Rightarrow> strip_prefix ''0X'' trimmed) of
           Some hex \<Rightarrow> from_str_radix hex 16
         | None \<Rightarrow> from_str_radix trimmed 10)"

definition parse_kernel_authority_spec :: "string \<Rightarrow> kernel_authority option" where
  "parse_kernel_authority_spec spec =
     (case strip_prefix ''memory.phys.map@'' spec of
        None \<Rightarrow> None
      | Some phys \<Rightarrow>
          (case split_once (CHR '':'') phys of
             None \<Rightarrow> None
           | Some (base_raw, size_raw) \<Rightarrow>
               (case parse_u64_component base_raw of
                  None \<Rightarrow> None
                | Some base \<Rightarrow>
                    (case parse_u64_component size_raw of
                       None \<Rightarrow> None
                     | Some sz \<Rightarrow>
                         if sz = 0 then None
                         else Some \<lparr>auth_capability = K_PhysMap,
                                     auth_object = MmioRegion base sz\<rparr>))))"

definition kernel_authority_implies :: "kernel_authority \<Rightarrow> kernel_authority \<Rightarrow> bool" where
  "kernel_authority_implies parent child =
     (if auth_capability parent \<noteq> auth_capability child then False
      else case (auth_object parent, auth_object child) of
        (MmioRegion parent_base parent_size, MmioRegion child_base child_size) \<Rightarrow>
          (case checked_add parent_base parent_size of
             None \<Rightarrow> False
           | Some parent_end \<Rightarrow>
               (case checked_add child_base child_size of
                  None \<Rightarrow> False
                | Some child_end \<Rightarrow> parent_base \<le> child_base \<and> child_end \<le> parent_end))
      | (parent_object, child_object) \<Rightarrow> parent_object = child_object)"

fun as_str :: "kernel_capability \<Rightarrow> string" where
  "as_str K_ProcessKill = ''process.kill''"
| "as_str K_ProcessSpawn = ''process.spawn''"
| "as_str K_IpcEndpointCreate = ''ipc.endpoint.create''"
| "as_str K_IpcEndpointSend = ''ipc.endpoint.send''"
| "as_str K_IpcEndpointRecv = ''ipc.endpoint.recv''"
| "as_str K_VmMap = ''vm.map''"
| "as_str K_VmUnmap = ''vm.unmap''"
| "as_str K_MmioMap = ''mmio.map''"
| "as_str K_DmaAllocate = ''dma.allocate''"
| "as_str K_PhysMap = ''memory.phys.map''"
| "as_str K_PhysTranslate = ''memory.phys.translate''"
| "as_str K_IrqBind = ''irq.bind''"
| "as_str K_CextLoad = ''cext.load''"
| "as_str K_CextStop = ''cext.stop''"
| "as_str K_DeviceClaim = ''device.claim''"
| "as_str K_KernelDebug = ''kernel.debug''"
| "as_str K_DiagnosticsRead = ''diagnostics.read''"
| "as_str K_SignatureWrite = ''signature.db.write''"
| "as_str K_SignatureRead = ''signature.db.read''"

definition kernel_capability_from_str :: "string \<Rightarrow> kernel_capability option" where
  "kernel_capability_from_str s =
     map_of
       [(''process.kill'', K_ProcessKill),
        (''process.spawn'', K_ProcessSpawn),
        (''ipc.endpoint.create'', K_IpcEndpointCreate),
        (''ipc.endpoint.send'', K_IpcEndpointSend),
        (''ipc.endpoint.recv'', K_IpcEndpointRecv),
        (''vm.map'', K_VmMap),
        (''vm.unmap'', K_VmUnmap),
        (''mmio.map'', K_MmioMap),
        (''dma.allocate'', K_DmaAllocate),
        (''memory.phys.map'', K_PhysMap),
        (''memory.phys.translate'', K_PhysTranslate),
        (''irq.bind'', K_IrqBind),
        (''cext.load'', K_CextLoad),
        (''cext.stop'', K_CextStop),
        (''device.claim'', K_DeviceClaim),
        (''kernel.debug'', K_KernelDebug),
        (''diagnostics.read'', K_DiagnosticsRead)] s"

section \<open>Capabilities and their names\<close>

datatype capability =
    FsReadTmp
  | FsWriteTmp
  | FsReadRemovable
  | FsWriteRemovable
  | FsReadAll
  | FsWriteAll
  | IpcClient
  | IpcServer
  | ProcessSpawn
  | ProcessInspect
  | ProcessKill
  | DisplayRead
  | UsbAccess
  | SerialAccess
  | SystemTimeRead
  | SystemRandomRead
  | ServiceRegister
  | DmaAllocate
  | MemoryPhysMap
  | MemoryPhysTranslate
  | KernelDebug
  | DiagnosticsRead
  | DeviceGpu
  | DeviceInput
  | DeviceStorage
  | DeviceNet
  | CapabilitiesManage
  | Unsandboxed
  | DeveloperProfile
  | SignatureRead
  | SignatureWrite
  | Dynamic u32

fun builtin_name :: "capability \<Rightarrow> string option" where
  "builtin_name FsReadTmp = Some ''fs.read.tmp''"
| "builtin_name FsWriteTmp = Some ''fs.write.tmp''"
| "builtin_name FsReadRemovable = Some ''fs.read.removable''"
| "builtin_name FsWriteRemovable = Some ''fs.write.removable''"
| "builtin_name FsReadAll = Some ''fs.read.all''"
| "builtin_name FsWriteAll = Some ''fs.write.all''"
| "builtin_name IpcClient = Some ''ipc.client''"
| "builtin_name IpcServer = Some ''ipc.server''"
| "builtin_name ProcessSpawn = Some ''process.spawn''"
| "builtin_name ProcessInspect = Some ''process.inspect''"
| "builtin_name ProcessKill = Some ''process.kill''"
| "builtin_name DisplayRead = Some ''display.read''"
| "builtin_name UsbAccess = Some ''usb.access''"
| "builtin_name SerialAccess = Some ''serial.access''"
| "builtin_name SystemTimeRead = Some ''system.time.read''"
| "builtin_name SystemRandomRead = Some ''system.random.read''"
| "builtin_name ServiceRegister = Some ''service.register''"
| "builtin_name DmaAllocate = Some ''dma.allocate''"
| "builtin_name MemoryPhysMap = Some ''memory.phys.map''"
| "builtin_name MemoryPhysTranslate = Some ''memory.phys.translate''"
| "builtin_name KernelDebug = Some ''kernel.debug''"
| "builtin_name DiagnosticsRead = Some ''diagnostics.read''"
| "builtin_name DeviceGpu = Some ''device.gpu''"
| "builtin_name DeviceInput = Some ''device.input''"
| "builtin_name DeviceStorage = Some ''device.storage''"
| "builtin_name DeviceNet = Some ''device.net''"
| "builtin_name CapabilitiesManage = Some ''capabilities.manage''"
| "builtin_name Unsandboxed = Some ''unsandboxed''"
| "builtin_name DeveloperProfile = Some ''developer.profile''"
| "builtin_name SignatureRead = Some ''signature.db.read''"
| "builtin_name SignatureWrite = Some ''signature.db.write''"
| "builtin_name (Dynamic _) = None"

definition bootstrap_capabilities :: "capability list" where
  "bootstrap_capabilities =
     [FsReadTmp,
      FsWriteTmp,
      FsReadRemovable,
      FsWriteRemovable,
      FsReadAll,
      FsWriteAll,
      IpcClient,
      IpcServer,
      ProcessSpawn,
      ProcessInspect,
      ProcessKill,
      DisplayRead,
      UsbAccess,
      SerialAccess,
      SystemTimeRead,
      SystemRandomRead,
      ServiceRegister,
      DmaAllocate,
      MemoryPhysMap,
      MemoryPhysTranslate,
      KernelDebug,
      DiagnosticsRead,
      DeviceGpu,
      DeviceInput,
      DeviceStorage,
      DeviceNet,
      CapabilitiesManage,
      Unsandboxed,
      DeveloperProfile,
      SignatureRead,
      SignatureWrite]"

text \<open>The derived \<open>Ord\<close> compares variants by position and \<open>Dynamic\<close> by its payload.\<close>

fun capability_rank :: "capability \<Rightarrow> nat" where
  "capability_rank FsReadTmp = 0"
| "capability_rank FsWriteTmp = 1"
| "capability_rank FsReadRemovable = 2"
| "capability_rank FsWriteRemovable = 3"
| "capability_rank FsReadAll = 4"
| "capability_rank FsWriteAll = 5"
| "capability_rank IpcClient = 6"
| "capability_rank IpcServer = 7"
| "capability_rank ProcessSpawn = 8"
| "capability_rank ProcessInspect = 9"
| "capability_rank ProcessKill = 10"
| "capability_rank DisplayRead = 11"
| "capability_rank UsbAccess = 12"
| "capability_rank SerialAccess = 13"
| "capability_rank SystemTimeRead = 14"
| "capability_rank SystemRandomRead = 15"
| "capability_rank ServiceRegister = 16"
| "capability_rank DmaAllocate = 17"
| "capability_rank MemoryPhysMap = 18"
| "capability_rank MemoryPhysTranslate = 19"
| "capability_rank KernelDebug = 20"
| "capability_rank DiagnosticsRead = 21"
| "capability_rank DeviceGpu = 22"
| "capability_rank DeviceInput = 23"
| "capability_rank DeviceStorage = 24"
| "capability_rank DeviceNet = 25"
| "capability_rank CapabilitiesManage = 26"
| "capability_rank Unsandboxed = 27"
| "capability_rank DeveloperProfile = 28"
| "capability_rank SignatureRead = 29"
| "capability_rank SignatureWrite = 30"
| "capability_rank (Dynamic n) = 31 + unat n"

lemma capability_rank_inject: "capability_rank a = capability_rank b \<Longrightarrow> a = b"
  by (cases a; cases b) (simp_all add: word_unat_eq_iff)

instantiation capability :: linorder
begin

definition less_eq_capability :: "capability \<Rightarrow> capability \<Rightarrow> bool" where
  "less_eq_capability a b \<longleftrightarrow> capability_rank a \<le> capability_rank b"

definition less_capability :: "capability \<Rightarrow> capability \<Rightarrow> bool" where
  "less_capability a b \<longleftrightarrow> capability_rank a < capability_rank b"

instance
  by standard (auto simp: less_eq_capability_def less_capability_def intro: capability_rank_inject)

end

fun has_double_dot :: "string \<Rightarrow> bool" where
  "has_double_dot (a # b # s) = ((a = CHR ''.'' \<and> b = CHR ''.'') \<or> has_double_dot (b # s))"
| "has_double_dot _ = False"

definition is_ascii_lowercase :: "char \<Rightarrow> bool" where
  "is_ascii_lowercase c \<longleftrightarrow> byte_in 97 122 c"

definition is_ascii_digit :: "char \<Rightarrow> bool" where
  "is_ascii_digit c \<longleftrightarrow> byte_in 48 57 c"

definition valid_capability_name :: "string \<Rightarrow> bool" where
  "valid_capability_name n \<longleftrightarrow>
     (let endpoint_is_valid = (\<lambda>byte. is_ascii_lowercase byte \<or> is_ascii_digit byte)
      in n \<noteq> [] \<and> length n \<le> 512 \<and> endpoint_is_valid (n ! 0) \<and> endpoint_is_valid (n ! (length n - 1)) \<and>
         \<not> has_double_dot n \<and>
         list_all (\<lambda>byte. is_ascii_lowercase byte \<or> is_ascii_digit byte \<or> byte \<in> set ''._-'') n)"

definition valid_name :: "string \<Rightarrow> bool" where
  "valid_name n = valid_capability_name n"

definition builtin_capability :: "string \<Rightarrow> capability option" where
  "builtin_capability n = find (\<lambda>c. builtin_name c = Some n) bootstrap_capabilities"

text \<open>The registry of dynamic names; \<open>Dynamic i\<close> denotes the name at index \<open>i\<close>.\<close>

type_synonym dynamic_capability_registry = "string list"

definition MAX_DYNAMIC_CAPABILITIES :: nat where
  "MAX_DYNAMIC_CAPABILITIES = 4096"

definition lookup_dynamic_capability :: "dynamic_capability_registry \<Rightarrow> string \<Rightarrow> capability option" where
  "lookup_dynamic_capability names n =
     (if \<not> valid_capability_name n then None
      else map_option (\<lambda>i. Dynamic (of_nat i)) (position (\<lambda>registered. registered = n) names))"

definition intern_dynamic_capability ::
    "bool \<Rightarrow> bool \<Rightarrow> string \<Rightarrow> dynamic_capability_registry \<Rightarrow>
     (status_error + capability) \<times> dynamic_capability_registry" where
  "intern_dynamic_capability name_mem slot_mem n names =
     (case position (\<lambda>registered. registered = n) names of
        Some i \<Rightarrow> (Inr (Dynamic (of_nat i)), names)
      | None \<Rightarrow>
          if MAX_DYNAMIC_CAPABILITIES \<le> length names then (Inl LimitExceeded, names)
          else if \<not> name_mem then (Inl ResourceUnavailable, names)
          else if \<not> slot_mem then (Inl ResourceUnavailable, names)
          else (Inr (Dynamic (of_nat (length names))), names @ [n]))"

definition capability_from_str :: "dynamic_capability_registry \<Rightarrow> string \<Rightarrow> capability option" where
  "capability_from_str names s =
     (case builtin_capability s of Some c \<Rightarrow> Some c | None \<Rightarrow> lookup_dynamic_capability names s)"

definition try_intern ::
    "bool \<Rightarrow> bool \<Rightarrow> string \<Rightarrow> dynamic_capability_registry \<Rightarrow>
     (status_error + capability) \<times> dynamic_capability_registry" where
  "try_intern name_mem slot_mem s names =
     (if \<not> valid_capability_name s then (Inl InvalidArgument, names)
      else case builtin_capability s of
        Some c \<Rightarrow> (Inr c, names)
      | None \<Rightarrow> intern_dynamic_capability name_mem slot_mem s names)"

definition intern ::
    "bool \<Rightarrow> bool \<Rightarrow> string \<Rightarrow> dynamic_capability_registry \<Rightarrow>
     capability option \<times> dynamic_capability_registry" where
  "intern name_mem slot_mem s names =
     (case try_intern name_mem slot_mem s names of
        (Inl _, names') \<Rightarrow> (None, names')
      | (Inr c, names') \<Rightarrow> (Some c, names'))"

definition is_delegable :: "dynamic_capability_registry \<Rightarrow> capability \<Rightarrow> bool" where
  "is_delegable names c =
     (case builtin_name c of
        Some n \<Rightarrow> (case metadata n of None \<Rightarrow> False | Some m \<Rightarrow> delegable m)
      | None \<Rightarrow>
          (case c of
             Dynamic i \<Rightarrow>
               (if unat i < length names
                then (case metadata (names ! unat i) of None \<Rightarrow> False | Some m \<Rightarrow> delegable m)
                else False)
           | _ \<Rightarrow> False))"

definition capability_implies :: "capability \<Rightarrow> capability \<Rightarrow> bool" where
  "capability_implies parent child =
     (if parent = child then True
      else case parent of
        Unsandboxed \<Rightarrow> True
      | FsReadAll \<Rightarrow> (child = FsReadTmp \<or> child = FsReadRemovable)
      | FsWriteAll \<Rightarrow> (child = FsWriteTmp \<or> child = FsWriteRemovable)
      | _ \<Rightarrow> False)"

section \<open>Capability sets\<close>

text \<open>\<open>CapabilitySet\<close>: its vector, sorted and without repetition.\<close>

type_synonym capability_set = "capability list"

definition caps_try_clone :: "bool \<Rightarrow> capability_set \<Rightarrow> status_error + capability_set" where
  "caps_try_clone mem caps = (if \<not> mem then Inl ResourceUnavailable else Inr caps)"

definition caps_insert :: "capability \<Rightarrow> capability_set \<Rightarrow> capability_set" where
  "caps_insert c caps =
     (case binary_search_by_key id c caps of
        Inl i \<Rightarrow> vec_insert i c caps
      | Inr _ \<Rightarrow> caps)"

definition caps_try_insert ::
    "bool \<Rightarrow> capability \<Rightarrow> capability_set \<Rightarrow> (status_error + unit) \<times> capability_set" where
  "caps_try_insert mem c caps =
     (case binary_search_by_key id c caps of
        Inl i \<Rightarrow>
          if \<not> mem then (Inl ResourceUnavailable, caps)
          else (Inr (), vec_insert i c caps)
      | Inr _ \<Rightarrow> (Inr (), caps))"

definition caps_remove :: "capability \<Rightarrow> capability_set \<Rightarrow> bool \<times> capability_set" where
  "caps_remove c caps =
     (case binary_search_by_key id c caps of
        Inr i \<Rightarrow> (True, vec_remove i caps)
      | Inl _ \<Rightarrow> (False, caps))"

definition caps_contains_exact :: "capability \<Rightarrow> capability_set \<Rightarrow> bool" where
  "caps_contains_exact c caps =
     (case binary_search_by_key id c caps of Inr _ \<Rightarrow> True | Inl _ \<Rightarrow> False)"

definition caps_implies :: "capability_set \<Rightarrow> capability \<Rightarrow> bool" where
  "caps_implies caps c = list_ex (\<lambda>parent. capability_implies parent c) caps"

definition caps_contains :: "capability_set \<Rightarrow> capability \<Rightarrow> bool" where
  "caps_contains caps c = caps_implies caps c"

text \<open>\<open>from_strings\<close> interns every name in turn and stops at the first it cannot; the memory
  outcomes of the interning calls are given one pair per name.\<close>

fun caps_from_strings_loop ::
    "capability_set \<Rightarrow> ((bool \<times> bool) \<times> string) list \<Rightarrow> dynamic_capability_registry \<Rightarrow>
     (string + capability_set) \<times> dynamic_capability_registry" where
  "caps_from_strings_loop caps [] names = (Inr caps, names)"
| "caps_from_strings_loop caps (((nm, sm), s) # rest) names =
     (case intern nm sm s names of
        (None, names') \<Rightarrow> (Inl s, names')
      | (Some c, names') \<Rightarrow> caps_from_strings_loop (caps_insert c caps) rest names')"

definition caps_from_strings ::
    "((bool \<times> bool) \<times> string) list \<Rightarrow> dynamic_capability_registry \<Rightarrow>
     (string + capability_set) \<times> dynamic_capability_registry" where
  "caps_from_strings list names = caps_from_strings_loop [] list names"

definition caps_is_subset_of :: "capability_set \<Rightarrow> capability_set \<Rightarrow> bool" where
  "caps_is_subset_of caps other = list_all (\<lambda>c. caps_implies other c) caps"

text \<open>\<open>KernelAuthoritySet\<close>: an unordered vector without repetition.\<close>

type_synonym kernel_authority_set = "kernel_authority list"

definition auths_try_clone :: "bool \<Rightarrow> kernel_authority_set \<Rightarrow> status_error + kernel_authority_set" where
  "auths_try_clone mem auths = (if \<not> mem then Inl ResourceUnavailable else Inr auths)"

definition auths_insert :: "kernel_authority \<Rightarrow> kernel_authority_set \<Rightarrow> kernel_authority_set" where
  "auths_insert a auths = (if a \<notin> set auths then auths @ [a] else auths)"

definition auths_try_insert ::
    "bool \<Rightarrow> kernel_authority \<Rightarrow> kernel_authority_set \<Rightarrow>
     (status_error + unit) \<times> kernel_authority_set" where
  "auths_try_insert mem a auths =
     (if a \<notin> set auths then
        if \<not> mem then (Inl ResourceUnavailable, auths) else (Inr (), auths @ [a])
      else (Inr (), auths))"

definition auths_remove_exact ::
    "kernel_authority \<Rightarrow> kernel_authority_set \<Rightarrow> bool \<times> kernel_authority_set" where
  "auths_remove_exact a auths =
     (case position (\<lambda>existing. existing = a) auths of
        None \<Rightarrow> (False, auths)
      | Some i \<Rightarrow> (True, vec_remove i auths))"

definition auths_contains_exact :: "kernel_authority \<Rightarrow> kernel_authority_set \<Rightarrow> bool" where
  "auths_contains_exact a auths \<longleftrightarrow> a \<in> set auths"

definition auths_implies :: "kernel_authority_set \<Rightarrow> kernel_authority \<Rightarrow> bool" where
  "auths_implies auths a = list_ex (\<lambda>parent. kernel_authority_implies parent a) auths"

definition auths_contains_capability :: "kernel_authority_set \<Rightarrow> kernel_capability \<Rightarrow> bool" where
  "auths_contains_capability auths c = list_ex (\<lambda>a. auth_capability a = c) auths"

definition auths_is_subset_of :: "kernel_authority_set \<Rightarrow> kernel_authority_set \<Rightarrow> bool" where
  "auths_is_subset_of auths other = list_all (\<lambda>a. auths_implies other a) auths"

section \<open>Authority orders\<close>

text \<open>
  What the process-authority code relies on: implication composes. A holder is a list of
  authorities; it is granted whatever one of its members implies.
\<close>

locale authority_order =
  fixes implies :: "'a \<Rightarrow> 'a \<Rightarrow> bool"
  assumes implies_trans: "implies a b \<Longrightarrow> implies b c \<Longrightarrow> implies a c"
begin

lemma subset_grants:
  assumes "list_all (\<lambda>x. list_ex (\<lambda>p. implies p x) t) s" and "list_ex (\<lambda>p. implies p c) s"
  shows "list_ex (\<lambda>p. implies p c) t"
  using assms implies_trans unfolding list_all_iff list_ex_iff by blast

lemma subset_trans:
  assumes "list_all (\<lambda>x. list_ex (\<lambda>p. implies p x) t) s"
    and "list_all (\<lambda>x. list_ex (\<lambda>p. implies p x) u) t"
  shows "list_all (\<lambda>x. list_ex (\<lambda>p. implies p x) u) s"
  using assms implies_trans unfolding list_all_iff list_ex_iff by meson

lemma replacement_grants:
  assumes "p \<in> set s" and "implies p r" and "set s' \<subseteq> insert r (set s)"
    and "list_ex (\<lambda>q. implies q c) s'"
  shows "list_ex (\<lambda>q. implies q c) s"
  using assms implies_trans unfolding list_ex_iff by blast

end

lemma capability_implies_refl [simp]: "capability_implies c c"
  by (simp add: capability_implies_def)

lemma capability_implies_iff:
  "capability_implies p c \<longleftrightarrow> p = c \<or> p = Unsandboxed \<or>
     p = FsReadAll \<and> (c = FsReadTmp \<or> c = FsReadRemovable) \<or>
     p = FsWriteAll \<and> (c = FsWriteTmp \<or> c = FsWriteRemovable)"
  by (cases p) (simp_all add: capability_implies_def)

lemma capability_implies_trans:
  "capability_implies a b \<Longrightarrow> capability_implies b c \<Longrightarrow> capability_implies a c"
  unfolding capability_implies_iff by (elim disjE conjE) simp_all

interpretation plain: authority_order capability_implies
  by unfold_locales (rule capability_implies_trans)

text \<open>The addresses an authority covers, free of wrap-around.\<close>

fun region_bytes :: "kernel_object_ref \<Rightarrow> nat set" where
  "region_bytes (MmioRegion base sz) = {unat base ..< unat base + unat sz}"
| "region_bytes _ = {}"

lemma kernel_authority_implies_region:
  "kernel_authority_implies \<lparr>auth_capability = k, auth_object = MmioRegion pb ps\<rparr>
     \<lparr>auth_capability = k', auth_object = MmioRegion cb cs\<rparr> \<longleftrightarrow>
   k = k' \<and> unat pb + unat ps < 2 ^ 64 \<and> unat pb \<le> unat cb \<and> unat cb + unat cs \<le> unat pb + unat ps"
proof (cases "checked_add pb ps")
  case None
  then have "2 ^ 64 \<le> unat pb + unat ps" by (simp add: checked_add_None_iff)
  with None show ?thesis by (simp add: kernel_authority_implies_def)
next
  case pe: (Some pe)
  then have pe': "unat pe = unat pb + unat ps" "unat pb + unat ps < 2 ^ 64"
    using checked_add_Some_iff [of pb ps pe] unsigned_less [of pe] by auto
  show ?thesis
  proof (cases "checked_add cb cs")
    case None
    then have "2 ^ 64 \<le> unat cb + unat cs" by (simp add: checked_add_None_iff)
    with None pe pe' show ?thesis by (simp add: kernel_authority_implies_def)
  next
    case (Some ce)
    then have "unat ce = unat cb + unat cs" using checked_add_Some_iff [of cb cs ce] by auto
    with Some pe pe' show ?thesis
      by (auto simp: kernel_authority_implies_def word_le_nat_alt)
  qed
qed

lemma kernel_authority_implies_other:
  assumes "\<not> (\<exists>b s. auth_object p = MmioRegion b s)"
  shows "kernel_authority_implies p c \<longleftrightarrow> p = c"
proof -
  have "kernel_authority_implies p c \<longleftrightarrow> auth_capability p = auth_capability c \<and> auth_object p = auth_object c"
    using assms by (cases "auth_object p") (simp_all add: kernel_authority_implies_def)
  then show ?thesis by (cases p; cases c) auto
qed

lemma kernel_authority_implies_regionE:
  assumes "kernel_authority_implies \<lparr>auth_capability = k, auth_object = MmioRegion x y\<rparr> b"
  obtains k' x' y' where "b = \<lparr>auth_capability = k', auth_object = MmioRegion x' y'\<rparr>"
proof -
  have "\<exists>x' y'. auth_object b = MmioRegion x' y'"
    using assms by (cases "auth_object b") (simp_all add: kernel_authority_implies_def split: if_splits)
  then show thesis using that by (cases b) auto
qed

lemma kernel_authority_implies_trans:
  assumes "kernel_authority_implies a b" and "kernel_authority_implies b c"
  shows "kernel_authority_implies a c"
proof (cases "\<exists>x y. auth_object a = MmioRegion x y")
  case False
  with assms(1) have "b = a" by (simp add: kernel_authority_implies_other)
  with assms(2) show ?thesis by simp
next
  case True
  then obtain ka x y where a: "a = \<lparr>auth_capability = ka, auth_object = MmioRegion x y\<rparr>"
    by (cases a) auto
  from kernel_authority_implies_regionE [OF assms(1) [unfolded a]]
  obtain kb x' y' where b: "b = \<lparr>auth_capability = kb, auth_object = MmioRegion x' y'\<rparr>" .
  from kernel_authority_implies_regionE [OF assms(2) [unfolded b]]
  obtain kc x'' y'' where c: "c = \<lparr>auth_capability = kc, auth_object = MmioRegion x'' y''\<rparr>" .
  show ?thesis using assms unfolding a b c kernel_authority_implies_region by auto
qed

interpretation kernel: authority_order kernel_authority_implies
  by unfold_locales (rule kernel_authority_implies_trans)

section \<open>Names\<close>

lemma builtin_name_bootstrap: "builtin_name c \<noteq> None \<longleftrightarrow> c \<in> set bootstrap_capabilities"
  by (cases c) (simp_all add: bootstrap_capabilities_def)

lemma builtin_names_distinct: "distinct (map builtin_name bootstrap_capabilities)"
  by code_simp

lemma builtin_names_valid: "list_all (\<lambda>c. valid_capability_name (the (builtin_name c))) bootstrap_capabilities"
  by code_simp

lemma find_unique:
  assumes "distinct (map f xs)" and "x \<in> set xs"
  shows "find (\<lambda>y. f y = f x) xs = Some x"
  using assms by (induction xs) (auto simp: image_iff)

lemma builtin_capability_iff: "builtin_capability s = Some c \<longleftrightarrow> builtin_name c = Some s"
proof
  assume "builtin_capability s = Some c"
  then show "builtin_name c = Some s" by (auto simp: builtin_capability_def find_Some_iff)
next
  assume name: "builtin_name c = Some s"
  then have "c \<in> set bootstrap_capabilities" using builtin_name_bootstrap by force
  from find_unique [OF builtin_names_distinct this] name show "builtin_capability s = Some c"
    by (simp add: builtin_capability_def)
qed

lemma builtin_name_valid: "builtin_name c = Some s \<Longrightarrow> valid_capability_name s"
  using builtin_names_valid builtin_name_bootstrap [of c] by (force simp: list_all_iff)

text \<open>The name a capability stands for, and the well-formedness of the registry.\<close>

definition capability_name :: "dynamic_capability_registry \<Rightarrow> capability \<Rightarrow> string option" where
  "capability_name names c =
     (case c of
        Dynamic i \<Rightarrow> (if unat i < length names then Some (names ! unat i) else None)
      | _ \<Rightarrow> builtin_name c)"

definition registry_ok :: "dynamic_capability_registry \<Rightarrow> bool" where
  "registry_ok names \<longleftrightarrow> distinct names \<and> length names \<le> MAX_DYNAMIC_CAPABILITIES \<and>
     list_all (\<lambda>n. valid_capability_name n \<and> builtin_capability n = None) names"

lemma capability_name_builtin: "builtin_name c = Some s \<Longrightarrow> capability_name names c = Some s"
  by (cases c) (simp_all add: capability_name_def)

lemma capability_name_not_dynamic:
  "capability_name names c = Some s \<Longrightarrow> builtin_name c = Some s \<or> (\<exists>i. c = Dynamic i \<and> unat i < length names \<and> names ! unat i = s)"
  by (cases c) (auto simp: capability_name_def split: if_splits)

lemma registry_index:
  assumes "registry_ok names" and "i < length names"
  shows "unat (of_nat i :: u32) = i"
  using assms by (simp add: registry_ok_def MAX_DYNAMIC_CAPABILITIES_def unat_of_nat)

lemma position_distinct:
  assumes "distinct xs" and "i < length xs"
  shows "position (\<lambda>y. y = xs ! i) xs = Some i"
  using assms by (induction xs arbitrary: i) (auto simp: nth_Cons split: nat.splits)

lemma capability_from_str_iff:
  assumes ok: "registry_ok names"
  shows "capability_from_str names s = Some c \<longleftrightarrow> capability_name names c = Some s"
proof (cases "builtin_capability s")
  case (Some b)
  have "c = b" if "capability_name names c = Some s"
    using capability_name_not_dynamic [OF that]
  proof
    assume "builtin_name c = Some s"
    with Some show "c = b" by (simp add: builtin_capability_iff [symmetric])
  next
    assume "\<exists>i. c = Dynamic i \<and> unat i < length names \<and> names ! unat i = s"
    with ok Some show "c = b" by (force simp: registry_ok_def list_all_iff)
  qed
  moreover have "capability_name names b = Some s"
    using Some by (simp add: builtin_capability_iff capability_name_builtin)
  ultimately show ?thesis using Some by (auto simp: capability_from_str_def)
next
  case None
  then have nb: "builtin_name x \<noteq> Some s" for x using builtin_capability_iff [of s x] by simp
  show ?thesis
  proof
    assume "capability_from_str names s = Some c"
    with None obtain i where i: "position (\<lambda>r. r = s) names = Some i" "c = Dynamic (of_nat i)"
      by (auto simp: capability_from_str_def lookup_dynamic_capability_def split: if_splits)
    from position_Some [OF i(1)] have "i < length names" "names ! i = s" by auto
    with registry_index [OF ok this(1)] i(2) show "capability_name names c = Some s"
      by (simp add: capability_name_def)
  next
    assume "capability_name names c = Some s"
    with nb obtain i where c: "c = Dynamic i" and i: "unat i < length names" "names ! unat i = s"
      using capability_name_not_dynamic by blast
    from ok i have "valid_capability_name s" "position (\<lambda>r. r = s) names = Some (unat i)"
      using position_distinct [of names "unat i"] by (auto simp: registry_ok_def list_all_iff)
    with None c show "capability_from_str names s = Some c"
      by (simp add: capability_from_str_def lookup_dynamic_capability_def)
  qed
qed


subsection \<open>Interning\<close>

lemma capability_name_append:
  "capability_name names c = Some n \<Longrightarrow> capability_name (names @ added) c = Some n"
  by (cases c) (auto simp: capability_name_def nth_append split: if_splits)

lemma intern_dynamic_correct:
  assumes ok: "registry_ok names" and valid: "valid_capability_name s" and nb: "builtin_capability s = None"
    and res: "intern_dynamic_capability nm sm s names = (r, names')"
  shows "registry_ok names' \<and> (\<exists>added. names' = names @ added) \<and>
    (case r of Inl _ \<Rightarrow> names' = names | Inr c \<Rightarrow> capability_name names' c = Some s)"
proof (cases "position (\<lambda>r. r = s) names")
  case (Some i)
  then have "i < length names" "names ! i = s" using position_Some [OF Some] by auto
  with Some res ok registry_index [OF ok this(1)] show ?thesis
    by (auto simp: intern_dynamic_capability_def capability_name_def)
next
  case None
  then have fresh: "s \<notin> set names" by (auto simp: position_None_iff)
  show ?thesis
  proof (cases "length names < MAX_DYNAMIC_CAPABILITIES \<and> nm \<and> sm")
    case True
    with None res have "r = Inr (Dynamic (of_nat (length names)))" "names' = names @ [s]"
      by (auto simp: intern_dynamic_capability_def)
    moreover have "registry_ok (names @ [s])"
      using ok fresh valid nb True by (auto simp: registry_ok_def)
    moreover from registry_index [OF this, of "length names"]
    have "unat (of_nat (length names) :: u32) = length names" by simp
    ultimately show ?thesis by (auto simp: capability_name_def)
  next
    case False
    with None res ok show ?thesis
      by (auto simp: intern_dynamic_capability_def not_less split: if_splits)
  qed
qed

lemma try_intern_correct:
  assumes ok: "registry_ok names" and res: "try_intern nm sm s names = (r, names')"
  shows "registry_ok names' \<and> (\<exists>added. names' = names @ added) \<and>
    (case r of Inl _ \<Rightarrow> names' = names | Inr c \<Rightarrow> capability_name names' c = Some s)"
proof (cases "valid_capability_name s")
  case False
  with res ok show ?thesis by (auto simp: try_intern_def)
next
  case valid: True
  show ?thesis
  proof (cases "builtin_capability s")
    case None
    with res valid have "intern_dynamic_capability nm sm s names = (r, names')"
      by (simp add: try_intern_def)
    from intern_dynamic_correct [OF ok valid None this] show ?thesis .
  next
    case (Some b)
    with res valid ok show ?thesis
      by (auto simp: try_intern_def builtin_capability_iff capability_name_builtin)
  qed
qed

section \<open>Sets\<close>

text \<open>The invariants of the two set types.\<close>

definition caps_ok :: "capability_set \<Rightarrow> bool" where
  "caps_ok caps = sorted_wrt (<) caps"

definition auths_ok :: "kernel_authority_set \<Rightarrow> bool" where
  "auths_ok auths = distinct auths"

lemma caps_search_Inl: "caps_ok caps \<Longrightarrow> binary_search_by_key id c caps = Inl i \<Longrightarrow> c \<notin> set caps"
  using binary_search_found_iff [of id caps c] by (simp add: caps_ok_def)

lemma caps_search_Inr:
  "caps_ok caps \<Longrightarrow> binary_search_by_key id c caps = Inr i \<Longrightarrow> i < length caps \<and> caps ! i = c"
  using binary_search_Inr [of id caps c i] by (simp add: caps_ok_def)

lemma caps_contains_exact_iff: "caps_ok caps \<Longrightarrow> caps_contains_exact c caps \<longleftrightarrow> c \<in> set caps"
  using binary_search_found_iff [of id caps c]
  by (auto simp: caps_contains_exact_def caps_ok_def split: sum.splits)

lemma caps_insert_correct:
  assumes "caps_ok caps"
  shows "caps_ok (caps_insert c caps) \<and> set (caps_insert c caps) = insert c (set caps)"
proof (cases "binary_search_by_key id c caps")
  case (Inl i)
  with binary_search_insert_sorted [of id caps c i] assms show ?thesis
    by (simp add: caps_insert_def caps_ok_def)
next
  case (Inr i)
  with caps_search_Inr [OF assms Inr] assms show ?thesis by (auto simp: caps_insert_def)
qed

lemma caps_try_insert_eq:
  assumes "caps_ok caps"
  shows "caps_try_insert mem c caps =
    (if c \<in> set caps \<or> mem then (Inr (), caps_insert c caps) else (Inl ResourceUnavailable, caps))"
proof (cases "binary_search_by_key id c caps")
  case (Inl i)
  with caps_search_Inl [OF assms Inl] show ?thesis by (simp add: caps_try_insert_def caps_insert_def)
next
  case (Inr i)
  with caps_search_Inr [OF assms Inr] show ?thesis by (auto simp: caps_try_insert_def caps_insert_def)
qed

lemma caps_remove_correct:
  assumes ok: "caps_ok caps" and res: "caps_remove c caps = (found, caps')"
  shows "(found \<longleftrightarrow> c \<in> set caps) \<and> caps_ok caps' \<and> set caps' = set caps - {c}"
proof (cases "binary_search_by_key id c caps")
  case (Inl i)
  with caps_search_Inl [OF ok Inl] res ok show ?thesis by (auto simp: caps_remove_def)
next
  case (Inr i)
  with res have r: "found" "caps' = vec_remove i caps" by (auto simp: caps_remove_def)
  have i: "i < length caps" "caps ! i = c" using caps_search_Inr [OF ok Inr] by auto
  have d: "distinct caps" using ok sorted_less_distinct by (simp add: caps_ok_def)
  show ?thesis
    using r i ok distinct_vec_remove [OF d i(1)] vec_remove_sorted [of "(<)" caps i] nth_mem [OF i(1)]
    by (simp add: caps_ok_def)
qed

lemma auths_insert_correct:
  assumes "auths_ok auths"
  shows "auths_ok (auths_insert a auths) \<and> set (auths_insert a auths) = insert a (set auths)"
  using assms by (auto simp: auths_insert_def auths_ok_def)

lemma auths_try_insert_eq:
  "auths_try_insert mem a auths =
    (if a \<in> set auths \<or> mem then (Inr (), auths_insert a auths) else (Inl ResourceUnavailable, auths))"
  by (auto simp: auths_try_insert_def auths_insert_def)

lemma auths_remove_exact_correct:
  assumes ok: "auths_ok auths" and res: "auths_remove_exact a auths = (found, auths')"
  shows "(found \<longleftrightarrow> a \<in> set auths) \<and> auths_ok auths' \<and> set auths' = set auths - {a}"
proof (cases "position (\<lambda>e. e = a) auths")
  case None
  with res ok show ?thesis by (auto simp: auths_remove_exact_def position_None_iff)
next
  case (Some i)
  with res have r: "found" "auths' = vec_remove i auths" by (auto simp: auths_remove_exact_def)
  have i: "i < length auths" "auths ! i = a" using position_Some [OF Some] by auto
  show ?thesis using r i ok distinct_vec_remove [of auths i] nth_mem [OF i(1)] by (simp add: auths_ok_def)
qed

lemma caps_implies_iff: "caps_implies caps c \<longleftrightarrow> (\<exists>p\<in>set caps. capability_implies p c)"
  by (simp add: caps_implies_def list_ex_iff)

lemma auths_implies_iff: "auths_implies auths a \<longleftrightarrow> (\<exists>p\<in>set auths. kernel_authority_implies p a)"
  by (simp add: auths_implies_def list_ex_iff)

lemma named_insert: "{x. \<exists>t\<in>insert s S. P x t} = {x. P x s} \<union> {x. \<exists>t\<in>S. P x t}"
  by blast

lemma caps_from_strings_loop_correct:
  assumes "registry_ok names" and "caps_ok caps"
    and "caps_from_strings_loop caps l names = (r, names')"
  shows "registry_ok names' \<and> (\<exists>added. names' = names @ added) \<and>
    (case r of
       Inl bad \<Rightarrow> bad \<in> snd ` set l
     | Inr caps' \<Rightarrow> caps_ok caps' \<and>
         set caps' = set caps \<union> {c. \<exists>s\<in>snd ` set l. capability_name names' c = Some s})"
  using assms
proof (induction caps l names rule: caps_from_strings_loop.induct)
  case (1 caps names)
  then show ?case by auto
next
  case (2 caps nm sm s rest names)
  obtain q names1 where q: "try_intern nm sm s names = (q, names1)" by (cases "try_intern nm sm s names")
  note ti = try_intern_correct [OF "2.prems"(1) q]
  show ?case
  proof (cases q)
    case (Inl e)
    with q ti "2.prems" show ?thesis by (auto simp: intern_def)
  next
    case (Inr c)
    with q have i: "intern nm sm s names = (Some c, names1)" by (simp add: intern_def)
    from "2.prems"(3) i have rest: "caps_from_strings_loop (caps_insert c caps) rest names1 = (r, names')" by simp
    have ok1: "registry_ok names1" and c1: "capability_name names1 c = Some s" using ti Inr by auto
    obtain m1 where m1: "names1 = names @ m1" using ti by auto
    note IH = "2.IH" [OF i [symmetric] refl ok1 conjunct1 [OF caps_insert_correct [OF "2.prems"(2)]] rest]
    then obtain m2 where m2: "names' = names1 @ m2" and ok': "registry_ok names'" by auto
    have c': "capability_name names' c = Some s" using capability_name_append [OF c1] m2 by simp
    have "c' = c" if "capability_name names' c' = Some s" for c'
      using c' that capability_from_str_iff [OF ok'] by (metis option.inject)
    with c' have "{x. capability_name names' x = Some s} = {c}" by blast
    then have "{x. \<exists>t\<in>snd ` set (((nm, sm), s) # rest). capability_name names' x = Some t} =
        insert c {x. \<exists>t\<in>snd ` set rest. capability_name names' x = Some t}"
      using named_insert [of s "snd ` set rest" "\<lambda>x t. capability_name names' x = Some t"] by simp
    with IH m1 m2 caps_insert_correct [OF "2.prems"(2), of c] show ?thesis
      by (cases r) simp_all
  qed
qed

section \<open>Authority specifications\<close>

definition component_denotes :: "string \<Rightarrow> u64 \<Rightarrow> bool" where
  "component_denotes raw v \<longleftrightarrow>
     (\<exists>sign digits radix pre. str_trim raw = pre @ sign @ digits \<and> sign \<in> {'''', ''+''} \<and> digits \<noteq> [] \<and>
        (pre = '''' \<and> radix = 10 \<or> pre \<in> {''0x'', ''0X''} \<and> radix = 16) \<and>
        digits_denote radix 0 digits (unat v))"

lemma strip_prefix_Some: "strip_prefix p s = Some r \<longleftrightarrow> s = p @ r"
  by (auto simp: strip_prefix_def) (metis append_take_drop_id)

lemma split_once_Some:
  assumes "split_once c s = Some (a, b)"
  shows "s = a @ c # b \<and> c \<notin> set a"
proof -
  have c: "c \<in> set s" and a: "a = takeWhile (\<lambda>x. x \<noteq> c) s" and b: "b = tl (dropWhile (\<lambda>x. x \<noteq> c) s)"
    using assms by (auto simp: split_once_def split: if_splits)
  have ne: "dropWhile (\<lambda>x. x \<noteq> c) s \<noteq> []" using c by (auto simp: dropWhile_eq_Nil_conv)
  then have "hd (dropWhile (\<lambda>x. x \<noteq> c) s) = c" using hd_dropWhile [of "\<lambda>x. x \<noteq> c" s] by simp
  with ne have "dropWhile (\<lambda>x. x \<noteq> c) s = c # b" using b by (cases "dropWhile (\<lambda>x. x \<noteq> c) s") auto
  with a takeWhile_dropWhile_id [of "\<lambda>x. x \<noteq> c" s] show ?thesis by (auto dest: set_takeWhileD)
qed

lemma from_str_radix_Some:
  assumes "from_str_radix s radix = Some v" and "1 \<le> radix" and "radix < 2 ^ 64"
  obtains sign digits where "s = sign @ digits" and "sign \<in> {'''', ''+''}" and "digits \<noteq> []"
    and "digits_denote radix 0 digits (unat v)"
proof (cases s)
  case Nil
  with assms(1) show thesis by (simp add: from_str_radix_def)
next
  case (Cons c cs)
  note d = parse_digits_Some_iff [OF assms(2,3), of 0 _ v]
  show thesis
  proof (cases "c = CHR ''+''")
    case True
    with assms(1) Cons have "cs \<noteq> []" "parse_digits radix 0 cs = Some v"
      by (auto simp: from_str_radix_def split: if_splits)
    with True Cons d [of cs] show thesis by (intro that [of "''+''" cs]) simp_all
  next
    case False
    with assms(1) Cons have "parse_digits radix 0 s = Some v"
      by (auto simp: from_str_radix_def split: if_splits)
    with Cons d [of s] show thesis by (intro that [of "''''" s]) simp_all
  qed
qed

lemma parse_u64_component_Some:
  assumes "parse_u64_component raw = Some v"
  shows "component_denotes raw v"
proof -
  define t where "t = str_trim raw"
  consider (hex) pre hex where "pre \<in> {''0x'', ''0X''}" "t = pre @ hex" "from_str_radix hex 16 = Some v"
    | (dec) "from_str_radix t 10 = Some v"
    using assms
    by (force simp: parse_u64_component_def Let_def t_def [symmetric] strip_prefix_Some
        split: option.splits)
  then show ?thesis
  proof cases
    case hex
    from hex(3) obtain sign digits where "hex = sign @ digits" "sign \<in> {'''', ''+''}" "digits \<noteq> []"
      "digits_denote 16 0 digits (unat v)" by (rule from_str_radix_Some) simp_all
    with hex show ?thesis unfolding component_denotes_def t_def by blast
  next
    case dec
    then obtain sign digits where "t = sign @ digits" "sign \<in> {'''', ''+''}" "digits \<noteq> []"
      "digits_denote 10 0 digits (unat v)" by (rule from_str_radix_Some) simp_all
    then show ?thesis unfolding component_denotes_def t_def by (metis append_Nil)
  qed
qed

lemma spec_example:
  "parse_kernel_authority_spec ''memory.phys.map@0x1000:16'' =
     Some \<lparr>auth_capability = K_PhysMap, auth_object = MmioRegion 0x1000 16\<rparr>"
proof -
  have t: "str_trim ''16'' = ''16''" "str_trim ''0x1000'' = ''0x1000''"
    by (simp_all add: str_trim_def strip_leading.simps white_space_def)
  have "parse_u64_component ''0x1000'' = Some 0x1000" "parse_u64_component ''16'' = Some 16"
    by (simp_all add: parse_u64_component_def t strip_prefix_def
        from_str_radix_def digit_value_def checked_mul_def checked_add_def)
  then show ?thesis by (simp add: parse_kernel_authority_spec_def strip_prefix_def split_once_def)
qed

lemmas intern_eval = try_intern_def intern_def intern_dynamic_capability_def MAX_DYNAMIC_CAPABILITIES_def
  builtin_capability_def bootstrap_capabilities_def valid_capability_name_def is_ascii_lowercase_def
  is_ascii_digit_def byte_in_def registry_ok_def

section \<open>Properties\<close>

text \<open>C36: a physical-memory authority is accepted only from a specification
  \<open>memory.phys.map@base:size\<close> whose two components denote, in decimal or in hexadecimal and
  without overflow, the base and the non-zero size of the region it authorises.\<close>

theorem authority_spec_sound:
  assumes "parse_kernel_authority_spec spec = Some a"
  shows "\<exists>base_raw size_raw base sz.
    spec = ''memory.phys.map@'' @ base_raw @ '':'' @ size_raw \<and> CHR '':'' \<notin> set base_raw \<and>
    component_denotes base_raw base \<and> component_denotes size_raw sz \<and> sz \<noteq> 0 \<and>
    a = \<lparr>auth_capability = K_PhysMap, auth_object = MmioRegion base sz\<rparr>"
proof -
  from assms obtain phys base_raw size_raw base sz where
    p: "strip_prefix ''memory.phys.map@'' spec = Some phys"
    and s: "split_once (CHR '':'') phys = Some (base_raw, size_raw)"
    and b: "parse_u64_component base_raw = Some base" and z: "parse_u64_component size_raw = Some sz"
    and a: "sz \<noteq> 0" "a = \<lparr>auth_capability = K_PhysMap, auth_object = MmioRegion base sz\<rparr>"
    by (auto simp: parse_kernel_authority_spec_def split: option.splits if_splits)
  from p have "spec = ''memory.phys.map@'' @ phys" unfolding strip_prefix_Some .
  with split_once_Some [OF s] parse_u64_component_Some [OF b] parse_u64_component_Some [OF z] a
  show ?thesis by (metis append_Cons append_Nil)
qed

theorem authority_spec_sound_witness:
  "\<exists>base_raw size_raw base sz.
    ''memory.phys.map@0x1000:16'' = ''memory.phys.map@'' @ base_raw @ '':'' @ size_raw \<and>
    CHR '':'' \<notin> set base_raw \<and>
    component_denotes base_raw base \<and> component_denotes size_raw sz \<and> sz \<noteq> 0 \<and>
    \<lparr>auth_capability = K_PhysMap, auth_object = MmioRegion 0x1000 16\<rparr> =
    \<lparr>auth_capability = K_PhysMap, auth_object = MmioRegion base sz\<rparr>"
  by (rule authority_spec_sound) (rule spec_example)

text \<open>C33: between two MMIO regions of the same kernel capability, implication is containment.
  A parent implies a non-empty child exactly when the parent does not reach past the end of
  the address space and every byte of the child is a byte of the parent.\<close>

theorem mmio_implication_is_containment:
  assumes "cs \<noteq> 0"
  shows "kernel_authority_implies \<lparr>auth_capability = k, auth_object = MmioRegion pb ps\<rparr>
      \<lparr>auth_capability = k, auth_object = MmioRegion cb cs\<rparr> \<longleftrightarrow>
    unat pb + unat ps < 2 ^ 64 \<and>
    region_bytes (MmioRegion cb cs) \<subseteq> region_bytes (MmioRegion pb ps)"
  using assms by (auto simp: kernel_authority_implies_region unat_eq_0)

theorem mmio_implication_is_containment_witness:
  "kernel_authority_implies \<lparr>auth_capability = K_PhysMap, auth_object = MmioRegion 0x1000 0x2000\<rparr>
      \<lparr>auth_capability = K_PhysMap, auth_object = MmioRegion 0x1800 16\<rparr> \<longleftrightarrow>
    unat (0x1000 :: u64) + unat (0x2000 :: u64) < 2 ^ 64 \<and>
    region_bytes (MmioRegion 0x1800 16) \<subseteq> region_bytes (MmioRegion 0x1000 0x2000)"
  by (rule mmio_implication_is_containment) simp

text \<open>C35: interning a capability name keeps the registry well formed, never renames an existing
  capability, changes nothing when it fails, and on success returns the one capability that the
  name resolves to from then on.\<close>

theorem try_intern_resolves:
  assumes "registry_ok names" and "try_intern nm sm s names = (r, names')"
  shows "registry_ok names' \<and>
    (\<forall>c n. capability_name names c = Some n \<longrightarrow> capability_name names' c = Some n) \<and>
    (case r of
       Inl _ \<Rightarrow> names' = names
     | Inr c \<Rightarrow> (\<forall>c'. capability_from_str names' s = Some c' \<longleftrightarrow> c' = c))"
proof -
  note ti = try_intern_correct [OF assms]
  have "\<forall>c n. capability_name names c = Some n \<longrightarrow> capability_name names' c = Some n"
    using ti by (auto intro: capability_name_append)
  moreover have "\<forall>c'. capability_from_str names' s = Some c' \<longleftrightarrow> c' = c" if "r = Inr c" for c
  proof -
    have "capability_from_str names' s = Some c" using ti that by (simp add: capability_from_str_iff)
    then show ?thesis by auto
  qed
  ultimately show ?thesis using ti by (cases r) auto
qed

theorem try_intern_resolves_witness:
  "registry_ok [''app.a'', ''app.b''] \<and>
    capability_name [''app.a'', ''app.b''] (Dynamic 0) = Some ''app.a'' \<and>
    (\<forall>c'. capability_from_str [''app.a'', ''app.b''] ''app.b'' = Some c' \<longleftrightarrow> c' = Dynamic 1)"
proof -
  have old: "registry_ok [''app.a'']" by (simp add: intern_eval)
  have name: "capability_name [''app.a''] (Dynamic 0) = Some ''app.a''" by (simp add: capability_name_def)
  have "try_intern True True ''app.b'' [''app.a''] = (Inr (Dynamic 1), [''app.a'', ''app.b''])"
    by (simp add: intern_eval)
  from try_intern_resolves [OF old this] have "registry_ok [''app.a'', ''app.b'']"
    and names: "\<forall>c n. capability_name [''app.a''] c = Some n \<longrightarrow> capability_name [''app.a'', ''app.b''] c = Some n"
    and "\<forall>c'. capability_from_str [''app.a'', ''app.b''] ''app.b'' = Some c' \<longleftrightarrow> c' = Dynamic 1"
    unfolding sum.case by blast+
  with names [rule_format, OF name] show ?thesis by (intro conjI)
qed

text \<open>C37: building a capability set from strings interns each of them in turn. When it succeeds,
  the set is sorted and holds exactly the capabilities named by the list; when it fails, it
  reports a string of the list. Either way the registry stays well formed.\<close>

theorem from_strings_exact:
  assumes "registry_ok names" and "caps_from_strings l names = (r, names')"
  shows "registry_ok names' \<and>
    (case r of
       Inl bad \<Rightarrow> bad \<in> snd ` set l
     | Inr caps \<Rightarrow> caps_ok caps \<and>
         set caps = {c. \<exists>s\<in>snd ` set l. capability_from_str names' s = Some c})"
proof -
  have "caps_ok []" by (simp add: caps_ok_def)
  from caps_from_strings_loop_correct [OF assms(1) this assms(2) [unfolded caps_from_strings_def]]
  show ?thesis by (cases r) (auto simp: capability_from_str_iff)
qed

theorem from_strings_exact_witness:
  "registry_ok [''app.a''] \<and>
    (case (Inr [IpcClient, Dynamic 0] :: string + capability_set) of
       Inl bad \<Rightarrow> bad \<in> snd ` set [((True, True), ''app.a''), ((True, True), ''ipc.client'')]
     | Inr caps \<Rightarrow> caps_ok caps \<and>
         set caps = {c. \<exists>s\<in>snd ` set [((True, True), ''app.a''), ((True, True), ''ipc.client'')].
           capability_from_str [''app.a''] s = Some c})"
proof (rule from_strings_exact)
  show "registry_ok []" by (simp add: intern_eval caps_from_strings_def caps_insert_def binary_search_by_key_def search_base.simps vec_insert_def less_capability_def)
  show "caps_from_strings [((True, True), ''app.a''), ((True, True), ''ipc.client'')] [] =
    (Inr [IpcClient, Dynamic 0], [''app.a''])"
    by (simp add: intern_eval caps_from_strings_def caps_insert_def binary_search_by_key_def search_base.simps vec_insert_def less_capability_def)
qed

text \<open>C39: printing a kernel capability and parsing it back returns the capability, except for the
  two signature-database capabilities, whose printed names the parser does not know.\<close>

theorem kernel_capability_roundtrip:
  "kernel_capability_from_str (as_str k) =
     (if k = K_SignatureWrite \<or> k = K_SignatureRead then None else Some k)"
  by (cases k) (simp_all add: kernel_capability_from_str_def)

end
