(* ===== verification/Bitmap.thy ===== *)
theory Bitmap
  imports Prelude
begin

text \<open>
  64-bit sets of small indices, as the scheduler and the TLB code use them: test, set and clear
  the bit \<open>1 << i\<close>. The collection \<open>bitmap\<close> turns the word operations into membership.
\<close>

named_theorems bitmap

definition bitmap_bit :: "nat \<Rightarrow> u64" where
  "bitmap_bit i = push_bit i 1"

lemma bit_bitmap_bit [bitmap]: "bit (bitmap_bit i) j \<longleftrightarrow> i = j \<and> i < 64"
  unfolding bitmap_bit_def bit_push_bit_iff bit_1_iff by auto

lemma bitmap_test [bitmap]: "bm AND bitmap_bit i \<noteq> 0 \<longleftrightarrow> bit bm i"
proof
  assume "bm AND bitmap_bit i \<noteq> 0"
  then obtain n where "bit (bm AND bitmap_bit i) n" by (metis bit_eq_iff bit_0_eq bot_apply bot_bool_def)
  then show "bit bm i" by (simp add: bit_and_iff bit_bitmap_bit)
next
  assume *: "bit bm i"
  then have "i < 64" using bit_imp_le_length [of bm i] by simp
  with * have "bit (bm AND bitmap_bit i) i" by (simp add: bit_and_iff bit_bitmap_bit)
  then show "bm AND bitmap_bit i \<noteq> 0" by (metis bit_0_eq bot_apply bot_bool_def)
qed

lemma bitmap_test_zero [bitmap]: "bm AND bitmap_bit i = 0 \<longleftrightarrow> \<not> bit bm i"
  using bitmap_test by blast

lemma bitmap_set [bitmap]: "bit (bm OR bitmap_bit i) j \<longleftrightarrow> bit bm j \<or> i = j \<and> i < 64"
  by (simp add: bit_or_iff bit_bitmap_bit)

lemma bitmap_clear [bitmap]: "bit (bm AND NOT (bitmap_bit i)) j \<longleftrightarrow> bit bm j \<and> i \<noteq> j"
  using bit_imp_le_length [of bm j] by (auto simp: bit_and_iff bit_not_iff bit_bitmap_bit)

lemma bitmap_empty: "(bm :: u64) = 0 \<longleftrightarrow> (\<forall>i<64. \<not> bit bm i)"
proof
  assume *: "\<forall>i<64. \<not> bit bm i"
  have "bit bm n \<longleftrightarrow> bit 0 n" for n using * bit_imp_le_length [of bm n] by auto
  then show "bm = 0" by (simp add: bit_eq_iff)
qed simp

text \<open>The members of a bitmap.\<close>

definition bitmap_set_of :: "u64 \<Rightarrow> nat set" where
  "bitmap_set_of bm = {i. bit bm i}"

lemma bitmap_set_of_subset: "bitmap_set_of bm \<subseteq> {..<64}"
  using bit_imp_le_length [of bm] by (auto simp: bitmap_set_of_def)

lemma finite_bitmap_set_of [simp]: "finite (bitmap_set_of bm)"
  using bitmap_set_of_subset by (rule finite_subset) simp

end
