(* ===== verification/Thread_Queue.thy ===== *)
theory Thread_Queue
  imports Bitmap
begin

text \<open>
  The kernel's thread queue (\<open>ThreadQueue\<close> of \<open>src/task/thread.rs\<close>): 64 slots, a bitmap of the
  slots whose thread can be scheduled, and a round-robin cursor. A thread carries the fields that
  the queue reads or writes. What the queue asks of other components is an argument: the limits
  of the owning process at admission, whether a CPU still references a thread, and whether the
  process object grants the right to terminate it.

  The invariant \<open>queue_ok\<close> ties the bitmap and the counter to the slots; the selection
  functions are shown to pick the nearest eligible slot in cyclic order.
\<close>

section \<open>Threads\<close>

datatype thread_state = Ready | Running | Blocked | Sleeping | Terminated

record thread =
  thr_id :: u64
  thr_process_id :: u64
  thr_state :: thread_state
  thr_scheduling_suspended :: bool
  thr_image_held :: bool
  thr_cpu_affinity :: "nat option"
  thr_ipc_generation :: u64
  thr_pending_wakeup :: bool

definition thread_suspend :: "thread \<Rightarrow> bool \<times> thread" where
  "thread_suspend t =
     (if thr_scheduling_suspended t \<or> thr_state t = Terminated then (False, t)
      else (True, t\<lparr>thr_scheduling_suspended := True\<rparr>))"

definition thread_resume :: "thread \<Rightarrow> bool \<times> thread" where
  "thread_resume t =
     (if \<not> thr_scheduling_suspended t then (False, t)
      else (True, t\<lparr>thr_scheduling_suspended := False\<rparr>))"

definition is_scheduling_suspended :: "thread \<Rightarrow> bool" where
  "is_scheduling_suspended t \<longleftrightarrow> thr_scheduling_suspended t \<or> thr_image_held t"

section \<open>The queue\<close>

definition MAX_THREADS :: nat where
  "MAX_THREADS = 64"

record thread_queue =
  threads :: "thread option list"
  slot_generations :: "u64 list"
  ready_bitmap :: u64
  rr_cursor :: nat
  count :: nat

definition queue_new :: thread_queue where
  "queue_new =
     \<lparr>threads = replicate MAX_THREADS None, slot_generations = replicate MAX_THREADS 0,
      ready_bitmap = 0, rr_cursor = 0, count = 0\<rparr>"

text \<open>What \<open>push\<close> learns of the owning process: its thread limit and whether it still accepts
  threads, or nothing when the process is unknown.\<close>

type_synonym admission = "u64 \<Rightarrow> (nat \<times> bool) option"

definition push_admitted :: "admission \<Rightarrow> thread \<Rightarrow> thread_queue \<Rightarrow> bool" where
  "push_admitted adm t q =
     (case adm (thr_process_id t) of
        None \<Rightarrow> True
      | Some (max_threads, accepts_threads) \<Rightarrow>
          if \<not> accepts_threads then False
          else \<not> max_threads \<le>
            length (filter (\<lambda>s. case s of Some u \<Rightarrow> thr_process_id u = thr_process_id t | None \<Rightarrow> False)
              (threads q)))"

definition next_slot_generation :: "u64 \<Rightarrow> u64" where
  "next_slot_generation g = (let g' = g + 1 in if g' = 0 then 1 else g')"

definition queue_push :: "admission \<Rightarrow> thread \<Rightarrow> thread_queue \<Rightarrow> u64 option \<times> thread_queue" where
  "queue_push adm t q =
     (if MAX_THREADS \<le> count q then (None, q)
      else if \<not> push_admitted adm t q then (None, q)
      else
        let is_ready = thr_state t = Ready \<and> \<not> is_scheduling_suspended t
        in case position (\<lambda>slot. slot = None) (threads q) of
             None \<Rightarrow> (None, q)
           | Some idx \<Rightarrow>
               (Some (thr_id t),
                q\<lparr>threads := (threads q)[idx := Some t],
                  slot_generations :=
                    (slot_generations q)[idx := next_slot_generation (slot_generations q ! idx)],
                  ready_bitmap := (if is_ready then ready_bitmap q OR bitmap_bit idx else ready_bitmap q),
                  rr_cursor := (if count q = 0 then idx else rr_cursor q),
                  count := count q + 1\<rparr>))"

definition queue_get :: "thread_queue \<Rightarrow> u64 \<Rightarrow> thread option" where
  "queue_get q tid =
     find_map (\<lambda>slot. case slot of
                 Some t \<Rightarrow> if thr_id t = tid then Some t else None
               | None \<Rightarrow> None) (threads q)"

definition get_slot :: "thread_queue \<Rightarrow> nat \<Rightarrow> thread option" where
  "get_slot q slot = (if slot < length (threads q) then threads q ! slot else None)"

definition slot_index :: "thread_queue \<Rightarrow> u64 \<Rightarrow> nat option" where
  "slot_index q tid =
     position (\<lambda>slot. case slot of Some t \<Rightarrow> thr_id t = tid | None \<Rightarrow> False) (threads q)"

definition slot_index_and_generation :: "thread_queue \<Rightarrow> u64 \<Rightarrow> (nat \<times> u64) option" where
  "slot_index_and_generation q tid =
     map_option (\<lambda>idx. (idx, slot_generations q ! idx)) (slot_index q tid)"

definition ipc_slot_index_and_generation :: "thread_queue \<Rightarrow> u64 \<Rightarrow> (nat \<times> u64) option" where
  "ipc_slot_index_and_generation q tid =
     (case slot_index q tid of
        None \<Rightarrow> None
      | Some slot \<Rightarrow>
          (case threads q ! slot of
             None \<Rightarrow> None
           | Some t \<Rightarrow>
               (if thr_ipc_generation t \<noteq> 0 then Some (slot, thr_ipc_generation t) else None)))"

definition queue_remove :: "u64 \<Rightarrow> thread_queue \<Rightarrow> thread option \<times> thread_queue" where
  "queue_remove tid q =
     (case slot_index q tid of
        None \<Rightarrow> (None, q)
      | Some idx \<Rightarrow>
          (threads q ! idx,
           q\<lparr>count := count q - 1,
             ready_bitmap := ready_bitmap q AND NOT (bitmap_bit idx),
             threads := (threads q)[idx := None]\<rparr>))"

subsection \<open>Selection\<close>

definition ready_mask_from_slot :: "thread_queue \<Rightarrow> nat \<Rightarrow> nat option" where
  "ready_mask_from_slot q start_slot =
     (if ready_bitmap q = 0 then None
      else find_map (\<lambda>i. let slot = (start_slot + i) mod MAX_THREADS
                         in if ready_bitmap q AND bitmap_bit slot \<noteq> 0 then Some slot else None)
             [0..<MAX_THREADS])"

definition selection_start :: "nat option \<Rightarrow> thread_queue \<Rightarrow> nat" where
  "selection_start current_slot q =
     (case current_slot of Some slot \<Rightarrow> (slot + 1) mod MAX_THREADS | None \<Rightarrow> rr_cursor q)"

definition next_ready_slot_after :: "nat option \<Rightarrow> thread_queue \<Rightarrow> nat option \<times> thread_queue" where
  "next_ready_slot_after current_slot q =
     (if ready_bitmap q = 0 then (None, q)
      else case ready_mask_from_slot q (selection_start current_slot q) of
        None \<Rightarrow> (None, q)
      | Some next_slot \<Rightarrow> (Some next_slot, q\<lparr>rr_cursor := (next_slot + 1) mod MAX_THREADS\<rparr>))"

definition peek_next :: "thread_queue \<Rightarrow> thread option \<times> thread_queue" where
  "peek_next q =
     (case next_ready_slot_after None q of
        (None, q') \<Rightarrow> (None, q')
      | (Some slot, q') \<Rightarrow> (get_slot q' slot, q'))"

definition cpu_may_run :: "thread_queue \<Rightarrow> nat \<Rightarrow> nat \<Rightarrow> bool" where
  "cpu_may_run q cpu slot =
     (case get_slot q slot of
        Some t \<Rightarrow> (case thr_cpu_affinity t of None \<Rightarrow> True | Some owner \<Rightarrow> owner = cpu)
      | None \<Rightarrow> False)"

definition next_ready_slot_for_cpu_after ::
    "nat option \<Rightarrow> nat \<Rightarrow> thread_queue \<Rightarrow> nat option \<times> thread_queue" where
  "next_ready_slot_for_cpu_after current_slot cpu q =
     (if ready_bitmap q = 0 then (None, q)
      else
        let start = selection_start current_slot q
        in case find_map (\<lambda>offset.
                     let slot = (start + offset) mod MAX_THREADS
                     in if ready_bitmap q AND bitmap_bit slot = 0 then None
                        else if cpu_may_run q cpu slot then Some slot else None)
                  [0..<MAX_THREADS] of
             None \<Rightarrow> (None, q)
           | Some slot \<Rightarrow> (Some slot, q\<lparr>rr_cursor := (slot + 1) mod MAX_THREADS\<rparr>))"

subsection \<open>State changes\<close>

definition set_state_at_slot :: "nat \<Rightarrow> thread_state \<Rightarrow> thread_queue \<Rightarrow> bool \<times> thread_queue" where
  "set_state_at_slot slot st q =
     (case get_slot q slot of
        None \<Rightarrow> (False, q)
      | Some t \<Rightarrow>
          if thr_state t = Terminated \<and> st \<noteq> Terminated then (False, q)
          else
            let t' = t\<lparr>thr_state := st\<rparr>
            in (True,
                q\<lparr>threads := (threads q)[slot := Some t'],
                  ready_bitmap :=
                    (if thr_state t' = Ready \<and> \<not> is_scheduling_suspended t'
                     then ready_bitmap q OR bitmap_bit slot
                     else ready_bitmap q AND NOT (bitmap_bit slot))\<rparr>))"

definition set_state :: "u64 \<Rightarrow> thread_state \<Rightarrow> thread_queue \<Rightarrow> bool \<times> thread_queue" where
  "set_state tid st q =
     (case slot_index q tid of
        Some slot \<Rightarrow> set_state_at_slot slot st q
      | None \<Rightarrow> (False, q))"

definition count_by_state :: "thread_state \<Rightarrow> thread_queue \<Rightarrow> nat" where
  "count_by_state st q =
     length (filter (\<lambda>slot. case slot of Some t \<Rightarrow> thr_state t = st | None \<Rightarrow> False) (threads q))"

text \<open>The loops over all slots: the slot number, the remaining slots and the bitmap so far.\<close>

fun suspend_loop ::
    "u64 \<Rightarrow> nat \<Rightarrow> thread option list \<Rightarrow> u64 \<Rightarrow> nat \<times> thread option list \<times> u64" where
  "suspend_loop pid slot [] bm = (0, [], bm)"
| "suspend_loop pid slot (None # ts) bm =
     (let (n, ts', bm') = suspend_loop pid (slot + 1) ts bm in (n, None # ts', bm'))"
| "suspend_loop pid slot (Some t # ts) bm =
     (if thr_process_id t = pid \<and> fst (thread_suspend t) then
        (let (n, ts', bm') = suspend_loop pid (slot + 1) ts (bm AND NOT (bitmap_bit slot))
         in (n + 1, Some (snd (thread_suspend t)) # ts', bm'))
      else
        (let (n, ts', bm') = suspend_loop pid (slot + 1) ts bm in (n, Some t # ts', bm')))"

definition suspend_process :: "u64 \<Rightarrow> thread_queue \<Rightarrow> nat \<times> thread_queue" where
  "suspend_process pid q =
     (let (n, ts, bm) = suspend_loop pid 0 (threads q) (ready_bitmap q)
      in (n, q\<lparr>threads := ts, ready_bitmap := bm\<rparr>))"

fun hold_loop ::
    "u64 \<Rightarrow> u64 \<Rightarrow> nat \<Rightarrow> thread option list \<Rightarrow> u64 \<Rightarrow> u64 list \<times> thread option list \<times> u64" where
  "hold_loop pid owner slot [] bm = ([], [], bm)"
| "hold_loop pid owner slot (None # ts) bm =
     (let (held, ts', bm') = hold_loop pid owner (slot + 1) ts bm in (held, None # ts', bm'))"
| "hold_loop pid owner slot (Some t # ts) bm =
     (if thr_process_id t \<noteq> pid \<or> thr_id t = owner then
        (let (held, ts', bm') = hold_loop pid owner (slot + 1) ts bm in (held, Some t # ts', bm'))
      else
        (let (held, ts', bm') = hold_loop pid owner (slot + 1) ts (bm AND NOT (bitmap_bit slot))
         in (thr_id t # held, Some (t\<lparr>thr_image_held := True\<rparr>) # ts', bm')))"

text \<open>The held identifiers, in slot order; the code stores them at the front of an array.\<close>

definition hold_image_siblings :: "u64 \<Rightarrow> u64 \<Rightarrow> thread_queue \<Rightarrow> u64 list \<times> thread_queue" where
  "hold_image_siblings pid owner q =
     (let (held, ts, bm) = hold_loop pid owner 0 (threads q) (ready_bitmap q)
      in (held, q\<lparr>threads := ts, ready_bitmap := bm\<rparr>))"

definition release_image_hold :: "u64 \<Rightarrow> thread_queue \<Rightarrow> thread_queue" where
  "release_image_hold tid q =
     (case slot_index q tid of
        None \<Rightarrow> q
      | Some slot \<Rightarrow>
          (case threads q ! slot of
             None \<Rightarrow> q
           | Some t \<Rightarrow>
               let t' = t\<lparr>thr_image_held := False\<rparr>
               in q\<lparr>threads := (threads q)[slot := Some t'],
                    ready_bitmap :=
                      (if thr_state t' = Ready \<and> \<not> is_scheduling_suspended t'
                       then ready_bitmap q OR bitmap_bit slot else ready_bitmap q)\<rparr>))"

fun resume_loop ::
    "u64 \<Rightarrow> nat \<Rightarrow> thread option list \<Rightarrow> u64 \<Rightarrow> bool \<times> nat \<times> thread option list \<times> u64" where
  "resume_loop pid slot [] bm = (False, 0, [], bm)"
| "resume_loop pid slot (None # ts) bm =
     (let (found, n, ts', bm') = resume_loop pid (slot + 1) ts bm in (found, n, None # ts', bm'))"
| "resume_loop pid slot (Some t # ts) bm =
     (if thr_process_id t \<noteq> pid then
        (let (found, n, ts', bm') = resume_loop pid (slot + 1) ts bm in (found, n, Some t # ts', bm'))
      else if \<not> fst (thread_resume t) then
        (let (_, n, ts', bm') = resume_loop pid (slot + 1) ts bm in (True, n, Some t # ts', bm'))
      else
        (let t' = snd (thread_resume t);
             bm1 = (if thr_state t' = Ready \<and> \<not> is_scheduling_suspended t'
                    then bm OR bitmap_bit slot else bm);
             (_, n, ts', bm') = resume_loop pid (slot + 1) ts bm1
         in (True, n + 1, Some t' # ts', bm')))"

definition resume_process :: "u64 \<Rightarrow> thread_queue \<Rightarrow> nat option \<times> thread_queue" where
  "resume_process pid q =
     (let (found, n, ts, bm) = resume_loop pid 0 (threads q) (ready_bitmap q)
      in (if found then Some n else None, q\<lparr>threads := ts, ready_bitmap := bm\<rparr>))"

section \<open>Operations on the global queue\<close>

definition replace_ipc_generation :: "u64 \<Rightarrow> u64 \<Rightarrow> thread_queue \<Rightarrow> (nat \<times> u64) option \<times> thread_queue" where
  "replace_ipc_generation tid generation q =
     (case slot_index q tid of
        None \<Rightarrow> (None, q)
      | Some slot \<Rightarrow>
          (case threads q ! slot of
             None \<Rightarrow> (None, q)
           | Some t \<Rightarrow>
               (Some (slot, thr_ipc_generation t),
                q\<lparr>threads := (threads q)[slot := Some (t\<lparr>thr_ipc_generation := generation,
                                                        thr_pending_wakeup := False\<rparr>)]\<rparr>)))"

definition live_ipc_slot_index_and_generation :: "thread_queue \<Rightarrow> u64 \<Rightarrow> (nat \<times> u64) option" where
  "live_ipc_slot_index_and_generation q tid =
     (case queue_get q tid of
        None \<Rightarrow> None
      | Some t \<Rightarrow> if thr_state t = Terminated then None else ipc_slot_index_and_generation q tid)"

definition thread_to_process_id :: "thread_queue \<Rightarrow> u64 \<Rightarrow> u64 option" where
  "thread_to_process_id q tid = map_option thr_process_id (queue_get q tid)"

text \<open>\<open>may_terminate\<close> is whether the thread's process object let this caller begin termination.\<close>

definition begin_thread_exit :: "bool \<Rightarrow> u64 \<Rightarrow> thread_queue \<Rightarrow> u64 option \<times> thread_queue" where
  "begin_thread_exit may_terminate tid q =
     (case queue_get q tid of
        None \<Rightarrow> (None, q)
      | Some t \<Rightarrow>
          let pid = thr_process_id t
          in if list_ex (\<lambda>slot. case slot of
                   Some u \<Rightarrow> thr_process_id u = pid \<and> thr_id u \<noteq> tid \<and> thr_state u \<noteq> Terminated
                 | None \<Rightarrow> False) (threads q)
             then (None, snd (set_state tid Terminated q))
             else if may_terminate then (Some pid, q)
             else (None, snd (set_state tid Terminated q)))"

text \<open>The queue part of \<open>mark_thread_terminated\<close>: whether the thread is retained, and the IPC
  position whose endpoint the caller retires.\<close>

definition mark_thread_terminated ::
    "bool \<Rightarrow> u64 \<Rightarrow> thread_queue \<Rightarrow> bool option \<times> (nat \<times> u64) option \<times> thread_queue" where
  "mark_thread_terminated cpu_referenced tid q =
     (case queue_get q tid of
        None \<Rightarrow> (None, None, q)
      | Some t \<Rightarrow>
          let retained = (thr_state t = Running \<or> cpu_referenced);
              endpoint = ipc_slot_index_and_generation q tid;
              (changed, q') = set_state tid Terminated q
          in (if changed then Some retained else None, if changed then endpoint else None, q'))"

definition remove_quiescent_terminated_thread ::
    "bool \<Rightarrow> u64 \<Rightarrow> thread_queue \<Rightarrow> thread option \<times> thread_queue" where
  "remove_quiescent_terminated_thread cpu_referenced tid q =
     (case queue_get q tid of
        None \<Rightarrow> (None, q)
      | Some t \<Rightarrow>
          if thr_state t \<noteq> Terminated \<or> cpu_referenced then (None, q) else queue_remove tid q)"

section \<open>Invariant\<close>

definition schedulable :: "thread \<Rightarrow> bool" where
  "schedulable t \<longleftrightarrow> thr_state t = Ready \<and> \<not> is_scheduling_suspended t"

definition slot_ready :: "thread option \<Rightarrow> bool" where
  "slot_ready s = (case s of Some t \<Rightarrow> schedulable t | None \<Rightarrow> False)"

lemma slot_ready_simps [simp]:
  "slot_ready None = False" "slot_ready (Some t) = schedulable t"
  by (simp_all add: slot_ready_def)

definition occupied :: "thread option list \<Rightarrow> nat" where
  "occupied ts = length (filter (\<lambda>s. s \<noteq> None) ts)"

definition bits_ok :: "thread option list \<Rightarrow> u64 \<Rightarrow> bool" where
  "bits_ok ts bm \<longleftrightarrow> (\<forall>i<length ts. bit bm i \<longleftrightarrow> slot_ready (ts ! i))"

definition ids_ok :: "thread option list \<Rightarrow> bool" where
  "ids_ok ts \<longleftrightarrow> (\<forall>i j t u. i < length ts \<longrightarrow> j < length ts \<longrightarrow> ts ! i = Some t \<longrightarrow> ts ! j = Some u \<longrightarrow>
     thr_id t = thr_id u \<longrightarrow> i = j)"

definition queue_ok :: "thread_queue \<Rightarrow> bool" where
  "queue_ok q \<longleftrightarrow> length (threads q) = MAX_THREADS \<and> length (slot_generations q) = MAX_THREADS \<and>
     rr_cursor q < MAX_THREADS \<and> count q = occupied (threads q) \<and>
     bits_ok (threads q) (ready_bitmap q) \<and> ids_ok (threads q)"

definition holds_id :: "thread option list \<Rightarrow> u64 \<Rightarrow> bool" where
  "holds_id ts tid \<longleftrightarrow> (\<exists>t. Some t \<in> set ts \<and> thr_id t = tid)"

lemma occupied_update:
  assumes "i < length ts"
  shows "occupied (ts[i := s]) + (if ts ! i \<noteq> None then 1 else 0) = occupied ts + (if s \<noteq> None then 1 else 0)"
  using length_filter_update [OF assms, of "\<lambda>s. s \<noteq> None" s] by (simp add: occupied_def of_bool_def)

lemma bits_ok_update:
  assumes "bits_ok ts bm" and "\<And>j. j < length ts \<Longrightarrow> bit bm' j \<longleftrightarrow> (if j = i then slot_ready s else bit bm j)"
  shows "bits_ok (ts[i := s]) bm'"
  using assms by (auto simp: bits_ok_def nth_list_update)

lemma ids_ok_update:
  assumes "ids_ok ts" and "\<And>t j u. s = Some t \<Longrightarrow> j < length ts \<Longrightarrow> j \<noteq> i \<Longrightarrow> ts ! j = Some u \<Longrightarrow> thr_id t \<noteq> thr_id u"
  shows "ids_ok (ts[i := s])"
proof -
  have "m = n" if "m < length ts" "n < length ts" "ts[i := s] ! m = Some t" "ts[i := s] ! n = Some u"
    "thr_id t = thr_id u" for m n t u
    using assms(1) [unfolded ids_ok_def] assms(2) [of t n u] assms(2) [of u m t] that
    by (cases "m = i"; cases "n = i") simp_all
  then show ?thesis unfolding ids_ok_def by simp
qed

lemma slot_index_Some:
  assumes "slot_index q tid = Some i"
  obtains t where "i < length (threads q)" and "threads q ! i = Some t" and "thr_id t = tid"
  using position_Some [OF assms [unfolded slot_index_def]] that by (auto split: option.splits)

lemma slot_index_unique:
  assumes "ids_ok (threads q)" and "i < length (threads q)" and "threads q ! i = Some t"
  shows "slot_index q (thr_id t) = Some i"
proof (cases "slot_index q (thr_id t)")
  case None
  with assms show ?thesis by (auto simp: slot_index_def position_None_iff dest!: nth_mem)
next
  case (Some j)
  then obtain u where "j < length (threads q)" "threads q ! j = Some u" "thr_id u = thr_id t"
    by (rule slot_index_Some)
  with assms Some show ?thesis by (auto simp: ids_ok_def)
qed

lemma queue_get_slot:
  "queue_get q tid = (case slot_index q tid of None \<Rightarrow> None | Some i \<Rightarrow> threads q ! i)"
proof -
  have "find_map (\<lambda>slot. case slot of Some t \<Rightarrow> if thr_id t = tid then Some t else None | None \<Rightarrow> None) ts =
    (case position (\<lambda>slot. case slot of Some t \<Rightarrow> thr_id t = tid | None \<Rightarrow> False) ts of
       None \<Rightarrow> None | Some i \<Rightarrow> ts ! i)" for ts
    by (induction ts) (auto split: option.splits)
  then show ?thesis by (simp add: queue_get_def slot_index_def)
qed

section \<open>Every operation keeps the invariant\<close>

lemma queue_new_ok: "queue_ok queue_new"
  by (simp add: queue_ok_def queue_new_def MAX_THREADS_def occupied_def bits_ok_def ids_ok_def)

lemma queue_push_ok:
  assumes ok: "queue_ok q" and fresh: "\<not> holds_id (threads q) (thr_id t)"
    and res: "queue_push adm t q = (r, q')"
  shows "queue_ok q'"
proof (cases "\<exists>idx. position (\<lambda>slot. slot = None) (threads q) = Some idx \<and> count q < MAX_THREADS \<and> push_admitted adm t q")
  case False
  with res have "q' = q" by (auto simp: queue_push_def Let_def split: if_splits option.splits)
  with ok show ?thesis by simp
next
  case True
  then obtain idx where idx: "position (\<lambda>slot. slot = None) (threads q) = Some idx" "count q < MAX_THREADS"
    "push_admitted adm t q" by blast
  have i: "idx < length (threads q)" "threads q ! idx = None" using position_Some [OF idx(1)] by auto
  have "bits_ok ((threads q)[idx := Some t])
      (if thr_state t = Ready \<and> \<not> is_scheduling_suspended t then ready_bitmap q OR bitmap_bit idx else ready_bitmap q)"
    using ok i by (intro bits_ok_update [of _ "ready_bitmap q"])
      (auto simp: queue_ok_def bits_ok_def schedulable_def MAX_THREADS_def bitmap)
  moreover have "ids_ok ((threads q)[idx := Some t])"
    using ok fresh by (intro ids_ok_update) (auto simp: queue_ok_def holds_id_def in_set_conv_nth)
  ultimately show ?thesis
    using res ok idx i occupied_update [OF i(1), of "Some t"]
    by (auto simp: queue_push_def queue_ok_def Let_def)
qed

lemma queue_remove_ok:
  assumes ok: "queue_ok q" and res: "queue_remove tid q = (r, q')"
  shows "queue_ok q'"
proof (cases "slot_index q tid")
  case None
  with res ok show ?thesis by (simp add: queue_remove_def)
next
  case (Some i)
  then obtain t where t: "i < length (threads q)" "threads q ! i = Some t" by (rule slot_index_Some)
  have "bits_ok ((threads q)[i := None]) (ready_bitmap q AND NOT (bitmap_bit i))"
    using ok by (intro bits_ok_update [of _ "ready_bitmap q"]) (auto simp: queue_ok_def bitmap)
  moreover have "ids_ok ((threads q)[i := None])"
    using ok by (intro ids_ok_update) (simp_all add: queue_ok_def)
  ultimately show ?thesis
    using res ok Some t(1) occupied_update [OF t(1), of None, unfolded t(2)]
    by (auto simp: queue_remove_def queue_ok_def)
qed

text \<open>Replacing the thread of an occupied slot by one with the same identifier.\<close>

lemma queue_ok_replace:
  assumes ok: "queue_ok q" and i: "i < length (threads q)" and t: "threads q ! i = Some t"
    and same: "thr_id t' = thr_id t"
    and bm: "\<And>j. j < MAX_THREADS \<Longrightarrow> bit bm j \<longleftrightarrow> (if j = i then schedulable t' else bit (ready_bitmap q) j)"
  shows "queue_ok (q\<lparr>threads := (threads q)[i := Some t'], ready_bitmap := bm\<rparr>)"
proof -
  have "bits_ok ((threads q)[i := Some t']) bm"
    using ok bm by (intro bits_ok_update [of _ "ready_bitmap q"]) (simp_all add: queue_ok_def)
  moreover have "ids_ok ((threads q)[i := Some t'])"
    using ok i t same by (intro ids_ok_update) (auto simp: queue_ok_def ids_ok_def)
  ultimately show ?thesis
    using ok t occupied_update [OF i, of "Some t'"] by (simp add: queue_ok_def)
qed

lemma set_state_at_slot_ok:
  assumes ok: "queue_ok q" and res: "set_state_at_slot slot st q = (r, q')"
  shows "queue_ok q'"
proof (cases "get_slot q slot")
  case None
  with res ok show ?thesis by (simp add: set_state_at_slot_def)
next
  case (Some t)
  then have t: "slot < length (threads q)" "threads q ! slot = Some t"
    by (auto simp: get_slot_def split: if_splits)
  show ?thesis
  proof (cases "thr_state t = Terminated \<and> st \<noteq> Terminated")
    case True
    with res ok Some show ?thesis by (simp add: set_state_at_slot_def)
  next
    case False
    define t' where "t' = t\<lparr>thr_state := st\<rparr>"
    define bm where "bm = (if thr_state t' = Ready \<and> \<not> is_scheduling_suspended t'
      then ready_bitmap q OR bitmap_bit slot else ready_bitmap q AND NOT (bitmap_bit slot))"
    have "q' = q\<lparr>threads := (threads q)[slot := Some t'], ready_bitmap := bm\<rparr>"
      using res Some False by (auto simp: set_state_at_slot_def Let_def t'_def bm_def)
    moreover have "queue_ok (q\<lparr>threads := (threads q)[slot := Some t'], ready_bitmap := bm\<rparr>)"
      using ok t by (intro queue_ok_replace)
        (auto simp: t'_def bm_def schedulable_def queue_ok_def MAX_THREADS_def bitmap)
    ultimately show ?thesis by simp
  qed
qed

lemma set_state_ok: "queue_ok q \<Longrightarrow> set_state tid st q = (r, q') \<Longrightarrow> queue_ok q'"
  using set_state_at_slot_ok by (auto simp: set_state_def split: option.splits)

lemma release_image_hold_ok:
  assumes ok: "queue_ok q"
  shows "queue_ok (release_image_hold tid q)"
proof (cases "slot_index q tid")
  case None
  with ok show ?thesis by (simp add: release_image_hold_def)
next
  case (Some i)
  then obtain t where t: "i < length (threads q)" "threads q ! i = Some t" by (rule slot_index_Some)
  have bit: "bit (ready_bitmap q) i \<longleftrightarrow> schedulable t" using ok t by (auto simp: queue_ok_def bits_ok_def)
  have mono: "schedulable t \<Longrightarrow> schedulable (t\<lparr>thr_image_held := False\<rparr>)"
    by (simp add: schedulable_def is_scheduling_suspended_def)
  define t' where "t' = t\<lparr>thr_image_held := False\<rparr>"
  define bm where "bm = (if thr_state t' = Ready \<and> \<not> is_scheduling_suspended t'
    then ready_bitmap q OR bitmap_bit i else ready_bitmap q)"
  have "release_image_hold tid q = q\<lparr>threads := (threads q)[i := Some t'], ready_bitmap := bm\<rparr>"
    using Some t by (simp add: release_image_hold_def Let_def t'_def bm_def)
  moreover have "bit bm j \<longleftrightarrow> (if j = i then schedulable t' else bit (ready_bitmap q) j)" for j
    using ok t bit mono by (auto simp: bm_def t'_def schedulable_def queue_ok_def MAX_THREADS_def bitmap)
  ultimately show ?thesis using queue_ok_replace [OF ok t, of t' bm] by (simp add: t'_def)
qed

lemma replace_ipc_generation_ok:
  assumes ok: "queue_ok q" and res: "replace_ipc_generation tid g q = (r, q')"
  shows "queue_ok q'"
proof (cases "slot_index q tid")
  case None
  with res ok show ?thesis by (simp add: replace_ipc_generation_def)
next
  case (Some i)
  then obtain t where t: "i < length (threads q)" "threads q ! i = Some t" by (rule slot_index_Some)
  define t' where "t' = t\<lparr>thr_ipc_generation := g, thr_pending_wakeup := False\<rparr>"
  have "bit (ready_bitmap q) j \<longleftrightarrow> (if j = i then schedulable t' else bit (ready_bitmap q) j)" for j
    using ok t by (auto simp: queue_ok_def bits_ok_def t'_def schedulable_def is_scheduling_suspended_def)
  with queue_ok_replace [OF ok t, of t' "ready_bitmap q"] have "queue_ok (q\<lparr>threads := (threads q)[i := Some t']\<rparr>)"
    by (simp add: t'_def)
  with res Some t show ?thesis by (auto simp: replace_ipc_generation_def t'_def)
qed

subsection \<open>The loops over all slots\<close>

text \<open>A loop maps one function over the slots and rewrites the bits of the slots it touches.\<close>

lemma queue_ok_map:
  assumes ok: "queue_ok q" and none: "f None = None"
    and some: "\<And>t. \<exists>t'. f (Some t) = Some t' \<and> thr_id t' = thr_id t"
    and bits: "bits_ok (map f (threads q)) bm"
  shows "queue_ok (q\<lparr>threads := map f (threads q), ready_bitmap := bm\<rparr>)"
proof -
  have f_iff: "f s \<noteq> None \<longleftrightarrow> s \<noteq> None" for s using none some by (cases s) force+
  have "occupied (map f ts) = occupied ts" for ts
    using f_iff by (simp add: occupied_def filter_map comp_def)
  moreover have "ids_ok (map f (threads q))"
    unfolding ids_ok_def
  proof (intro allI impI)
    fix i j t u
    assume ij: "i < length (map f (threads q))" "j < length (map f (threads q))"
      and eq: "map f (threads q) ! i = Some t" "map f (threads q) ! j = Some u" "thr_id t = thr_id u"
    then obtain t0 u0 where "threads q ! i = Some t0" "threads q ! j = Some u0"
      using f_iff by (metis length_map not_None_eq nth_map)
    with ij eq some [of t0] some [of u0] have "thr_id t0 = thr_id u0" by auto
    with ok ij \<open>threads q ! i = Some t0\<close> \<open>threads q ! j = Some u0\<close> show "i = j"
      by (auto simp: queue_ok_def ids_ok_def)
  qed
  ultimately show ?thesis using ok bits by (simp add: queue_ok_def)
qed

text \<open>The bits a loop touches: those of the slots that satisfy a predicate, counted from \<open>k\<close>.\<close>

definition slot_sat :: "(thread option \<Rightarrow> bool) \<Rightarrow> nat \<Rightarrow> thread option list \<Rightarrow> nat \<Rightarrow> bool" where
  "slot_sat P k ts j \<longleftrightarrow> k \<le> j \<and> j < k + length ts \<and> P (ts ! (j - k))"

lemma slot_sat_simps [simp]:
  "\<not> slot_sat P k [] j"
  "slot_sat P k (s # ts) j \<longleftrightarrow> j = k \<and> P s \<or> slot_sat P (Suc k) ts j"
proof -
  show "\<not> slot_sat P k [] j" by (simp add: slot_sat_def)
  show "slot_sat P k (s # ts) j \<longleftrightarrow> j = k \<and> P s \<or> slot_sat P (Suc k) ts j"
  proof (cases "k < j")
    case True
    then have "j - k = Suc (j - Suc k)" by simp
    with True show ?thesis by (auto simp: slot_sat_def)
  next
    case False
    then show ?thesis by (auto simp: slot_sat_def)
  qed
qed

lemma slot_sat_0: "j < length ts \<Longrightarrow> slot_sat P 0 ts j \<longleftrightarrow> P (ts ! j)"
  by (simp add: slot_sat_def)

fun on_thread :: "(thread \<Rightarrow> bool) \<Rightarrow> thread option \<Rightarrow> bool" where
  "on_thread P None = False"
| "on_thread P (Some t) = P t"

definition suspends :: "u64 \<Rightarrow> thread \<Rightarrow> bool" where
  "suspends pid t \<longleftrightarrow> thr_process_id t = pid \<and> fst (thread_suspend t)"

definition suspend_thread :: "u64 \<Rightarrow> thread \<Rightarrow> thread" where
  "suspend_thread pid t = (if suspends pid t then snd (thread_suspend t) else t)"

lemma suspend_loop_eq:
  assumes "suspend_loop pid k ts bm = (n, ts', bm')"
  shows "ts' = map (map_option (suspend_thread pid)) ts \<and>
    n = length (filter (on_thread (suspends pid)) ts) \<and>
    (\<forall>j. bit bm' j \<longleftrightarrow> bit bm j \<and> \<not> slot_sat (on_thread (suspends pid)) k ts j)"
  using assms
  by (induction pid k ts bm arbitrary: n ts' bm' rule: suspend_loop.induct)
    (auto simp: suspend_thread_def suspends_def bitmap split: prod.splits if_splits)

lemma suspend_process_ok:
  assumes ok: "queue_ok q" and res: "suspend_process pid q = (n, q')"
  shows "queue_ok q'"
proof -
  obtain ts bm where l: "suspend_loop pid 0 (threads q) (ready_bitmap q) = (n, ts, bm)"
    and q': "q' = q\<lparr>threads := ts, ready_bitmap := bm\<rparr>"
    using res by (auto simp: suspend_process_def split: prod.splits)
  note eq = suspend_loop_eq [OF l]
  have "slot_ready (map_option (suspend_thread pid) s) \<longleftrightarrow> slot_ready s \<and> \<not> on_thread (suspends pid) s" for s
    by (cases s) (auto simp: suspend_thread_def suspends_def thread_suspend_def schedulable_def
        is_scheduling_suspended_def)
  with ok eq have "bits_ok (map (map_option (suspend_thread pid)) (threads q)) bm"
    by (simp add: bits_ok_def queue_ok_def slot_sat_0)
  with queue_ok_map [OF ok, of "map_option (suspend_thread pid)" bm] eq q' show ?thesis
    by (simp add: suspend_thread_def thread_suspend_def)
qed

definition holds_sibling :: "u64 \<Rightarrow> u64 \<Rightarrow> thread \<Rightarrow> bool" where
  "holds_sibling pid owner t \<longleftrightarrow> thr_process_id t = pid \<and> thr_id t \<noteq> owner"

definition hold_thread :: "u64 \<Rightarrow> u64 \<Rightarrow> thread \<Rightarrow> thread" where
  "hold_thread pid owner t = (if holds_sibling pid owner t then t\<lparr>thr_image_held := True\<rparr> else t)"

lemma hold_loop_eq:
  assumes "hold_loop pid owner k ts bm = (held, ts', bm')"
  shows "ts' = map (map_option (hold_thread pid owner)) ts \<and>
    held = map (thr_id \<circ> the) (filter (on_thread (holds_sibling pid owner)) ts) \<and>
    (\<forall>j. bit bm' j \<longleftrightarrow> bit bm j \<and> \<not> slot_sat (on_thread (holds_sibling pid owner)) k ts j)"
  using assms
  by (induction pid owner k ts bm arbitrary: held ts' bm' rule: hold_loop.induct)
    (auto simp: hold_thread_def holds_sibling_def bitmap split: prod.splits if_splits)

lemma hold_image_siblings_ok:
  assumes ok: "queue_ok q" and res: "hold_image_siblings pid owner q = (held, q')"
  shows "queue_ok q'"
proof -
  obtain ts bm where l: "hold_loop pid owner 0 (threads q) (ready_bitmap q) = (held, ts, bm)"
    and q': "q' = q\<lparr>threads := ts, ready_bitmap := bm\<rparr>"
    using res by (auto simp: hold_image_siblings_def split: prod.splits)
  note eq = hold_loop_eq [OF l]
  have "slot_ready (map_option (hold_thread pid owner) s) \<longleftrightarrow>
      slot_ready s \<and> \<not> on_thread (holds_sibling pid owner) s" for s
    by (cases s) (auto simp: hold_thread_def schedulable_def is_scheduling_suspended_def)
  with ok eq have "bits_ok (map (map_option (hold_thread pid owner)) (threads q)) bm"
    by (simp add: bits_ok_def queue_ok_def slot_sat_0)
  with queue_ok_map [OF ok, of "map_option (hold_thread pid owner)" bm] eq q' show ?thesis
    by (simp add: hold_thread_def)
qed

definition resumes :: "u64 \<Rightarrow> thread \<Rightarrow> bool" where
  "resumes pid t \<longleftrightarrow> thr_process_id t = pid \<and> fst (thread_resume t)"

definition resume_thread :: "u64 \<Rightarrow> thread \<Rightarrow> thread" where
  "resume_thread pid t = (if resumes pid t then snd (thread_resume t) else t)"

lemma resume_loop_eq:
  assumes "resume_loop pid k ts bm = (found, n, ts', bm')" and "k + length ts \<le> 64"
  shows "ts' = map (map_option (resume_thread pid)) ts \<and>
    (found \<longleftrightarrow> (\<exists>t. Some t \<in> set ts \<and> thr_process_id t = pid)) \<and>
    n = length (filter (on_thread (resumes pid)) ts) \<and>
    (\<forall>j. bit bm' j \<longleftrightarrow> bit bm j \<or>
       slot_sat (on_thread (\<lambda>t. resumes pid t \<and> schedulable (resume_thread pid t))) k ts j)"
  using assms
  by (induction pid k ts bm arbitrary: found n ts' bm' rule: resume_loop.induct)
    (auto simp: resume_thread_def resumes_def schedulable_def bitmap Let_def split: prod.splits if_splits)

lemma resume_process_ok:
  assumes ok: "queue_ok q" and res: "resume_process pid q = (n, q')"
  shows "queue_ok q'"
proof -
  obtain found k ts bm where l: "resume_loop pid 0 (threads q) (ready_bitmap q) = (found, k, ts, bm)"
    and q': "q' = q\<lparr>threads := ts, ready_bitmap := bm\<rparr>"
    using res by (auto simp: resume_process_def split: prod.splits)
  have "0 + length (threads q) \<le> 64" using ok by (simp add: queue_ok_def MAX_THREADS_def)
  note eq = resume_loop_eq [OF l this]
  have "slot_ready (map_option (resume_thread pid) s) \<longleftrightarrow>
      slot_ready s \<or> on_thread (\<lambda>t. resumes pid t \<and> schedulable (resume_thread pid t)) s" for s
    by (cases s) (auto simp: resume_thread_def resumes_def thread_resume_def schedulable_def
        is_scheduling_suspended_def)
  with ok eq have "bits_ok (map (map_option (resume_thread pid)) (threads q)) bm"
    by (simp add: bits_ok_def queue_ok_def slot_sat_0)
  with queue_ok_map [OF ok, of "map_option (resume_thread pid)" bm] eq q' show ?thesis
    by (simp add: resume_thread_def thread_resume_def)
qed

section \<open>Round-robin selection\<close>

definition cyc_dist :: "nat \<Rightarrow> nat \<Rightarrow> nat" where
  "cyc_dist start s = (s + MAX_THREADS - start) mod MAX_THREADS"

lemma cyc_dist_less: "cyc_dist start s < MAX_THREADS"
  by (simp add: cyc_dist_def MAX_THREADS_def)

lemma mod_slots: "x < 2 * MAX_THREADS \<Longrightarrow> x mod MAX_THREADS = (if x < MAX_THREADS then x else x - MAX_THREADS)"
  by (simp add: le_mod_geq MAX_THREADS_def)

lemma cyc_dist_cases:
  assumes "start < MAX_THREADS" and "s < MAX_THREADS"
  shows "cyc_dist start s = (if start \<le> s then s - start else s + MAX_THREADS - start)"
  using assms mod_slots [of "s + MAX_THREADS - start"] by (auto simp: cyc_dist_def)

lemma cyc_dist_reach:
  assumes "start < MAX_THREADS" and "s < MAX_THREADS"
  shows "(start + cyc_dist start s) mod MAX_THREADS = s"
  using assms mod_slots [of "start + cyc_dist start s"] by (auto simp: cyc_dist_cases)

lemma cyc_dist_offset:
  assumes "start < MAX_THREADS" and "i < MAX_THREADS"
  shows "cyc_dist start ((start + i) mod MAX_THREADS) = i"
  using assms mod_slots [of "start + i"] by (auto simp: cyc_dist_cases)

text \<open>Moving the start just past a slot that comes before the target brings the target nearer.\<close>

lemma cyc_dist_advance:
  assumes "start < MAX_THREADS" and "s < MAX_THREADS" and "p < MAX_THREADS" and "p \<noteq> s"
    and "cyc_dist start p \<le> cyc_dist start s"
  shows "cyc_dist ((p + 1) mod MAX_THREADS) s < cyc_dist start s"
  using assms mod_slots [of "p + 1"] by (auto simp: cyc_dist_cases split: if_splits)

definition nearest :: "(nat \<Rightarrow> bool) \<Rightarrow> nat \<Rightarrow> nat \<Rightarrow> bool" where
  "nearest E start s \<longleftrightarrow> s < MAX_THREADS \<and> E s \<and>
     (\<forall>s'<MAX_THREADS. E s' \<longrightarrow> cyc_dist start s \<le> cyc_dist start s')"

lemma cyclic_search:
  assumes start: "start < MAX_THREADS"
  shows "case find_map (\<lambda>i. if E ((start + i) mod MAX_THREADS) then Some ((start + i) mod MAX_THREADS) else None)
           [0..<MAX_THREADS] of
         None \<Rightarrow> (\<forall>s<MAX_THREADS. \<not> E s)
       | Some s \<Rightarrow> nearest E start s"
proof (cases "find_map (\<lambda>i. if E ((start + i) mod MAX_THREADS) then Some ((start + i) mod MAX_THREADS) else None)
    [0..<MAX_THREADS]")
  case None
  have "\<not> E s" if "s < MAX_THREADS" for s
    using None cyc_dist_less [of start s] cyc_dist_reach [OF start that]
    by (force simp: find_map_None_iff split: if_splits)
  with None show ?thesis by simp
next
  case (Some s)
  let ?f = "\<lambda>i. if E ((start + i) mod MAX_THREADS) then Some ((start + i) mod MAX_THREADS) else None"
  from find_map_SomeD [OF Some] obtain i where i': "i < MAX_THREADS" "?f ([0..<MAX_THREADS] ! i) = Some s"
    "\<forall>j<i. ?f ([0..<MAX_THREADS] ! j) = None"
    by (metis (no_types, lifting) diff_zero length_upt)
  then have i: "i < MAX_THREADS" "s = (start + i) mod MAX_THREADS" "E s" by (simp_all split: if_splits)
  have before: "\<not> E ((start + j) mod MAX_THREADS)" if "j < i" for j
    using i'(3) that i(1) by (auto split: if_splits)
  have "cyc_dist start s \<le> cyc_dist start s'" if "s' < MAX_THREADS" "E s'" for s'
  proof (rule ccontr)
    assume "\<not> ?thesis"
    then have "cyc_dist start s' < i" using cyc_dist_offset [OF start i(1)] i(2) by simp
    with before [of "cyc_dist start s'"] cyc_dist_reach [OF start that(1)] that(2) show False by simp
  qed
  moreover have "s < MAX_THREADS" using i(2) by (simp add: MAX_THREADS_def)
  ultimately show ?thesis using Some i(3) by (simp add: nearest_def)
qed

definition slot_eligible :: "thread_queue \<Rightarrow> nat \<Rightarrow> nat \<Rightarrow> bool" where
  "slot_eligible q cpu s \<longleftrightarrow> slot_ready (threads q ! s) \<and> cpu_may_run q cpu s"

lemma selection_start_less: "queue_ok q \<Longrightarrow> selection_start cur q < MAX_THREADS"
  by (auto simp: selection_start_def queue_ok_def MAX_THREADS_def split: option.splits)

lemma ready_bit_iff: "queue_ok q \<Longrightarrow> s < MAX_THREADS \<Longrightarrow> bit (ready_bitmap q) s \<longleftrightarrow> slot_ready (threads q ! s)"
  by (simp add: queue_ok_def bits_ok_def)

lemma no_ready_slot:
  "queue_ok q \<Longrightarrow> ready_bitmap q = 0 \<Longrightarrow> s < MAX_THREADS \<Longrightarrow> \<not> slot_ready (threads q ! s)"
  using ready_bit_iff [of q s] by simp

lemma next_ready_slot_for_cpu_nearest:
  assumes ok: "queue_ok q"
  shows "case next_ready_slot_for_cpu_after cur cpu q of
      (None, q') \<Rightarrow> q' = q \<and> (\<forall>s<MAX_THREADS. \<not> slot_eligible q cpu s)
    | (Some s, q') \<Rightarrow> nearest (slot_eligible q cpu) (selection_start cur q) s \<and>
        q' = q\<lparr>rr_cursor := (s + 1) mod MAX_THREADS\<rparr>"
proof (cases "ready_bitmap q = 0")
  case True
  with no_ready_slot [OF ok True] show ?thesis
    by (auto simp: next_ready_slot_for_cpu_after_def slot_eligible_def)
next
  case False
  define start where "start = selection_start cur q"
  have conv: "(\<lambda>offset. if ready_bitmap q AND bitmap_bit ((start + offset) mod MAX_THREADS) = 0 then None
        else if cpu_may_run q cpu ((start + offset) mod MAX_THREADS)
             then Some ((start + offset) mod MAX_THREADS) else None) =
      (\<lambda>i. if slot_eligible q cpu ((start + i) mod MAX_THREADS) then Some ((start + i) mod MAX_THREADS) else None)"
    using ready_bit_iff [OF ok, of "(start + _) mod MAX_THREADS"]
    by (intro ext) (simp add: bitmap_test_zero slot_eligible_def MAX_THREADS_def)
  note search = cyclic_search [OF selection_start_less [OF ok, of cur], of "slot_eligible q cpu", folded start_def]
  have "next_ready_slot_for_cpu_after cur cpu q =
    (case find_map (\<lambda>i. if slot_eligible q cpu ((start + i) mod MAX_THREADS)
        then Some ((start + i) mod MAX_THREADS) else None) [0..<MAX_THREADS] of
       None \<Rightarrow> (None, q) | Some s \<Rightarrow> (Some s, q\<lparr>rr_cursor := (s + 1) mod MAX_THREADS\<rparr>))"
    unfolding next_ready_slot_for_cpu_after_def Let_def start_def [symmetric] conv using False by simp
  with search show ?thesis by (simp add: start_def split: option.splits)
qed

lemma next_ready_slot_nearest:
  assumes ok: "queue_ok q"
  shows "case next_ready_slot_after cur q of
      (None, q') \<Rightarrow> q' = q \<and> (\<forall>s<MAX_THREADS. \<not> slot_ready (threads q ! s))
    | (Some s, q') \<Rightarrow> nearest (\<lambda>s. slot_ready (threads q ! s)) (selection_start cur q) s \<and>
        q' = q\<lparr>rr_cursor := (s + 1) mod MAX_THREADS\<rparr>"
proof (cases "ready_bitmap q = 0")
  case True
  with no_ready_slot [OF ok True] show ?thesis by (auto simp: next_ready_slot_after_def)
next
  case False
  define start where "start = selection_start cur q"
  have conv: "(\<lambda>i. if ready_bitmap q AND bitmap_bit ((start + i) mod MAX_THREADS) \<noteq> 0
        then Some ((start + i) mod MAX_THREADS) else None) =
      (\<lambda>i. if slot_ready (threads q ! ((start + i) mod MAX_THREADS)) then Some ((start + i) mod MAX_THREADS) else None)"
    using ready_bit_iff [OF ok, of "(start + _) mod MAX_THREADS"]
    by (intro ext) (simp add: bitmap_test MAX_THREADS_def)
  note search = cyclic_search [OF selection_start_less [OF ok, of cur], of "\<lambda>s. slot_ready (threads q ! s)", folded start_def]
  have "next_ready_slot_after cur q =
    (case find_map (\<lambda>i. if slot_ready (threads q ! ((start + i) mod MAX_THREADS))
        then Some ((start + i) mod MAX_THREADS) else None) [0..<MAX_THREADS] of
       None \<Rightarrow> (None, q) | Some s \<Rightarrow> (Some s, q\<lparr>rr_cursor := (s + 1) mod MAX_THREADS\<rparr>))"
    unfolding next_ready_slot_after_def ready_mask_from_slot_def Let_def start_def [symmetric] conv using False by simp
  with search show ?thesis by (simp add: start_def split: option.splits)
qed

text \<open>Repeated selection on one CPU, each time continuing after the slot picked last.\<close>

fun selections :: "nat \<Rightarrow> nat \<Rightarrow> nat option \<Rightarrow> thread_queue \<Rightarrow> nat list" where
  "selections cpu 0 cur q = []"
| "selections cpu (Suc n) cur q =
     (case next_ready_slot_for_cpu_after cur cpu q of
        (None, q') \<Rightarrow> []
      | (Some s, q') \<Rightarrow> s # selections cpu n (Some s) q')"

lemma queue_ok_cursor: "queue_ok q \<Longrightarrow> c < MAX_THREADS \<Longrightarrow> queue_ok (q\<lparr>rr_cursor := c\<rparr>)"
  by (simp add: queue_ok_def)

lemma slot_eligible_cursor [simp]: "slot_eligible (q\<lparr>rr_cursor := c\<rparr>) = slot_eligible q"
  by (intro ext) (simp add: slot_eligible_def cpu_may_run_def get_slot_def)

lemma selections_reach:
  assumes "queue_ok q" and "s < MAX_THREADS" and "slot_eligible q cpu s"
    and "cyc_dist (selection_start cur q) s < n"
  shows "s \<in> set (selections cpu n cur q)"
  using assms
proof (induction n arbitrary: cur q)
  case 0
  then show ?case by simp
next
  case (Suc n)
  note sel = next_ready_slot_for_cpu_nearest [OF Suc.prems(1), of cpu cur]
  show ?case
  proof (cases "fst (next_ready_slot_for_cpu_after cur cpu q)")
    case None
    with sel Suc.prems show ?thesis by (auto split: prod.splits)
  next
    case (Some p)
    define q' where "q' = q\<lparr>rr_cursor := (p + 1) mod MAX_THREADS\<rparr>"
    from Some sel have r: "next_ready_slot_for_cpu_after cur cpu q = (Some p, q')"
      and near: "nearest (slot_eligible q cpu) (selection_start cur q) p"
      by (auto simp: q'_def split: prod.splits)
    show ?thesis
    proof (cases "p = s")
      case True
      with r show ?thesis by simp
    next
      case False
      have "cyc_dist ((p + 1) mod MAX_THREADS) s < cyc_dist (selection_start cur q) s"
        using near Suc.prems False selection_start_less [OF Suc.prems(1)]
        by (intro cyc_dist_advance) (auto simp: nearest_def)
      moreover have "selection_start (Some p) q' = (p + 1) mod MAX_THREADS" by (simp add: selection_start_def)
      ultimately have "s \<in> set (selections cpu n (Some p) q')"
        using Suc.prems by (intro Suc.IH) (auto simp: q'_def intro: queue_ok_cursor simp: MAX_THREADS_def)
      with r show ?thesis by simp
    qed
  qed
qed

lemma next_ready_slot_after_ok: "queue_ok q \<Longrightarrow> next_ready_slot_after cur q = (r, q') \<Longrightarrow> queue_ok q'"
  using next_ready_slot_nearest [of q cur]
  by (cases r) (auto intro: queue_ok_cursor simp: MAX_THREADS_def)

lemma next_ready_slot_for_cpu_after_ok:
  "queue_ok q \<Longrightarrow> next_ready_slot_for_cpu_after cur cpu q = (r, q') \<Longrightarrow> queue_ok q'"
  using next_ready_slot_for_cpu_nearest [of q cpu cur]
  by (cases r) (auto intro: queue_ok_cursor simp: MAX_THREADS_def)

section \<open>The queue as a transition system\<close>

text \<open>One step is one call of an operation. A pushed thread carries a fresh identifier, as
  \<open>ThreadId::new\<close> draws them from a counter.\<close>

inductive queue_step :: "thread_queue \<Rightarrow> thread_queue \<Rightarrow> bool" where
  push: "\<not> holds_id (threads q) (thr_id t) \<Longrightarrow> queue_push adm t q = (r, q') \<Longrightarrow> queue_step q q'"
| remove: "queue_remove tid q = (rt, q') \<Longrightarrow> queue_step q q'"
| select: "next_ready_slot_after cur q = (rs, q') \<Longrightarrow> queue_step q q'"
| select_cpu: "next_ready_slot_for_cpu_after cur cpu q = (rs, q') \<Longrightarrow> queue_step q q'"
| state_at: "set_state_at_slot slot st q = (b, q') \<Longrightarrow> queue_step q q'"
| state: "set_state tid st q = (b, q') \<Longrightarrow> queue_step q q'"
| suspend: "suspend_process pid q = (n, q') \<Longrightarrow> queue_step q q'"
| resume: "resume_process pid q = (rn, q') \<Longrightarrow> queue_step q q'"
| hold: "hold_image_siblings pid owner q = (held, q') \<Longrightarrow> queue_step q q'"
| release_hold: "queue_step q (release_image_hold tid q)"
| replace: "replace_ipc_generation tid g q = (rp, q') \<Longrightarrow> queue_step q q'"
| begin_exit: "begin_thread_exit may tid q = (rx, q') \<Longrightarrow> queue_step q q'"
| mark: "mark_thread_terminated ref tid q = (rm, re, q') \<Longrightarrow> queue_step q q'"
| reap: "remove_quiescent_terminated_thread ref tid q = (rt, q') \<Longrightarrow> queue_step q q'"

lemma begin_thread_exit_cases:
  "begin_thread_exit may tid q = (rx, q') \<Longrightarrow> q' = q \<or> q' = snd (set_state tid Terminated q)"
  by (auto simp: begin_thread_exit_def Let_def split: option.splits if_splits)

lemma mark_thread_terminated_cases:
  "mark_thread_terminated ref tid q = (rm, re, q') \<Longrightarrow> q' = q \<or> q' = snd (set_state tid Terminated q)"
  by (auto simp: mark_thread_terminated_def Let_def split: option.splits prod.splits if_splits)

lemma remove_quiescent_cases:
  "remove_quiescent_terminated_thread ref tid q = (rt, q') \<Longrightarrow> q' = q \<or> q' = snd (queue_remove tid q)"
  by (auto simp: remove_quiescent_terminated_thread_def split: option.splits if_splits)

lemma queue_step_ok: "queue_step q q' \<Longrightarrow> queue_ok q \<Longrightarrow> queue_ok q'"
proof (induction rule: queue_step.induct)
  case (begin_exit may tid q rx q')
  with begin_thread_exit_cases [OF begin_exit(1)] show ?case by (metis prod.collapse set_state_ok)
next
  case (mark ref tid q rm re q')
  with mark_thread_terminated_cases [OF mark(1)] show ?case by (metis prod.collapse set_state_ok)
next
  case (reap ref tid q rt q')
  with remove_quiescent_cases [OF reap(1)] show ?case by (metis prod.collapse queue_remove_ok)
qed (blast intro: queue_push_ok queue_remove_ok next_ready_slot_after_ok next_ready_slot_for_cpu_after_ok
    set_state_at_slot_ok set_state_ok suspend_process_ok resume_process_ok hold_image_siblings_ok
    release_image_hold_ok replace_ipc_generation_ok)+

subsection \<open>What a step does to one slot\<close>

definition slot_evolves :: "thread option \<Rightarrow> thread option \<Rightarrow> bool" where
  "slot_evolves s s' \<longleftrightarrow>
     (\<forall>t. s = Some t \<longrightarrow> s' = None \<or>
        (\<exists>t'. s' = Some t' \<and> thr_id t' = thr_id t \<and> thr_process_id t' = thr_process_id t \<and>
           (thr_state t = Terminated \<longrightarrow> thr_state t' = Terminated)))"

lemma slot_evolves_refl [simp]: "slot_evolves s s"
  by (simp add: slot_evolves_def)

lemma slot_evolves_None [simp]: "slot_evolves s None" "slot_evolves None s"
  by (simp_all add: slot_evolves_def)

lemma slot_evolves_update:
  "j < length ts \<Longrightarrow> slot_evolves (ts ! j) s \<Longrightarrow> slot_evolves (ts ! i) (ts[j := s] ! i)"
  by (cases "i = j") simp_all

lemma set_state_at_slot_evolves:
  assumes "set_state_at_slot slot st q = (b, q')"
  shows "slot_evolves (threads q ! i) (threads q' ! i)"
proof (cases "get_slot q slot")
  case None
  with assms show ?thesis by (simp add: set_state_at_slot_def)
next
  case (Some t)
  then have t: "slot < length (threads q)" "threads q ! slot = Some t"
    by (auto simp: get_slot_def split: if_splits)
  show ?thesis
  proof (cases "thr_state t = Terminated \<and> st \<noteq> Terminated")
    case True
    with assms Some show ?thesis by (simp add: set_state_at_slot_def)
  next
    case False
    with assms Some have "threads q' = (threads q)[slot := Some (t\<lparr>thr_state := st\<rparr>)]"
      by (auto simp: set_state_at_slot_def Let_def)
    moreover have "slot_evolves (threads q ! slot) (Some (t\<lparr>thr_state := st\<rparr>))"
      using False t by (auto simp: slot_evolves_def)
    ultimately show ?thesis using slot_evolves_update [OF t(1)] by simp
  qed
qed

lemma set_state_evolves: "set_state tid st q = (b, q') \<Longrightarrow> slot_evolves (threads q ! i) (threads q' ! i)"
  using set_state_at_slot_evolves by (auto simp: set_state_def split: option.splits)

lemma queue_remove_evolves: "queue_remove tid q = (r, q') \<Longrightarrow> slot_evolves (threads q ! i) (threads q' ! i)"
  by (auto simp: queue_remove_def split: option.splits elim!: slot_index_Some intro!: slot_evolves_update)

lemma queue_push_evolves: "queue_push adm t q = (r, q') \<Longrightarrow> slot_evolves (threads q ! i) (threads q' ! i)"
  by (auto simp: queue_push_def Let_def split: option.splits if_splits dest!: position_Some
      intro!: slot_evolves_update)

lemma map_evolves:
  assumes "\<And>t. thr_id (f t) = thr_id t \<and> thr_process_id (f t) = thr_process_id t \<and>
      (thr_state t = Terminated \<longrightarrow> thr_state (f t) = Terminated)"
    and "i < length ts"
  shows "slot_evolves (ts ! i) (map (map_option f) ts ! i)"
  using assms by (simp add: slot_evolves_def)

lemma suspend_process_evolves:
  assumes "suspend_process pid q = (n, q')" and "i < length (threads q)"
  shows "slot_evolves (threads q ! i) (threads q' ! i)"
proof -
  obtain ts bm where l: "suspend_loop pid 0 (threads q) (ready_bitmap q) = (n, ts, bm)"
    and q': "q' = q\<lparr>threads := ts, ready_bitmap := bm\<rparr>"
    using assms(1) by (auto simp: suspend_process_def split: prod.splits)
  from suspend_loop_eq [OF l] q' map_evolves [of "suspend_thread pid", OF _ assms(2)] show ?thesis
    by (simp add: suspend_thread_def thread_suspend_def)
qed

lemma hold_image_siblings_evolves:
  assumes "hold_image_siblings pid owner q = (held, q')" and "i < length (threads q)"
  shows "slot_evolves (threads q ! i) (threads q' ! i)"
proof -
  obtain ts bm where l: "hold_loop pid owner 0 (threads q) (ready_bitmap q) = (held, ts, bm)"
    and q': "q' = q\<lparr>threads := ts, ready_bitmap := bm\<rparr>"
    using assms(1) by (auto simp: hold_image_siblings_def split: prod.splits)
  from hold_loop_eq [OF l] q' map_evolves [of "hold_thread pid owner", OF _ assms(2)] show ?thesis
    by (simp add: hold_thread_def)
qed

lemma resume_process_evolves:
  assumes "resume_process pid q = (n, q')" and "i < length (threads q)" and "length (threads q) \<le> 64"
  shows "slot_evolves (threads q ! i) (threads q' ! i)"
proof -
  obtain found k ts bm where l: "resume_loop pid 0 (threads q) (ready_bitmap q) = (found, k, ts, bm)"
    and q': "q' = q\<lparr>threads := ts, ready_bitmap := bm\<rparr>"
    using assms(1) by (auto simp: resume_process_def split: prod.splits)
  from resume_loop_eq [OF l] assms(3) q' map_evolves [of "resume_thread pid", OF _ assms(2)] show ?thesis
    by (simp add: resume_thread_def thread_resume_def)
qed

lemma replace_thread_evolves:
  "slot < length (threads q) \<Longrightarrow> threads q ! slot = Some t \<Longrightarrow> thr_id t' = thr_id t \<Longrightarrow>
    thr_process_id t' = thr_process_id t \<Longrightarrow> thr_state t' = thr_state t \<Longrightarrow>
    slot_evolves (threads q ! i) ((threads q)[slot := Some t'] ! i)"
  by (rule slot_evolves_update) (simp_all add: slot_evolves_def)

lemma release_image_hold_evolves: "slot_evolves (threads q ! i) (threads (release_image_hold tid q) ! i)"
  by (auto simp: release_image_hold_def Let_def split: option.splits elim!: slot_index_Some
      intro!: replace_thread_evolves)

lemma replace_ipc_generation_evolves:
  "replace_ipc_generation tid g q = (r, q') \<Longrightarrow> slot_evolves (threads q ! i) (threads q' ! i)"
  by (auto simp: replace_ipc_generation_def Let_def split: option.splits elim!: slot_index_Some
      intro!: replace_thread_evolves)

lemma queue_step_evolves:
  assumes "queue_step q q'" and "queue_ok q" and "i < MAX_THREADS"
  shows "slot_evolves (threads q ! i) (threads q' ! i)"
  using assms
proof (induction rule: queue_step.induct)
  case (select cur q rs q')
  then show ?case using next_ready_slot_nearest [of q cur] by (cases rs) auto
next
  case (select_cpu cur cpu q rs q')
  then show ?case using next_ready_slot_for_cpu_nearest [of q cpu cur] by (cases rs) auto
next
  case (begin_exit may tid q rx q')
  with begin_thread_exit_cases [OF begin_exit(1)] show ?case
    by (metis prod.collapse set_state_evolves slot_evolves_refl)
next
  case (mark ref tid q rm re q')
  with mark_thread_terminated_cases [OF mark(1)] show ?case
    by (metis prod.collapse set_state_evolves slot_evolves_refl)
next
  case (reap ref tid q rt q')
  with remove_quiescent_cases [OF reap(1)] show ?case
    by (metis prod.collapse queue_remove_evolves slot_evolves_refl)
qed (auto simp: queue_ok_def MAX_THREADS_def
    intro: queue_push_evolves queue_remove_evolves set_state_at_slot_evolves set_state_evolves
      suspend_process_evolves resume_process_evolves hold_image_siblings_evolves
      release_image_hold_evolves replace_ipc_generation_evolves)

section \<open>Properties\<close>

text \<open>C7: in every queue reached from the empty one by any sequence of operations, the counter is
  the number of occupied slots, thread identifiers are unique, the round-robin cursor is a slot,
  and the ready bitmap marks exactly the slots whose thread is ready and not suspended.\<close>

theorem reachable_queue_ok:
  assumes "queue_step\<^sup>*\<^sup>* queue_new q"
  shows "length (threads q) = MAX_THREADS \<and> rr_cursor q < MAX_THREADS \<and>
    thread_queue.count q = occupied (threads q) \<and> ids_ok (threads q) \<and>
    (\<forall>i<MAX_THREADS. bit (ready_bitmap q) i \<longleftrightarrow>
       (\<exists>t. threads q ! i = Some t \<and> thr_state t = Ready \<and>
          \<not> thr_scheduling_suspended t \<and> \<not> thr_image_held t))"
proof -
  from assms have "queue_ok q"
    by (induction rule: rtranclp_induct) (auto intro: queue_new_ok queue_step_ok)
  then show ?thesis
    by (auto simp: queue_ok_def bits_ok_def slot_ready_def schedulable_def is_scheduling_suspended_def
        split: option.splits)
qed

text \<open>A queue with one ready thread, on which the properties are exercised.\<close>

definition demo_thread :: thread where
  "demo_thread = \<lparr>thr_id = 1, thr_process_id = 7, thr_state = Ready, thr_scheduling_suspended = False,
     thr_image_held = False, thr_cpu_affinity = Some 3, thr_ipc_generation = 5, thr_pending_wakeup = False\<rparr>"

definition demo_queue :: thread_queue where
  "demo_queue = snd (queue_push (\<lambda>_. Some (4, True)) demo_thread queue_new)"

lemma demo_queue_step: "queue_step queue_new demo_queue"
proof (rule queue_step.push)
  show "\<not> holds_id (threads queue_new) (thr_id demo_thread)" by (simp add: holds_id_def queue_new_def)
  show "queue_push (\<lambda>_. Some (4, True)) demo_thread queue_new =
    (fst (queue_push (\<lambda>_. Some (4, True)) demo_thread queue_new), demo_queue)"
    by (simp add: demo_queue_def)
qed

lemma demo_queue_threads: "threads demo_queue = Some demo_thread # replicate 63 None"
proof -
  have "replicate MAX_THREADS None = None # replicate 63 (None :: thread option)"
    unfolding MAX_THREADS_def by (subst replicate_Suc [symmetric]) simp
  then show ?thesis
    by (simp add: demo_queue_def queue_push_def queue_new_def push_admitted_def Let_def)
      (simp add: MAX_THREADS_def)
qed

theorem reachable_queue_ok_witness:
  "length (threads demo_queue) = MAX_THREADS \<and> rr_cursor demo_queue < MAX_THREADS \<and>
    thread_queue.count demo_queue = occupied (threads demo_queue) \<and> ids_ok (threads demo_queue) \<and>
    bit (ready_bitmap demo_queue) 0 \<and> \<not> bit (ready_bitmap demo_queue) 1"
proof -
  have bits: "length (threads demo_queue) = MAX_THREADS \<and> rr_cursor demo_queue < MAX_THREADS \<and>
    thread_queue.count demo_queue = occupied (threads demo_queue) \<and> ids_ok (threads demo_queue) \<and>
    (\<forall>i<MAX_THREADS. bit (ready_bitmap demo_queue) i \<longleftrightarrow>
       (\<exists>t. threads demo_queue ! i = Some t \<and> thr_state t = Ready \<and>
          \<not> thr_scheduling_suspended t \<and> \<not> thr_image_held t))"
    by (rule reachable_queue_ok) (simp add: demo_queue_step r_into_rtranclp)
  have "0 < MAX_THREADS" and "1 < MAX_THREADS" by (simp_all add: MAX_THREADS_def)
  moreover have "threads demo_queue ! 0 = Some demo_thread" and "threads demo_queue ! 1 = None"
    by (simp_all add: demo_queue_threads)
  moreover have "thr_state demo_thread = Ready \<and> \<not> thr_scheduling_suspended demo_thread \<and> \<not> thr_image_held demo_thread"
    by (simp add: demo_thread_def)
  ultimately show ?thesis using bits by (metis option.distinct(1))
qed

text \<open>C8: no ready thread starves. From any well-formed queue and any current slot, 64 consecutive
  selections on a CPU pick every slot whose thread that CPU may run.\<close>

theorem selection_reaches_every_ready_thread:
  assumes "queue_ok q" and "s < MAX_THREADS" and "slot_eligible q cpu s"
  shows "s \<in> set (selections cpu MAX_THREADS cur q)"
  using assms cyc_dist_less by (rule selections_reach)

theorem selection_reaches_every_ready_thread_witness:
  "0 \<in> set (selections 3 MAX_THREADS None demo_queue)"
proof (rule selection_reaches_every_ready_thread)
  show "queue_ok demo_queue" by (rule queue_step_ok [OF demo_queue_step queue_new_ok])
  show "0 < MAX_THREADS" by (simp add: MAX_THREADS_def)
  then show "slot_eligible demo_queue 3 0"
    by (simp add: demo_queue_threads slot_eligible_def cpu_may_run_def get_slot_def demo_thread_def schedulable_def
        is_scheduling_suspended_def)
qed

text \<open>C21: a step never changes the identity of the thread in a slot and never revives a terminated
  thread: whatever state the thread is in, its slot keeps a thread with the same identifier and the
  same process until it is emptied, and that thread stays terminated once it is.\<close>

theorem terminated_thread_stays_terminated:
  assumes "queue_step q q'" and "queue_ok q" and "i < MAX_THREADS" and "threads q ! i = Some t"
  shows "threads q' ! i = None \<or>
    (\<exists>t'. threads q' ! i = Some t' \<and> thr_id t' = thr_id t \<and> thr_process_id t' = thr_process_id t \<and>
       (thr_state t = Terminated \<longrightarrow> thr_state t' = Terminated))"
  using queue_step_evolves [OF assms(1-3)] assms(4) by (auto simp: slot_evolves_def)

definition demo_dead_queue :: thread_queue where
  "demo_dead_queue = snd (set_state_at_slot 0 Terminated demo_queue)"

lemma demo_dead_queue_threads:
  "threads demo_dead_queue = Some (demo_thread\<lparr>thr_state := Terminated\<rparr>) # replicate 63 None"
  by (simp add: demo_dead_queue_def set_state_at_slot_def get_slot_def demo_queue_threads demo_thread_def)

lemma demo_dead_queue_ok: "queue_ok demo_dead_queue"
  unfolding demo_dead_queue_def
  by (rule set_state_at_slot_ok [OF queue_step_ok [OF demo_queue_step queue_new_ok]]) (rule surjective_pairing)

theorem terminated_thread_stays_terminated_witness:
  "\<exists>t'. threads (snd (set_state_at_slot 0 Ready demo_dead_queue)) ! 0 = Some t' \<and> thr_id t' = thr_id demo_thread \<and>
    thr_process_id t' = thr_process_id demo_thread \<and> thr_state t' = Terminated"
proof -
  have "queue_step demo_dead_queue (snd (set_state_at_slot 0 Ready demo_dead_queue))"
    by (rule queue_step.state_at) (rule surjective_pairing)
  moreover have at: "threads demo_dead_queue ! 0 = Some (demo_thread\<lparr>thr_state := Terminated\<rparr>)"
    by (simp add: demo_dead_queue_threads)
  moreover have "threads (snd (set_state_at_slot 0 Ready demo_dead_queue)) ! 0 \<noteq> None"
    using at by (simp add: set_state_at_slot_def get_slot_def demo_dead_queue_threads)
  ultimately show ?thesis
    using terminated_thread_stays_terminated [OF _ demo_dead_queue_ok, of _ 0 "demo_thread\<lparr>thr_state := Terminated\<rparr>"]
    by (force simp: MAX_THREADS_def)
qed

end
