(* ===== verification/Process_Access.thy ===== *)
theory Process_Access
  imports Prelude
begin

text \<open>
  Access to the process table, \<^verbatim>\<open>src/task/process.rs\<close>: a function runs on the process with the
  given identifier while the table is locked, and its absence is \<open>None\<close>. The table is a
  partial map, since identifiers are unique; each component instantiates it with the part of a
  process it reads and writes.
\<close>

type_synonym 'p processes = "u64 \<Rightarrow> 'p option"

definition with_process :: "'p processes \<Rightarrow> u64 \<Rightarrow> ('p \<Rightarrow> 'r) \<Rightarrow> 'r option" where
  "with_process table pid f = map_option f (table pid)"

definition with_process_mut :: "'p processes \<Rightarrow> u64 \<Rightarrow> ('p \<Rightarrow> 'r \<times> 'p) \<Rightarrow> 'r option \<times> 'p processes" where
  "with_process_mut table pid f =
     (case table pid of
        None \<Rightarrow> (None, table)
      | Some p \<Rightarrow> (let (r, p') = f p in (Some r, table(pid \<mapsto> p'))))"

definition with_process_pair_mut ::
    "'p processes \<Rightarrow> u64 \<Rightarrow> u64 \<Rightarrow> ('p \<Rightarrow> 'p \<Rightarrow> 'r \<times> 'p \<times> 'p) \<Rightarrow> 'r option \<times> 'p processes" where
  "with_process_pair_mut table source destination f =
     (if source = destination then (None, table)
      else case (table source, table destination) of
        (Some p, Some q) \<Rightarrow>
          (let (r, p', q') = f p q in (Some r, table(source \<mapsto> p', destination \<mapsto> q')))
      | _ \<Rightarrow> (None, table))"

lemma with_process_mut_Some:
  "table pid = Some p \<Longrightarrow> f p = (r, p') \<Longrightarrow> with_process_mut table pid f = (Some r, table(pid \<mapsto> p'))"
  by (simp add: with_process_mut_def)

lemma with_process_mut_None: "table pid = None \<Longrightarrow> with_process_mut table pid f = (None, table)"
  by (simp add: with_process_mut_def)

lemma with_process_mut_cases:
  assumes "with_process_mut table pid f = (r, table')"
  shows "(table pid = None \<and> r = None \<and> table' = table) \<or>
    (\<exists>p x p'. table pid = Some p \<and> f p = (x, p') \<and> r = Some x \<and> table' = table(pid \<mapsto> p'))"
  using assms by (auto simp: with_process_mut_def split: option.splits prod.splits)

end
