(* ===== verification/Ipc_Endpoints.thy ===== *)
theory Ipc_Endpoints
  imports Capability Thread_Queue Process_Access
begin

text \<open>
  The process table as authority checks see it (\<open>src/task/process.rs\<close>), the allocation of IPC
  lifetimes (\<open>src/task/ipc_generation.rs\<close>), and the registry of generation-checked endpoint
  handles (\<open>src/syscall/ipc.rs\<close>). A handle names a thread, its slot and one IPC lifetime of it;
  replacing the thread's image installs a new lifetime and kills the handle.

  \<open>ensure_endpoint_for_thread\<close> reads the thread queue three times without holding their lock in
  between; the model takes the three observations as separate arguments, so that the
  properties hold for any interleaving with image replacement and thread exit.
\<close>

section \<open>Processes\<close>

record cap_process =
  exe_path :: string
  capabilities :: capability_set
  kernel_authorities :: kernel_authority_set

type_synonym process_table = "cap_process processes"

definition process_has_capability :: "process_table \<Rightarrow> u64 \<Rightarrow> capability \<Rightarrow> bool" where
  "process_has_capability table pid c =
     (case with_process table pid (\<lambda>p. caps_contains (capabilities p) c) of Some b \<Rightarrow> b | None \<Rightarrow> False)"

definition process_has_kernel_authority :: "process_table \<Rightarrow> u64 \<Rightarrow> kernel_authority \<Rightarrow> bool" where
  "process_has_kernel_authority table pid a =
     (case with_process table pid (\<lambda>p. auths_implies (kernel_authorities p) a) of
        Some b \<Rightarrow> b | None \<Rightarrow> False)"

definition process_has_kernel_capability_authority ::
    "process_table \<Rightarrow> u64 \<Rightarrow> kernel_capability \<Rightarrow> bool" where
  "process_has_kernel_capability_authority table pid k =
     (case with_process table pid (\<lambda>p. auths_contains_capability (kernel_authorities p) k) of
        Some b \<Rightarrow> b | None \<Rightarrow> False)"

section \<open>IPC lifetimes\<close>

text \<open>\<open>ipc_generation::reserve\<close> and \<open>initial\<close>: the counter is the argument and a result.\<close>

definition reserve_generation :: "u64 \<Rightarrow> u64 option \<times> u64" where
  "reserve_generation nxt =
     (case checked_add nxt 1 of None \<Rightarrow> (None, nxt) | Some nxt' \<Rightarrow> (Some nxt, nxt'))"

definition initial_generation :: "u64 \<Rightarrow> u64 \<times> u64" where
  "initial_generation nxt =
     (case reserve_generation nxt of (None, nxt') \<Rightarrow> (0, nxt') | (Some g, nxt') \<Rightarrow> (g, nxt'))"

section \<open>Endpoint handles\<close>

definition EP_SEND :: u8 where "EP_SEND = 0x1"
definition EP_RECV :: u8 where "EP_RECV = 0x2"

definition ep_contains :: "u8 \<Rightarrow> u8 \<Rightarrow> bool" where
  "ep_contains rights other \<longleftrightarrow> rights AND other = other"

definition ep_union :: "u8 \<Rightarrow> u8 \<Rightarrow> u8" where
  "ep_union rights other = rights OR other"

record ipc_endpoint =
  ep_thread_id :: u64
  ep_slot :: u16
  ep_generation :: u64

record endpoint_record = ipc_endpoint +
  ep_rights :: u8

definition ENDPOINT_HANDLE_BASE :: u64 where
  "ENDPOINT_HANDLE_BASE = 0x40000000"

definition ENDPOINT_HANDLE_LIMIT :: u64 where
  "ENDPOINT_HANDLE_LIMIT = 0x7fffffff"

record endpoint_registry =
  next_endpoint_handle :: u64
  endpoints :: "u64 \<Rightarrow> endpoint_record option"
  default_endpoints :: "u64 \<Rightarrow> u64 option"

definition initial_endpoints :: endpoint_registry where
  "initial_endpoints =
     \<lparr>next_endpoint_handle = ENDPOINT_HANDLE_BASE, endpoints = Map.empty, default_endpoints = Map.empty\<rparr>"

definition endpoint_for_thread :: "thread_queue \<Rightarrow> u64 \<Rightarrow> ipc_endpoint option" where
  "endpoint_for_thread tq tid =
     (case ipc_slot_index_and_generation tq tid of
        None \<Rightarrow> None
      | Some (slot, generation) \<Rightarrow>
          Some \<lparr>ep_thread_id = tid, ep_slot = of_nat slot, ep_generation = generation\<rparr>)"

definition endpoint_is_valid :: "thread_queue \<Rightarrow> 'a ipc_endpoint_scheme \<Rightarrow> bool" where
  "endpoint_is_valid tq endpoint =
     (case live_ipc_slot_index_and_generation tq (ep_thread_id endpoint) of
        Some (slot, generation) \<Rightarrow>
          of_nat slot = ep_slot endpoint \<and> generation = ep_generation endpoint
      | None \<Rightarrow> False)"

definition endpoint_rights_for_process :: "process_table \<Rightarrow> u64 \<Rightarrow> u8" where
  "endpoint_rights_for_process table pid =
     (let rights = 0;
          rights = (if process_has_capability table pid IpcClient then ep_union rights EP_SEND else rights);
          rights = (if process_has_capability table pid IpcServer then ep_union rights EP_RECV else rights)
      in rights)"

definition endpoint_rights_for_thread :: "process_table \<Rightarrow> thread_queue \<Rightarrow> u64 \<Rightarrow> u8" where
  "endpoint_rights_for_thread table tq tid =
     (case thread_to_process_id tq tid of
        None \<Rightarrow> 0
      | Some pid \<Rightarrow> endpoint_rights_for_process table pid)"

definition endpoint_record_from_handle ::
    "thread_queue \<Rightarrow> endpoint_registry \<Rightarrow> u64 \<Rightarrow> endpoint_record option" where
  "endpoint_record_from_handle tq reg handle =
     (case endpoints reg handle of
        None \<Rightarrow> None
      | Some r \<Rightarrow> if endpoint_is_valid tq r then Some r else None)"

definition endpoint_alive :: "thread_queue \<Rightarrow> endpoint_registry \<Rightarrow> u64 \<Rightarrow> u64" where
  "endpoint_alive tq reg handle =
     (if handle \<noteq> 0 \<and> endpoint_record_from_handle tq reg handle \<noteq> None then 0
      else into_raw NotFound)"

definition record_matches_endpoint ::
    "'a ipc_endpoint_scheme \<Rightarrow> 'b ipc_endpoint_scheme \<Rightarrow> bool" where
  "record_matches_endpoint r e \<longleftrightarrow>
     ep_thread_id r = ep_thread_id e \<and> ep_slot r = ep_slot e \<and> ep_generation r = ep_generation e"

definition endpoint_is_owned_by ::
    "thread_queue \<Rightarrow> endpoint_registry \<Rightarrow> u64 \<Rightarrow> u64 \<Rightarrow> bool" where
  "endpoint_is_owned_by tq reg handle pid =
     (case endpoint_record_from_handle tq reg handle of
        None \<Rightarrow> False
      | Some r \<Rightarrow>
          thread_to_process_id tq (ep_thread_id r) = Some pid \<and> ep_contains (ep_rights r) EP_RECV)"

definition endpoint_handle_for_thread ::
    "thread_queue \<Rightarrow> endpoint_registry \<Rightarrow> u64 \<Rightarrow> u64 option \<times> endpoint_registry" where
  "endpoint_handle_for_thread tq reg tid =
     (case endpoint_for_thread tq tid of
        None \<Rightarrow> (None, reg)
      | Some endpoint \<Rightarrow>
          (case default_endpoints reg (ep_generation endpoint) of
             None \<Rightarrow> (None, reg)
           | Some handle \<Rightarrow>
               if (case endpoint_record_from_handle tq reg handle of
                     Some r \<Rightarrow> record_matches_endpoint r endpoint | None \<Rightarrow> False)
               then (Some handle, reg)
               else (None, if default_endpoints reg (ep_generation endpoint) = Some handle
                           then reg\<lparr>default_endpoints := (default_endpoints reg)(ep_generation endpoint := None)\<rparr>
                           else reg)))"

definition retire_endpoint_records :: "ipc_endpoint \<Rightarrow> endpoint_registry \<Rightarrow> endpoint_registry" where
  "retire_endpoint_records endpoint reg =
     reg\<lparr>default_endpoints := (default_endpoints reg)(ep_generation endpoint := None),
         endpoints := (\<lambda>h. case endpoints reg h of
                           None \<Rightarrow> None
                         | Some r \<Rightarrow> if record_matches_endpoint r endpoint then None else Some r)\<rparr>"

text \<open>The body of the closure that runs under the lock of the default handles.\<close>

definition create_default_endpoint ::
    "thread_queue \<Rightarrow> ipc_endpoint \<Rightarrow> u8 \<Rightarrow> endpoint_registry \<Rightarrow> u64 option \<times> endpoint_registry" where
  "create_default_endpoint tq endpoint rights reg =
     (if \<not> endpoint_is_valid tq endpoint then (None, reg)
      else case (case default_endpoints reg (ep_generation endpoint) of
                   Some handle \<Rightarrow>
                     (case endpoint_record_from_handle tq reg handle of
                        Some r \<Rightarrow> if record_matches_endpoint r endpoint then Some handle else None
                      | None \<Rightarrow> None)
                 | None \<Rightarrow> None) of
             Some handle \<Rightarrow> (Some handle, reg)
           | None \<Rightarrow>
               if next_endpoint_handle reg \<le> ENDPOINT_HANDLE_LIMIT then
                 (let handle = next_endpoint_handle reg;
                      r = \<lparr>ep_thread_id = ep_thread_id endpoint, ep_slot = ep_slot endpoint,
                           ep_generation = ep_generation endpoint, ep_rights = rights\<rparr>
                  in (Some handle,
                      reg\<lparr>next_endpoint_handle := handle + 1,
                          endpoints := (endpoints reg)(handle \<mapsto> r),
                          default_endpoints := (default_endpoints reg)(ep_generation endpoint \<mapsto> handle)\<rparr>))
               else (None, reg))"

definition ensure_endpoint_for_thread ::
    "process_table \<Rightarrow> thread_queue \<Rightarrow> thread_queue \<Rightarrow> thread_queue \<Rightarrow> u64 \<Rightarrow> endpoint_registry \<Rightarrow>
     u64 option \<times> endpoint_registry" where
  "ensure_endpoint_for_thread table tq q1 q2 tid reg =
     (case endpoint_for_thread tq tid of
        None \<Rightarrow> (None, reg)
      | Some endpoint \<Rightarrow>
          (case create_default_endpoint q1 endpoint (endpoint_rights_for_thread table tq tid) reg of
             (None, reg') \<Rightarrow> (None, reg')
           | (Some handle, reg') \<Rightarrow>
               if \<not> endpoint_is_valid q2 endpoint then (None, retire_endpoint_records endpoint reg')
               else (Some handle, reg')))"

definition resolve_endpoint_handle :: "thread_queue \<Rightarrow> endpoint_registry \<Rightarrow> u64 \<Rightarrow> u64 option" where
  "resolve_endpoint_handle tq reg dest =
     map_option ep_thread_id (endpoint_record_from_handle tq reg dest)"

definition resolve_sender_thread_id :: "thread_queue \<Rightarrow> endpoint_registry \<Rightarrow> u64 \<Rightarrow> u64 option" where
  "resolve_sender_thread_id tq reg sender =
     (case resolve_endpoint_handle tq reg sender of
        Some tid \<Rightarrow> Some tid
      | None \<Rightarrow> map_option (\<lambda>_. sender) (ipc_slot_index_and_generation tq sender))"

text \<open>The records part of \<open>retire_endpoint\<close> and of \<open>replace_thread_image_endpoint\<close>; their effect
  on the mailboxes is modelled with them.\<close>

definition retire_endpoint :: "ipc_endpoint \<Rightarrow> endpoint_registry \<Rightarrow> endpoint_registry" where
  "retire_endpoint endpoint reg =
     (if unat (ep_slot endpoint) < MAX_THREADS then retire_endpoint_records endpoint reg else reg)"

definition replace_thread_image_endpoint ::
    "u64 \<Rightarrow> u64 \<Rightarrow> thread_queue \<Rightarrow> endpoint_registry \<Rightarrow> thread_queue \<times> endpoint_registry" where
  "replace_thread_image_endpoint tid generation tq reg =
     (case replace_ipc_generation tid generation tq of
        (None, tq') \<Rightarrow> (tq', reg)
      | (Some (slot, previous), tq') \<Rightarrow>
          (tq', retire_endpoint \<lparr>ep_thread_id = tid, ep_slot = of_nat slot, ep_generation = previous\<rparr> reg))"

definition ipc_create :: "process_table \<Rightarrow> thread_queue \<Rightarrow> thread_queue \<Rightarrow> thread_queue \<Rightarrow> u64 option \<Rightarrow>
    u64 \<Rightarrow> endpoint_registry \<Rightarrow> u64 \<times> endpoint_registry" where
  "ipc_create table tq q1 q2 current flags reg =
     (if flags \<noteq> 0 then (into_raw InvalidArgument, reg)
      else case current of
        None \<Rightarrow> (into_raw NotReady, reg)
      | Some tid \<Rightarrow>
          (case ensure_endpoint_for_thread table tq q1 q2 tid reg of
             (Some handle, reg') \<Rightarrow> (handle, reg')
           | (None, reg') \<Rightarrow> (into_raw ResourceUnavailable, reg')))"

section \<open>Invariant of the handle registry\<close>

definition endpoints_ok :: "endpoint_registry \<Rightarrow> bool" where
  "endpoints_ok reg \<longleftrightarrow>
     ENDPOINT_HANDLE_BASE \<le> next_endpoint_handle reg \<and>
     next_endpoint_handle reg \<le> ENDPOINT_HANDLE_LIMIT + 1 \<and>
     (\<forall>h r. endpoints reg h = Some r \<longrightarrow> ENDPOINT_HANDLE_BASE \<le> h \<and> h < next_endpoint_handle reg) \<and>
     (\<forall>g h. default_endpoints reg g = Some h \<longrightarrow> (\<exists>r. endpoints reg h = Some r \<and> ep_generation r = g))"

lemmas handle_bounds = ENDPOINT_HANDLE_BASE_def ENDPOINT_HANDLE_LIMIT_def

lemma initial_endpoints_ok: "endpoints_ok initial_endpoints"
  by (simp add: endpoints_ok_def initial_endpoints_def handle_bounds)

lemma retire_endpoint_records_ok:
  assumes "endpoints_ok reg"
  shows "endpoints_ok (retire_endpoint_records endpoint reg)"
  unfolding endpoints_ok_def
proof (intro conjI allI impI)
  fix g h assume d: "default_endpoints (retire_endpoint_records endpoint reg) g = Some h"
  then have g: "g \<noteq> ep_generation endpoint" "default_endpoints reg g = Some h"
    by (auto simp: retire_endpoint_records_def split: if_splits)
  with assms obtain r where "endpoints reg h = Some r" "ep_generation r = g"
    unfolding endpoints_ok_def by blast
  with g(1) show "\<exists>r. endpoints (retire_endpoint_records endpoint reg) h = Some r \<and> ep_generation r = g"
    by (auto simp: retire_endpoint_records_def record_matches_endpoint_def)
qed (use assms in \<open>auto simp: endpoints_ok_def retire_endpoint_records_def split: option.splits if_splits\<close>)

lemma retire_keeps:
  "endpoints reg h = Some r \<Longrightarrow> \<not> record_matches_endpoint r e \<Longrightarrow>
    endpoints (retire_endpoint_records e reg) h = Some r"
  by (simp add: retire_endpoint_records_def)

lemma retire_subset:
  "endpoints (retire_endpoint_records e reg) h = Some r \<Longrightarrow>
    endpoints reg h = Some r \<and> \<not> record_matches_endpoint r e"
  by (auto simp: retire_endpoint_records_def split: option.splits if_splits)

lemma matching_valid: "record_matches_endpoint r e \<Longrightarrow> endpoint_is_valid q r \<longleftrightarrow> endpoint_is_valid q e"
  by (auto simp: record_matches_endpoint_def endpoint_is_valid_def split: option.splits)

text \<open>What the locked part of handle creation does: nothing, find the default, or issue a handle.\<close>

lemma create_default_cases:
  assumes res: "create_default_endpoint q e rights reg = (r, reg')"
  obtains (none) "r = None" "reg' = reg"
    | (old) h x where "r = Some h" "reg' = reg" "endpoints reg h = Some x" "record_matches_endpoint x e"
    | (new) x where "next_endpoint_handle reg \<le> ENDPOINT_HANDLE_LIMIT" "r = Some (next_endpoint_handle reg)"
        "record_matches_endpoint x e"
        "reg' = reg\<lparr>next_endpoint_handle := next_endpoint_handle reg + 1,
          endpoints := (endpoints reg)(next_endpoint_handle reg \<mapsto> x),
          default_endpoints := (default_endpoints reg)(ep_generation e \<mapsto> next_endpoint_handle reg)\<rparr>"
proof -
  define d where "d = (case default_endpoints reg (ep_generation e) of
      Some handle \<Rightarrow>
        (case endpoint_record_from_handle q reg handle of
           Some r \<Rightarrow> if record_matches_endpoint r e then Some handle else None
         | None \<Rightarrow> None)
    | None \<Rightarrow> None)"
  have d: "\<exists>x. default_endpoints reg (ep_generation e) = Some h \<and> endpoints reg h = Some x \<and>
      record_matches_endpoint x e" if "d = Some h" for h
    using that by (auto simp: d_def endpoint_record_from_handle_def split: option.splits if_splits)
  have run: "create_default_endpoint q e rights reg =
    (if \<not> endpoint_is_valid q e then (None, reg)
     else case d of
       Some handle \<Rightarrow> (Some handle, reg)
     | None \<Rightarrow>
         if next_endpoint_handle reg \<le> ENDPOINT_HANDLE_LIMIT then
           (Some (next_endpoint_handle reg),
            reg\<lparr>next_endpoint_handle := next_endpoint_handle reg + 1,
              endpoints := (endpoints reg)(next_endpoint_handle reg \<mapsto>
                \<lparr>ep_thread_id = ep_thread_id e, ep_slot = ep_slot e, ep_generation = ep_generation e,
                 ep_rights = rights\<rparr>),
              default_endpoints := (default_endpoints reg)(ep_generation e \<mapsto> next_endpoint_handle reg)\<rparr>)
         else (None, reg))"
    unfolding create_default_endpoint_def d_def Let_def ..
  show thesis
  proof (cases "endpoint_is_valid q e \<and> (d \<noteq> None \<or> next_endpoint_handle reg \<le> ENDPOINT_HANDLE_LIMIT)")
    case False
    with run res have "r = None" "reg' = reg" by (auto split: if_splits)
    then show thesis by (rule none)
  next
    case True
    show thesis
    proof (cases d)
      case (Some h)
      with d [OF Some] True run res old [of h] show thesis by auto
    next
      case None
      with True run res show thesis by (intro new) (auto simp: record_matches_endpoint_def)
    qed
  qed
qed

lemma issue_handle_less:
  "next_endpoint_handle reg \<le> ENDPOINT_HANDLE_LIMIT \<Longrightarrow> next_endpoint_handle reg < next_endpoint_handle reg + 1"
  by (simp add: word_less_nat_alt word_le_nat_alt handle_bounds unat_word_ariths)

lemma unissued_free: "endpoints_ok reg \<Longrightarrow> endpoints reg (next_endpoint_handle reg) = None"
  by (cases "endpoints reg (next_endpoint_handle reg)") (auto simp: endpoints_ok_def)

lemma create_default_ok:
  assumes ok: "endpoints_ok reg" and res: "create_default_endpoint q e rights reg = (r, reg')"
  shows "endpoints_ok reg'"
  using res
proof (cases rule: create_default_cases)
  case (new x)
  have nd: "default_endpoints reg g \<noteq> Some (next_endpoint_handle reg)" for g
    using ok unissued_free [OF ok] unfolding endpoints_ok_def by (metis option.distinct(1))
  have "next_endpoint_handle reg + 1 \<le> ENDPOINT_HANDLE_LIMIT + 1"
    using new(1) by (simp add: word_le_nat_alt handle_bounds unat_word_ariths)
  with ok nd issue_handle_less [OF new(1)] new(3) show ?thesis
    unfolding new(4) endpoints_ok_def record_matches_endpoint_def
    by (auto split: if_splits intro: less_trans order.trans less_imp_le)
qed (use ok in simp_all)

lemma create_default_mono:
  assumes ok: "endpoints_ok reg" and res: "create_default_endpoint q e rights reg = (r, reg')"
    and old: "endpoints reg h = Some x"
  shows "endpoints reg' h = Some x"
  using res
proof (cases rule: create_default_cases)
  case (new y)
  with old unissued_free [OF ok] show ?thesis by auto
qed (use old in simp_all)

lemma create_default_only:
  assumes "create_default_endpoint q e rights reg = (r, reg')" and "endpoints reg' h = Some x"
  shows "endpoints reg h = Some x \<or> h = next_endpoint_handle reg \<and> record_matches_endpoint x e"
  using assms(1)
proof (cases rule: create_default_cases)
  case (new y)
  with assms(2) show ?thesis by (auto split: if_splits)
qed (use assms(2) in simp_all)

lemma create_default_next:
  assumes "create_default_endpoint q e rights reg = (r, reg')"
  shows "next_endpoint_handle reg \<le> next_endpoint_handle reg'"
  using assms
proof (cases rule: create_default_cases)
  case (new x)
  with issue_handle_less [OF new(1)] show ?thesis by simp
qed simp_all

lemma create_default_Some:
  assumes "create_default_endpoint q e rights reg = (Some h, reg')"
  obtains x where "endpoints reg' h = Some x" and "record_matches_endpoint x e"
  using assms by (cases rule: create_default_cases) (use that in auto)

section \<open>Valid endpoints\<close>

lemma ipc_slot_index_Some:
  assumes "ipc_slot_index_and_generation q tid = Some (s, g)"
  obtains t where "s < length (threads q)" and "threads q ! s = Some t" and "thr_id t = tid"
    and "thr_ipc_generation t = g" and "g \<noteq> 0" and "slot_index q tid = Some s"
  using assms slot_index_Some [of q tid s] that
  by (auto simp: ipc_slot_index_and_generation_def split: option.splits if_splits)

definition names_live_thread :: "thread_queue \<Rightarrow> 'a ipc_endpoint_scheme \<Rightarrow> nat \<Rightarrow> thread \<Rightarrow> bool" where
  "names_live_thread q e s t \<longleftrightarrow> s < MAX_THREADS \<and> threads q ! s = Some t \<and> thr_id t = ep_thread_id e \<and>
     thr_state t \<noteq> Terminated \<and> thr_ipc_generation t = ep_generation e \<and> ep_generation e \<noteq> 0 \<and>
     of_nat s = ep_slot e"

lemma endpoint_is_valid_iff:
  assumes "queue_ok q"
  shows "endpoint_is_valid q e \<longleftrightarrow> (\<exists>s t. names_live_thread q e s t)"
proof
  assume v: "endpoint_is_valid q e"
  then obtain s g t where t: "queue_get q (ep_thread_id e) = Some t" "thr_state t \<noteq> Terminated"
    and g: "ipc_slot_index_and_generation q (ep_thread_id e) = Some (s, g)"
    and e: "of_nat s = ep_slot e" "g = ep_generation e"
    by (auto simp: endpoint_is_valid_def live_ipc_slot_index_and_generation_def
        split: option.splits if_splits prod.splits)
  from g obtain u where "s < length (threads q)" "threads q ! s = Some u" "thr_id u = ep_thread_id e"
    "thr_ipc_generation u = g" "g \<noteq> 0" "slot_index q (ep_thread_id e) = Some s"
    by (rule ipc_slot_index_Some)
  with t e assms have "names_live_thread q e s u"
    by (simp add: names_live_thread_def queue_get_slot queue_ok_def)
  then show "\<exists>s t. names_live_thread q e s t" by blast
next
  assume "\<exists>s t. names_live_thread q e s t"
  then obtain s t where l: "names_live_thread q e s t" by blast
  then have "slot_index q (ep_thread_id e) = Some s"
    using slot_index_unique [of q s t] assms by (auto simp: names_live_thread_def queue_ok_def)
  with l show "endpoint_is_valid q e"
    by (simp add: names_live_thread_def endpoint_is_valid_def live_ipc_slot_index_and_generation_def
        queue_get_slot ipc_slot_index_and_generation_def)
qed

lemma valid_endpoint_for_thread:
  assumes "endpoint_is_valid q e"
  shows "endpoint_for_thread q (ep_thread_id e) =
    Some \<lparr>ep_thread_id = ep_thread_id e, ep_slot = ep_slot e, ep_generation = ep_generation e\<rparr>"
  using assms
  by (auto simp: endpoint_is_valid_def live_ipc_slot_index_and_generation_def endpoint_for_thread_def
      split: option.splits if_splits prod.splits)

lemma endpoint_for_thread_id: "endpoint_for_thread q tid = Some e \<Longrightarrow> ep_thread_id e = tid"
  by (auto simp: endpoint_for_thread_def split: option.splits)

text \<open>The cases of \<open>ensure_endpoint_for_thread\<close>.\<close>

lemma ensure_cases:
  assumes "ensure_endpoint_for_thread table q0 q1 q2 tid reg = (res, reg')"
  obtains (unknown) "endpoint_for_thread q0 tid = None" "res = None" "reg' = reg"
    | (refused) e rights where "endpoint_for_thread q0 tid = Some e"
        "create_default_endpoint q1 e rights reg = (None, reg')" "res = None"
    | (stale) e rights h reg1 where "endpoint_for_thread q0 tid = Some e"
        "create_default_endpoint q1 e rights reg = (Some h, reg1)" "\<not> endpoint_is_valid q2 e"
        "res = None" "reg' = retire_endpoint_records e reg1"
    | (granted) e rights h where "endpoint_for_thread q0 tid = Some e"
        "create_default_endpoint q1 e rights reg = (Some h, reg')" "endpoint_is_valid q2 e" "res = Some h"
  using assms
  by (auto simp: ensure_endpoint_for_thread_def split: option.splits prod.splits if_splits)

lemma ensure_ok:
  assumes ok: "endpoints_ok reg" and res: "ensure_endpoint_for_thread table q0 q1 q2 tid reg = (res, reg')"
  shows "endpoints_ok reg'"
  using res
  by (cases rule: ensure_cases) (use ok create_default_ok retire_endpoint_records_ok in auto)

lemma ensure_keeps_live:
  assumes ok: "endpoints_ok reg" and res: "ensure_endpoint_for_thread table q0 q1 q2 tid reg = (res, reg')"
    and r: "endpoints reg h = Some r" "endpoint_is_valid q2 r"
  shows "endpoints reg' h = Some r"
  using res
proof (cases rule: ensure_cases)
  case (stale e rights h' reg1)
  have "\<not> record_matches_endpoint r e" using matching_valid [of r e q2] stale(3) r(2) by blast
  with create_default_mono [OF ok stale(2) r(1)] stale(5) show ?thesis by (simp add: retire_keeps)
qed (use r(1) create_default_mono [OF ok _ r(1)] in auto)

lemma ensure_only:
  assumes res: "ensure_endpoint_for_thread table q0 q1 q2 tid reg = (res, reg')" and r: "endpoints reg' h = Some r"
  shows "endpoints reg h = Some r \<or> res \<noteq> None \<and> h = next_endpoint_handle reg \<and> endpoint_is_valid q2 r"
  using res
proof (cases rule: ensure_cases)
  case (refused e rights)
  from refused(2) have "reg' = reg" by (cases rule: create_default_cases) simp_all
  with r show ?thesis by simp
next
  case (stale e rights h' reg1)
  then show ?thesis using r retire_subset [of e reg1 h r] create_default_only [OF stale(2)] by blast
next
  case (granted e rights h')
  then show ?thesis using create_default_only [OF granted(2) r] matching_valid [of r e q2] by auto
qed (use r in simp_all)

lemma ensure_next:
  assumes "ensure_endpoint_for_thread table q0 q1 q2 tid reg = (res, reg')"
  shows "next_endpoint_handle reg \<le> next_endpoint_handle reg'"
  using assms
proof (cases rule: ensure_cases)
  case (stale e rights h reg1)
  then show ?thesis using create_default_next [OF stale(2)] by (simp add: retire_endpoint_records_def)
qed (auto dest: create_default_next)

lemma ensure_Some:
  assumes "ensure_endpoint_for_thread table q0 q1 q2 tid reg = (Some h, reg')"
  obtains x where "endpoints reg' h = Some x" and "resolve_endpoint_handle q2 reg' h = Some tid"
  using assms
proof (cases rule: ensure_cases)
  case (granted e rights k)
  then obtain x where x: "endpoints reg' h = Some x" "record_matches_endpoint x e"
    using create_default_Some by blast
  with granted(3) matching_valid [of x e q2] have "endpoint_is_valid q2 x" by simp
  with x endpoint_for_thread_id [OF granted(1)] show thesis
    by (intro that [of x])
      (simp_all add: resolve_endpoint_handle_def endpoint_record_from_handle_def record_matches_endpoint_def)
qed simp_all

section \<open>Lifetimes are never reused\<close>

text \<open>
  The thread queue, the handle registry and the lifetime counter as one system. Threads are
  spawned with a reserved lifetime, replace it when they execute a new image, and leave; any
  other queue operation installs no lifetime.
\<close>

record ipc_system =
  sys_queue :: thread_queue
  sys_registry :: endpoint_registry
  sys_next_generation :: u64

definition keeps_generations :: "thread_queue \<Rightarrow> thread_queue \<Rightarrow> bool" where
  "keeps_generations q q' \<longleftrightarrow> (\<forall>i<MAX_THREADS. \<forall>t'. threads q' ! i = Some t' \<longrightarrow>
     (\<exists>t. threads q ! i = Some t \<and> thr_ipc_generation t' = thr_ipc_generation t))"

inductive ipc_step :: "ipc_system \<Rightarrow> ipc_system \<Rightarrow> bool" where
  spawn: "initial_generation (sys_next_generation s) = (g, nxt) \<Longrightarrow>
    \<not> holds_id (threads (sys_queue s)) (thr_id t) \<Longrightarrow>
    queue_push adm (t\<lparr>thr_ipc_generation := g\<rparr>) (sys_queue s) = (r, q') \<Longrightarrow>
    ipc_step s (s\<lparr>sys_queue := q', sys_next_generation := nxt\<rparr>)"
| exec: "reserve_generation (sys_next_generation s) = (Some g, nxt) \<Longrightarrow>
    replace_thread_image_endpoint tid g (sys_queue s) (sys_registry s) = (q', reg') \<Longrightarrow>
    ipc_step s (s\<lparr>sys_queue := q', sys_registry := reg', sys_next_generation := nxt\<rparr>)"
| queue: "queue_step (sys_queue s) q' \<Longrightarrow> keeps_generations (sys_queue s) q' \<Longrightarrow>
    ipc_step s (s\<lparr>sys_queue := q'\<rparr>)"
| retire: "ipc_step s (s\<lparr>sys_registry := retire_endpoint e (sys_registry s)\<rparr>)"
| ensure: "ensure_endpoint_for_thread table (sys_queue s) (sys_queue s) (sys_queue s) tid (sys_registry s) = (r, reg') \<Longrightarrow>
    ipc_step s (s\<lparr>sys_registry := reg'\<rparr>)"
| lookup: "endpoint_handle_for_thread (sys_queue s) (sys_registry s) tid = (r, reg') \<Longrightarrow>
    ipc_step s (s\<lparr>sys_registry := reg'\<rparr>)"

definition generations_below :: "thread_queue \<Rightarrow> u64 \<Rightarrow> bool" where
  "generations_below q nxt \<longleftrightarrow> (\<forall>i<MAX_THREADS. \<forall>t. threads q ! i = Some t \<longrightarrow> thr_ipc_generation t < nxt)"

definition records_below :: "endpoint_registry \<Rightarrow> u64 \<Rightarrow> bool" where
  "records_below reg nxt \<longleftrightarrow> (\<forall>h r. endpoints reg h = Some r \<longrightarrow> ep_generation r < nxt)"

definition ipc_ok :: "ipc_system \<Rightarrow> bool" where
  "ipc_ok s \<longleftrightarrow> queue_ok (sys_queue s) \<and> endpoints_ok (sys_registry s) \<and>
     0 < sys_next_generation s \<and> generations_below (sys_queue s) (sys_next_generation s) \<and>
     records_below (sys_registry s) (sys_next_generation s)"

lemma reserve_generation_Some:
  "reserve_generation nxt = (Some g, nxt') \<Longrightarrow> g = nxt \<and> nxt < nxt'"
  by (auto simp: reserve_generation_def checked_add_Some_iff word_less_nat_alt split: option.splits)

lemma initial_generation_cases:
  "initial_generation nxt = (g, nxt') \<Longrightarrow> g = 0 \<and> nxt' = nxt \<or> g = nxt \<and> nxt < nxt'"
  by (auto simp: initial_generation_def reserve_generation_def checked_add_Some_iff word_less_nat_alt
      split: option.splits)

lemma nth_update_cases: "xs[j := s] ! i = y \<Longrightarrow> i < length xs \<Longrightarrow> xs ! i = y \<or> y = s"
  by (cases "i = j") simp_all

lemma queue_push_slot:
  assumes "queue_push adm t q = (r, q')" and "i < length (threads q)" and "threads q' ! i = Some t'"
  shows "threads q ! i = Some t' \<or> t' = t"
proof -
  have "threads q' = threads q \<or> (\<exists>j. threads q' = (threads q)[j := Some t])"
    using assms(1) by (auto simp: queue_push_def Let_def split: option.splits if_splits)
  with assms(2,3) show ?thesis by (auto dest!: nth_update_cases)
qed

lemma replace_ipc_generation_slot:
  assumes "replace_ipc_generation tid g q = (r, q')" and "i < length (threads q)" and "threads q' ! i = Some t'"
  shows "threads q ! i = Some t' \<or> thr_ipc_generation t' = g"
proof -
  have "threads q' = threads q \<or> (\<exists>j t. threads q' = (threads q)[j := Some t] \<and> thr_ipc_generation t = g)"
    using assms(1) by (fastforce simp: replace_ipc_generation_def split: option.splits)
  with assms(2,3) show ?thesis by (auto dest!: nth_update_cases)
qed

lemma replace_image_endpoint_cases:
  assumes "replace_thread_image_endpoint tid g q reg = (q', reg')"
  obtains r e where "replace_ipc_generation tid g q = (r, q')" and "reg' = reg \<or> reg' = retire_endpoint e reg"
  using assms by (auto simp: replace_thread_image_endpoint_def split: prod.splits option.splits)

lemma retire_endpoint_ok: "endpoints_ok reg \<Longrightarrow> endpoints_ok (retire_endpoint e reg)"
  by (simp add: retire_endpoint_def retire_endpoint_records_ok)

lemma retire_endpoint_subset: "endpoints (retire_endpoint e reg) h = Some r \<Longrightarrow> endpoints reg h = Some r"
  by (auto simp: retire_endpoint_def split: if_splits dest: retire_subset)

lemma retire_endpoint_next [simp]: "next_endpoint_handle (retire_endpoint e reg) = next_endpoint_handle reg"
  by (simp add: retire_endpoint_def retire_endpoint_records_def)

lemma endpoint_handle_for_thread_facts:
  assumes "endpoint_handle_for_thread q reg tid = (r, reg')"
  shows "endpoints reg' = endpoints reg \<and> next_endpoint_handle reg' = next_endpoint_handle reg \<and>
    (endpoints_ok reg \<longrightarrow> endpoints_ok reg')"
  using assms
  by (auto simp: endpoint_handle_for_thread_def endpoints_ok_def split: option.splits if_splits)

text \<open>The part of a step that concerns live threads: it creates no new use of an old lifetime.\<close>

definition reuses_nothing :: "thread_queue \<Rightarrow> u64 \<Rightarrow> thread_queue \<Rightarrow> bool" where
  "reuses_nothing q nxt q' \<longleftrightarrow> (\<forall>i<MAX_THREADS. \<forall>t'. threads q' ! i = Some t' \<longrightarrow>
     thr_ipc_generation t' = 0 \<or> thr_ipc_generation t' = nxt \<or>
     (\<exists>t. threads q ! i = Some t \<and> thr_ipc_generation t = thr_ipc_generation t'))"

lemma dead_endpoint_stays_dead:
  assumes ok: "queue_ok q" "queue_ok q'" and below: "ep_generation e < nxt"
    and reuse: "reuses_nothing q nxt q'"
    and evolves: "\<And>i. i < MAX_THREADS \<Longrightarrow> slot_evolves (threads q ! i) (threads q' ! i)"
    and dead: "\<not> endpoint_is_valid q e"
  shows "\<not> endpoint_is_valid q' e"
proof
  assume "endpoint_is_valid q' e"
  then obtain s t' where l: "names_live_thread q' e s t'" using endpoint_is_valid_iff [OF ok(2)] by blast
  with reuse below obtain t where t: "threads q ! s = Some t" "thr_ipc_generation t = ep_generation e"
    unfolding reuses_nothing_def names_live_thread_def by (metis order.irrefl)
  have "names_live_thread q e s t"
    using evolves [of s] l t by (auto simp: names_live_thread_def slot_evolves_def)
  with dead endpoint_is_valid_iff [OF ok(1)] show False by blast
qed

text \<open>What every step of the system guarantees about the queue, the registry and the counter.\<close>

lemma ensure_records:
  assumes "records_below reg nxt" and "generations_below q nxt" and "queue_ok q"
    and res: "ensure_endpoint_for_thread table q q q tid reg = (r, reg')"
  shows "records_below reg' nxt"
  unfolding records_below_def
proof (intro allI impI)
  fix h x assume x: "endpoints reg' h = Some x"
  have "ep_generation x < nxt" if "endpoint_is_valid q x"
    using that endpoint_is_valid_iff [OF assms(3), of x] assms(2)
    by (auto simp: names_live_thread_def generations_below_def)
  with ensure_only [OF res x] assms(1) show "ep_generation x < nxt" by (auto simp: records_below_def)
qed

lemma queue_step_reuses_nothing:
  "keeps_generations q q' \<Longrightarrow> reuses_nothing q nxt q'"
  unfolding keeps_generations_def reuses_nothing_def by fastforce

lemma ipc_step_queue:
  assumes "ipc_step s s'" and "ipc_ok s"
  shows "queue_ok (sys_queue s') \<and> reuses_nothing (sys_queue s) (sys_next_generation s) (sys_queue s') \<and>
    (\<forall>i<MAX_THREADS. slot_evolves (threads (sys_queue s) ! i) (threads (sys_queue s') ! i)) \<and>
    generations_below (sys_queue s') (sys_next_generation s') \<and>
    sys_next_generation s \<le> sys_next_generation s'"
  using assms
proof (induction rule: ipc_step.induct)
  case (spawn s g nxt t adm r q')
  let ?t = "t\<lparr>thr_ipc_generation := g\<rparr>"
  have ok: "queue_ok (sys_queue s)" using spawn.prems by (simp add: ipc_ok_def)
  have g: "g = 0 \<and> nxt = sys_next_generation s \<or> g = sys_next_generation s \<and> sys_next_generation s < nxt"
    using initial_generation_cases [OF spawn(1)] by blast
  have slot: "threads (sys_queue s) ! i = Some u \<or> u = ?t" if "i < MAX_THREADS" "threads q' ! i = Some u" for i u
    using queue_push_slot [OF spawn(3), of i u] that ok by (simp add: queue_ok_def)
  have "queue_step (sys_queue s) q'" using spawn by (intro queue_step.push [of _ ?t]) simp_all
  then have "queue_ok q'" "\<forall>i<MAX_THREADS. slot_evolves (threads (sys_queue s) ! i) (threads q' ! i)"
    using queue_step_ok queue_step_evolves ok by blast+
  moreover have "reuses_nothing (sys_queue s) (sys_next_generation s) q'"
    unfolding reuses_nothing_def using slot g by fastforce
  moreover have "thr_ipc_generation u < nxt" if "i < MAX_THREADS" "threads q' ! i = Some u" for i u
    using slot [OF that] that(1) g spawn.prems
    by (auto simp: ipc_ok_def generations_below_def dest: less_trans)
  ultimately show ?case using g by (auto simp: generations_below_def)
next
  case (exec s g nxt tid q' reg')
  have ok: "queue_ok (sys_queue s)" using exec.prems by (simp add: ipc_ok_def)
  have g: "g = sys_next_generation s" "sys_next_generation s < nxt"
    using reserve_generation_Some [OF exec(1)] by auto
  from exec(2) obtain r e where r: "replace_ipc_generation tid g (sys_queue s) = (r, q')"
    by (rule replace_image_endpoint_cases)
  have slot: "threads (sys_queue s) ! i = Some u \<or> thr_ipc_generation u = g"
    if "i < MAX_THREADS" "threads q' ! i = Some u" for i u
    using replace_ipc_generation_slot [OF r, of i u] that ok by (simp add: queue_ok_def)
  have "queue_step (sys_queue s) q'" using r by (rule queue_step.replace)
  then have "queue_ok q'" "\<forall>i<MAX_THREADS. slot_evolves (threads (sys_queue s) ! i) (threads q' ! i)"
    using queue_step_ok queue_step_evolves ok by blast+
  moreover have "reuses_nothing (sys_queue s) (sys_next_generation s) q'"
    unfolding reuses_nothing_def using slot g by fastforce
  moreover have "thr_ipc_generation u < nxt" if "i < MAX_THREADS" "threads q' ! i = Some u" for i u
    using slot [OF that] that(1) g exec.prems
    by (auto simp: ipc_ok_def generations_below_def dest: less_trans)
  ultimately show ?case using g by (auto simp: generations_below_def)
next
  case (queue s q')
  have ok: "queue_ok (sys_queue s)" using queue.prems by (simp add: ipc_ok_def)
  have "queue_ok q'" "\<forall>i<MAX_THREADS. slot_evolves (threads (sys_queue s) ! i) (threads q' ! i)"
    using queue_step_ok queue_step_evolves ok queue(1) by blast+
  moreover have "generations_below q' (sys_next_generation s)"
    using queue(2) queue.prems unfolding keeps_generations_def generations_below_def ipc_ok_def by metis
  ultimately show ?case using queue_step_reuses_nothing [OF queue(2)] by simp
qed (auto simp: ipc_ok_def reuses_nothing_def)

lemma ipc_step_registry:
  assumes "ipc_step s s'" and "ipc_ok s"
  shows "endpoints_ok (sys_registry s') \<and> records_below (sys_registry s') (sys_next_generation s') \<and>
    next_endpoint_handle (sys_registry s) \<le> next_endpoint_handle (sys_registry s') \<and>
    (\<forall>h r. h < next_endpoint_handle (sys_registry s) \<and> endpoints (sys_registry s') h = Some r \<longrightarrow>
       endpoints (sys_registry s) h = Some r)"
  using assms
proof (induction rule: ipc_step.induct)
  case (exec s g nxt tid q' reg')
  have "sys_next_generation s \<le> nxt" using reserve_generation_Some [OF exec(1)] by auto
  moreover from exec(2) obtain r e where "reg' = sys_registry s \<or> reg' = retire_endpoint e (sys_registry s)"
    by (rule replace_image_endpoint_cases)
  ultimately show ?case using exec.prems retire_endpoint_ok [of "sys_registry s" e]
    by (auto simp: ipc_ok_def records_below_def dest: retire_endpoint_subset intro: less_le_trans)
next
  case (spawn s g nxt t adm r q')
  then show ?case using initial_generation_cases [OF spawn(1)]
    by (auto simp: ipc_ok_def records_below_def intro: less_trans)
next
  case (ensure table s tid r reg')
  have "endpoints (sys_registry s) h = Some x"
    if "h < next_endpoint_handle (sys_registry s)" "endpoints reg' h = Some x" for h x
    using ensure_only [OF ensure(1) that(2)] that(1) by auto
  moreover have "endpoints_ok reg'" using ensure_ok [OF _ ensure(1)] ensure.prems by (simp add: ipc_ok_def)
  moreover have "records_below reg' (sys_next_generation s)"
    using ensure_records [OF _ _ _ ensure(1)] ensure.prems by (simp add: ipc_ok_def)
  ultimately show ?case using ensure_next [OF ensure(1)] by simp
next
  case (lookup s tid r reg')
  then show ?case using endpoint_handle_for_thread_facts [OF lookup(1)] by (auto simp: ipc_ok_def records_below_def)
qed (auto simp: ipc_ok_def records_below_def retire_endpoint_ok dest: retire_endpoint_subset)

lemma ipc_step_ok: "ipc_step s s' \<Longrightarrow> ipc_ok s \<Longrightarrow> ipc_ok s'"
  using ipc_step_queue [of s s'] ipc_step_registry [of s s'] unfolding ipc_ok_def by (auto intro: less_le_trans)

definition issued_dead :: "ipc_system \<Rightarrow> u64 \<Rightarrow> bool" where
  "issued_dead s h \<longleftrightarrow> h < next_endpoint_handle (sys_registry s) \<and>
     resolve_endpoint_handle (sys_queue s) (sys_registry s) h = None"

lemma issued_dead_iff:
  "issued_dead s h \<longleftrightarrow> h < next_endpoint_handle (sys_registry s) \<and>
     (\<forall>r. endpoints (sys_registry s) h = Some r \<longrightarrow> \<not> endpoint_is_valid (sys_queue s) r)"
  by (auto simp: issued_dead_def resolve_endpoint_handle_def endpoint_record_from_handle_def
      split: option.splits if_splits)

lemma issued_dead_step:
  assumes step: "ipc_step s s'" and ok: "ipc_ok s" and dead: "issued_dead s h"
  shows "issued_dead s' h"
  unfolding issued_dead_iff
proof (intro conjI allI impI)
  note q = ipc_step_queue [OF step ok] and reg = ipc_step_registry [OF step ok]
  show "h < next_endpoint_handle (sys_registry s')" using dead reg by (auto simp: issued_dead_iff)
  fix r assume "endpoints (sys_registry s') h = Some r"
  with dead reg have r: "endpoints (sys_registry s) h = Some r" by (auto simp: issued_dead_iff)
  with dead ok have d: "\<not> endpoint_is_valid (sys_queue s) r" and g: "ep_generation r < sys_next_generation s"
    by (auto simp: issued_dead_iff ipc_ok_def records_below_def)
  show "\<not> endpoint_is_valid (sys_queue s') r"
    by (rule dead_endpoint_stays_dead [OF _ _ g _ _ d]) (use q ok in \<open>auto simp: ipc_ok_def\<close>)
qed

section \<open>Properties\<close>

text \<open>C6: an endpoint handle that was issued and no longer resolves never resolves again, whatever
  threads are spawned into its slot, exit, or replace their image afterwards.\<close>

theorem dead_handle_never_resolves:
  assumes "ipc_ok s" and "ipc_step\<^sup>*\<^sup>* s s'" and "h < next_endpoint_handle (sys_registry s)"
    and "resolve_endpoint_handle (sys_queue s) (sys_registry s) h = None"
  shows "resolve_endpoint_handle (sys_queue s') (sys_registry s') h = None"
proof -
  from assms(2) have "ipc_ok s' \<and> issued_dead s' h"
  proof (induction rule: rtranclp_induct)
    case base
    with assms show ?case by (simp add: issued_dead_def)
  next
    case (step y z)
    then show ?case using ipc_step_ok issued_dead_step by blast
  qed
  then show ?thesis by (simp add: issued_dead_def)
qed


definition demo_endpoint :: ipc_endpoint where
  "demo_endpoint = \<lparr>ep_thread_id = 1, ep_slot = 0, ep_generation = 5\<rparr>"

definition demo_registry :: endpoint_registry where
  "demo_registry =
     \<lparr>next_endpoint_handle = 0x40000001,
      endpoints = [0x40000000 \<mapsto> \<lparr>ep_thread_id = 1, ep_slot = 0, ep_generation = 5, ep_rights = 3\<rparr>],
      default_endpoints = [5 \<mapsto> 0x40000000]\<rparr>"

definition demo_system :: ipc_system where
  "demo_system = \<lparr>sys_queue = demo_dead_queue, sys_registry = demo_registry, sys_next_generation = 6\<rparr>"

lemma demo_registry_ok: "endpoints_ok demo_registry"
  by (auto simp: endpoints_ok_def demo_registry_def handle_bounds)

lemma demo_system_ok: "ipc_ok demo_system"
proof -
  have "thr_ipc_generation t < 6" if "i < MAX_THREADS" "threads demo_dead_queue ! i = Some t" for i t
    using that by (cases i) (auto simp: demo_dead_queue_threads demo_thread_def MAX_THREADS_def)
  then show ?thesis
    using demo_dead_queue_ok demo_registry_ok
    by (auto simp: ipc_ok_def demo_system_def generations_below_def records_below_def demo_registry_def)
qed

theorem dead_handle_never_resolves_witness:
  "resolve_endpoint_handle demo_dead_queue (retire_endpoint \<lparr>ep_thread_id = 2, ep_slot = 1, ep_generation = 3\<rparr> demo_registry)
     0x40000000 = None"
proof -
  let ?reg = "retire_endpoint \<lparr>ep_thread_id = 2, ep_slot = 1, ep_generation = 3\<rparr> demo_registry"
  have "ipc_step demo_system (demo_system\<lparr>sys_registry := ?reg\<rparr>)"
    using ipc_step.retire [of demo_system] by (simp add: demo_system_def)
  then have run: "ipc_step\<^sup>*\<^sup>* demo_system (demo_system\<lparr>sys_registry := ?reg\<rparr>)" by (simp add: r_into_rtranclp)
  have dead: "resolve_endpoint_handle (sys_queue demo_system) (sys_registry demo_system) 0x40000000 = None"
    by (simp add: demo_system_def demo_registry_def resolve_endpoint_handle_def endpoint_record_from_handle_def
        endpoint_is_valid_def live_ipc_slot_index_and_generation_def queue_get_def demo_dead_queue_threads demo_thread_def)
  have "0x40000000 < next_endpoint_handle (sys_registry demo_system)"
    by (simp add: demo_system_def demo_registry_def)
  from dead_handle_never_resolves [OF demo_system_ok run this dead] show ?thesis by (simp add: demo_system_def)
qed


end
