(* ===== verification/Capability_Syscalls.thy ===== *)
theory Capability_Syscalls
  imports Ipc_Endpoints
begin

text \<open>
  The capability system calls (\<open>src/syscall/capability.rs\<close>): querying, dropping, transferring and
  restricting the authorities of processes. A handler takes the kernel state and the
  calling thread and returns the raw result with the new state.

  Reading a name from user memory is the argument \<open>inp\<close>: whether the kernel buffer could be
  allocated, and what \<open>copy_from_user_native\<close> returns for an address and a length. The
  configured name limit \<open>max_name_len\<close> and the outcomes of the fallible allocations are
  arguments too. Handlers run as one step; each of their lock sections is one step of the code.
\<close>

section \<open>State\<close>

record cap_state =
  cs_processes :: process_table
  cs_names :: dynamic_capability_registry
  cs_queue :: thread_queue
  cs_endpoints :: endpoint_registry

record user_input =
  buffer_mem :: bool
  copied :: "u64 \<Rightarrow> nat \<Rightarrow> status_error + string"

datatype capability_token = Plain capability | Authority kernel_authority

definition current_process :: "cap_state \<Rightarrow> u64 option \<Rightarrow> u64 option" where
  "current_process s current =
     (case current of None \<Rightarrow> None | Some tid \<Rightarrow> thread_to_process_id (cs_queue s) tid)"

definition resolve_destination_process :: "cap_state \<Rightarrow> u64 \<Rightarrow> u64 option" where
  "resolve_destination_process s dest =
     (case resolve_endpoint_handle (cs_queue s) (cs_endpoints s) dest of
        Some tid \<Rightarrow> thread_to_process_id (cs_queue s) tid
      | None \<Rightarrow>
          if with_process (cs_processes s) dest (\<lambda>_. ()) \<noteq> None then Some dest
          else (case thread_to_process_id (cs_queue s) dest of Some pid \<Rightarrow> Some pid | None \<Rightarrow> None))"

section \<open>Reading names\<close>

definition ISIZE_MAX :: nat where
  "ISIZE_MAX = 2 ^ 63 - 1"

definition read_capability_name :: "user_input \<Rightarrow> u64 \<Rightarrow> u64 \<Rightarrow> nat \<Rightarrow> u64 + string" where
  "read_capability_name inp cap_ptr cap_len maximum =
     (if cap_len = 0 then Inl (into_raw InvalidArgument)
      else if \<not> (unat cap_len \<le> maximum \<and> unat cap_len \<le> ISIZE_MAX) then Inl (into_raw LimitExceeded)
      else if cap_ptr = 0 \<or> checked_add cap_ptr (cap_len - 1) = None then Inl (into_raw InvalidAddress)
      else if \<not> buffer_mem inp then Inl (into_raw ResourceUnavailable)
      else case copied inp cap_ptr (unat cap_len) of
        Inl e \<Rightarrow> Inl (into_raw e)
      | Inr bytes \<Rightarrow> if valid_utf8 bytes then Inr bytes else Inl (into_raw InvalidArgument))"

definition MAX_TRANSFER_SPEC_LEN :: nat where
  "MAX_TRANSFER_SPEC_LEN = 8 * 1024"

definition read_capability_spec_from_user :: "nat \<Rightarrow> user_input \<Rightarrow> u64 \<Rightarrow> u64 \<Rightarrow> u64 + string" where
  "read_capability_spec_from_user max_name_len inp cap_ptr cap_len =
     read_capability_name inp cap_ptr cap_len (max max_name_len MAX_TRANSFER_SPEC_LEN)"

definition parse_capability_token :: "dynamic_capability_registry \<Rightarrow> string \<Rightarrow> capability_token option" where
  "parse_capability_token names spec =
     (case parse_kernel_authority_spec spec of
        Some a \<Rightarrow> Some (Authority a)
      | None \<Rightarrow> map_option Plain (capability_from_str names spec))"

definition intern_capability_token ::
    "bool \<Rightarrow> bool \<Rightarrow> string \<Rightarrow> dynamic_capability_registry \<Rightarrow>
     capability_token option \<times> dynamic_capability_registry" where
  "intern_capability_token nm sm spec names =
     (case parse_kernel_authority_spec spec of
        Some a \<Rightarrow> (Some (Authority a), names)
      | None \<Rightarrow> (let (c, names') = intern nm sm spec names in (map_option Plain c, names')))"

definition read_capability_token_from_user ::
    "dynamic_capability_registry \<Rightarrow> nat \<Rightarrow> user_input \<Rightarrow> u64 \<Rightarrow> u64 \<Rightarrow> u64 + capability_token" where
  "read_capability_token_from_user names max_name_len inp cap_ptr cap_len =
     (case read_capability_spec_from_user max_name_len inp cap_ptr cap_len of
        Inl e \<Rightarrow> Inl e
      | Inr spec \<Rightarrow>
          (case parse_capability_token names spec of
             None \<Rightarrow> Inl (into_raw InvalidArgument)
           | Some t \<Rightarrow> Inr t))"

section \<open>Queries\<close>

definition check_thread_capability :: "nat \<Rightarrow> user_input \<Rightarrow> u64 \<Rightarrow> u64 \<Rightarrow> u64 \<Rightarrow> cap_state \<Rightarrow> u64" where
  "check_thread_capability max_name_len inp thread_id cap_ptr cap_len s =
     (if thread_id = 0 then into_raw InvalidArgument
      else case read_capability_name inp cap_ptr cap_len max_name_len of
        Inl e \<Rightarrow> e
      | Inr n \<Rightarrow>
          (case resolve_sender_thread_id (cs_queue s) (cs_endpoints s) thread_id of
             None \<Rightarrow> 0
           | Some resolved_thread \<Rightarrow>
               (case thread_to_process_id (cs_queue s) resolved_thread of
                  None \<Rightarrow> 0
                | Some pid \<Rightarrow>
                    (case parse_capability_token (cs_names s) n of
                       Some (Plain c) \<Rightarrow> if process_has_capability (cs_processes s) pid c then 1 else 0
                     | Some (Authority a) \<Rightarrow>
                         if process_has_kernel_authority (cs_processes s) pid a then 1 else 0
                     | None \<Rightarrow> if valid_name n then 0 else into_raw InvalidArgument))))"

definition capability_query :: "nat \<Rightarrow> user_input \<Rightarrow> u64 option \<Rightarrow> u64 \<Rightarrow> u64 \<Rightarrow> cap_state \<Rightarrow> u64" where
  "capability_query max_name_len inp current cap_ptr cap_len s =
     (case read_capability_name inp cap_ptr cap_len max_name_len of
        Inl e \<Rightarrow> e
      | Inr n \<Rightarrow>
          (case current_process s current of
             None \<Rightarrow> into_raw NotReady
           | Some pid \<Rightarrow>
               (case parse_capability_token (cs_names s) n of
                  Some (Plain c) \<Rightarrow>
                    if process_has_capability (cs_processes s) pid c \<or>
                       (c = MemoryPhysMap \<and>
                        process_has_kernel_capability_authority (cs_processes s) pid K_PhysMap)
                    then 1 else 0
                | Some (Authority a) \<Rightarrow>
                    if process_has_kernel_authority (cs_processes s) pid a then 1 else 0
                | None \<Rightarrow> if valid_name n then 0 else into_raw InvalidArgument)))"

definition clone_capability :: "nat \<Rightarrow> user_input \<Rightarrow> u64 option \<Rightarrow> u64 \<Rightarrow> u64 \<Rightarrow> cap_state \<Rightarrow> u64" where
  "clone_capability max_name_len inp current cap_ptr cap_len s =
     (case current_process s current of
        None \<Rightarrow> into_raw NotReady
      | Some pid \<Rightarrow>
          (case read_capability_token_from_user (cs_names s) max_name_len inp cap_ptr cap_len of
             Inl e \<Rightarrow> e
           | Inr (Plain c) \<Rightarrow>
               if process_has_capability (cs_processes s) pid c then SUCCESS else into_raw AccessDenied
           | Inr (Authority a) \<Rightarrow>
               if process_has_kernel_authority (cs_processes s) pid a then SUCCESS
               else into_raw AccessDenied))"

section \<open>Dropping\<close>

definition drop_token :: "capability_token \<Rightarrow> cap_process \<Rightarrow> bool \<times> cap_process" where
  "drop_token t p =
     (case t of
        Plain c \<Rightarrow> (let (r, caps) = caps_remove c (capabilities p) in (r, p\<lparr>capabilities := caps\<rparr>))
      | Authority a \<Rightarrow>
          (let (r, auths) = auths_remove_exact a (kernel_authorities p)
           in (r, p\<lparr>kernel_authorities := auths\<rparr>)))"

definition drop_capability ::
    "nat \<Rightarrow> user_input \<Rightarrow> u64 option \<Rightarrow> u64 \<Rightarrow> u64 \<Rightarrow> cap_state \<Rightarrow> u64 \<times> cap_state" where
  "drop_capability max_name_len inp current cap_ptr cap_len s =
     (case current_process s current of
        None \<Rightarrow> (into_raw NotReady, s)
      | Some pid \<Rightarrow>
          (case read_capability_token_from_user (cs_names s) max_name_len inp cap_ptr cap_len of
             Inl e \<Rightarrow> (e, s)
           | Inr t \<Rightarrow>
               (case with_process_mut (cs_processes s) pid (drop_token t) of
                  (Some True, table) \<Rightarrow> (SUCCESS, s\<lparr>cs_processes := table\<rparr>)
                | (Some False, table) \<Rightarrow> (into_raw AccessDenied, s\<lparr>cs_processes := table\<rparr>)
                | (None, table) \<Rightarrow> (into_raw NotReady, s\<lparr>cs_processes := table\<rparr>))))"

section \<open>Transferring\<close>

text \<open>The outcomes of the allocations a transfer makes: the interned name, its registry slot and
  the receiver's set.\<close>

record transfer_mem =
  tm_name :: bool
  tm_slot :: bool
  tm_set :: bool

definition grant_result :: "(status_error + unit) option \<Rightarrow> status_error \<Rightarrow> u64" where
  "grant_result r missing =
     (case r of
        Some (Inr _) \<Rightarrow> SUCCESS
      | Some (Inl e) \<Rightarrow> into_raw e
      | None \<Rightarrow> into_raw missing)"

definition grant_plain ::
    "bool \<Rightarrow> capability \<Rightarrow> string \<Rightarrow> cap_process \<Rightarrow> (status_error + unit) \<times> cap_process" where
  "grant_plain mem c claimed_exe_path p =
     (if exe_path p \<noteq> claimed_exe_path then (Inl AccessDenied, p)
      else let (r, caps) = caps_try_insert mem c (capabilities p) in (r, p\<lparr>capabilities := caps\<rparr>))"

text \<open>The branch of a caller that may manage capabilities.\<close>

definition manage_transfer :: "transfer_mem \<Rightarrow> u64 \<Rightarrow> string \<Rightarrow> cap_state \<Rightarrow> u64 \<times> cap_state" where
  "manage_transfer mem dest_process spec s =
     (case split_once (CHR 0x1f) spec of
        None \<Rightarrow> (into_raw AccessDenied, s)
      | Some (cap_spec, claimed_exe_path) \<Rightarrow>
          if with_process (cs_processes s) dest_process (\<lambda>p. exe_path p = claimed_exe_path) \<noteq> Some True
          then (into_raw AccessDenied, s)
          else
            (case intern_capability_token (tm_name mem) (tm_slot mem) cap_spec (cs_names s) of
               (None, names) \<Rightarrow> (into_raw InvalidArgument, s\<lparr>cs_names := names\<rparr>)
             | (Some (Authority _), names) \<Rightarrow> (into_raw AccessDenied, s\<lparr>cs_names := names\<rparr>)
             | (Some (Plain c), names) \<Rightarrow>
                 if \<not> is_delegable names c then (into_raw AccessDenied, s\<lparr>cs_names := names\<rparr>)
                 else
                   (let (r, table) = with_process_mut (cs_processes s) dest_process
                          (grant_plain (tm_set mem) c claimed_exe_path)
                    in (grant_result r NotFound, s\<lparr>cs_names := names, cs_processes := table\<rparr>))))"

definition move_token ::
    "bool \<Rightarrow> capability_token \<Rightarrow> cap_process \<Rightarrow> cap_process \<Rightarrow> (status_error + unit) \<times> cap_process \<times> cap_process" where
  "move_token mem t source destination =
     (case t of
        Plain c \<Rightarrow>
          if \<not> caps_contains_exact c (capabilities source) then (Inl AccessDenied, source, destination)
          else
            (case caps_try_insert mem c (capabilities destination) of
               (Inl e, caps) \<Rightarrow> (Inl e, source, destination\<lparr>capabilities := caps\<rparr>)
             | (Inr _, caps) \<Rightarrow>
                 (Inr (), source\<lparr>capabilities := snd (caps_remove c (capabilities source))\<rparr>,
                  destination\<lparr>capabilities := caps\<rparr>))
      | Authority a \<Rightarrow>
          if \<not> auths_contains_exact a (kernel_authorities source) then (Inl AccessDenied, source, destination)
          else
            (case auths_try_insert mem a (kernel_authorities destination) of
               (Inl e, auths) \<Rightarrow> (Inl e, source, destination\<lparr>kernel_authorities := auths\<rparr>)
             | (Inr _, auths) \<Rightarrow>
                 (Inr (), source\<lparr>kernel_authorities := snd (auths_remove_exact a (kernel_authorities source))\<rparr>,
                  destination\<lparr>kernel_authorities := auths\<rparr>)))"

definition transfer_allowed :: "cap_state \<Rightarrow> u64 \<Rightarrow> capability_token \<Rightarrow> bool" where
  "transfer_allowed s pid t =
     (case t of
        Plain c \<Rightarrow>
          (if \<not> process_has_capability (cs_processes s) pid c then False
           else if \<not> is_delegable (cs_names s) c then False else True)
      | Authority a \<Rightarrow> (if \<not> process_has_kernel_authority (cs_processes s) pid a then False else True))"

definition transfer_capability ::
    "nat \<Rightarrow> user_input \<Rightarrow> transfer_mem \<Rightarrow> u64 option \<Rightarrow> u64 \<Rightarrow> u64 \<Rightarrow> u64 \<Rightarrow> cap_state \<Rightarrow> u64 \<times> cap_state" where
  "transfer_capability max_name_len inp mem current dest cap_ptr cap_len s =
     (case current_process s current of
        None \<Rightarrow> (into_raw NotReady, s)
      | Some pid \<Rightarrow>
          (case read_capability_spec_from_user max_name_len inp cap_ptr cap_len of
             Inl e \<Rightarrow> (e, s)
           | Inr spec \<Rightarrow>
               (case resolve_destination_process s dest of
                  None \<Rightarrow> (into_raw NotFound, s)
                | Some dest_process \<Rightarrow>
                    if process_has_capability (cs_processes s) pid CapabilitiesManage
                    then manage_transfer mem dest_process spec s
                    else
                      (case parse_capability_token (cs_names s) spec of
                         None \<Rightarrow> (into_raw InvalidArgument, s)
                       | Some t \<Rightarrow>
                           if \<not> transfer_allowed s pid t then (into_raw AccessDenied, s)
                           else if dest_process = pid then (SUCCESS, s)
                           else
                             (let (r, table) = with_process_pair_mut (cs_processes s) pid dest_process
                                    (move_token (tm_set mem) t)
                              in (grant_result r NotFound, s\<lparr>cs_processes := table\<rparr>))))))"

section \<open>Restricting\<close>

definition restrict_plain ::
    "capability \<Rightarrow> capability \<Rightarrow> cap_process \<Rightarrow> (status_error + unit) \<times> cap_process" where
  "restrict_plain c restriction p =
     (if \<not> caps_contains_exact c (capabilities p) then (Inl AccessDenied, p)
      else if c \<noteq> restriction then
        (Inr (), p\<lparr>capabilities := caps_insert restriction (snd (caps_remove c (capabilities p)))\<rparr>)
      else (Inr (), p))"

definition restrict_authority ::
    "kernel_authority \<Rightarrow> kernel_authority \<Rightarrow> cap_process \<Rightarrow> (status_error + unit) \<times> cap_process" where
  "restrict_authority a restriction p =
     (if \<not> auths_contains_exact a (kernel_authorities p) then (Inl AccessDenied, p)
      else if a \<noteq> restriction then
        (Inr (), p\<lparr>kernel_authorities :=
           auths_insert restriction (snd (auths_remove_exact a (kernel_authorities p)))\<rparr>)
      else (Inr (), p))"

definition restrict_capability ::
    "nat \<Rightarrow> user_input \<Rightarrow> user_input \<Rightarrow> u64 option \<Rightarrow> u64 \<Rightarrow> u64 \<Rightarrow> u64 \<Rightarrow> u64 \<Rightarrow> cap_state \<Rightarrow>
     u64 \<times> cap_state" where
  "restrict_capability max_name_len inp1 inp2 current cap_ptr cap_len restriction_ptr restriction_len s =
     (case current_process s current of
        None \<Rightarrow> (into_raw NotReady, s)
      | Some pid \<Rightarrow>
          (case read_capability_token_from_user (cs_names s) max_name_len inp1 cap_ptr cap_len of
             Inl e \<Rightarrow> (e, s)
           | Inr t \<Rightarrow>
               (case read_capability_token_from_user (cs_names s) max_name_len inp2
                       restriction_ptr restriction_len of
                  Inl e \<Rightarrow> (e, s)
                | Inr restriction \<Rightarrow>
                    (case (t, restriction) of
                       (Plain c, Plain r) \<Rightarrow>
                         if \<not> capability_implies c r then (into_raw AccessDenied, s)
                         else
                           (let (x, table) = with_process_mut (cs_processes s) pid (restrict_plain c r)
                            in (grant_result x NotReady, s\<lparr>cs_processes := table\<rparr>))
                     | (Authority a, Authority r) \<Rightarrow>
                         if \<not> kernel_authority_implies a r then (into_raw AccessDenied, s)
                         else
                           (let (x, table) = with_process_mut (cs_processes s) pid (restrict_authority a r)
                            in (grant_result x NotReady, s\<lparr>cs_processes := table\<rparr>))
                     | _ \<Rightarrow> (into_raw InvalidArgument, s)))))"

section \<open>State invariant\<close>

definition process_ok :: "dynamic_capability_registry \<Rightarrow> cap_process \<Rightarrow> bool" where
  "process_ok names p \<longleftrightarrow> caps_ok (capabilities p) \<and> auths_ok (kernel_authorities p) \<and>
     (\<forall>c\<in>set (capabilities p). capability_name names c \<noteq> None)"

definition cap_state_ok :: "cap_state \<Rightarrow> bool" where
  "cap_state_ok s \<longleftrightarrow> registry_ok (cs_names s) \<and>
     (\<forall>pid p. cs_processes s pid = Some p \<longrightarrow> process_ok (cs_names s) p)"

lemma cap_state_okD: "cap_state_ok s \<Longrightarrow> cs_processes s pid = Some p \<Longrightarrow> process_ok (cs_names s) p"
  by (simp add: cap_state_ok_def)

lemma process_okD:
  assumes "process_ok names p"
  shows "caps_ok (capabilities p)" and "auths_ok (kernel_authorities p)"
  using assms by (simp_all add: process_ok_def)

lemma process_ok_append: "process_ok names p \<Longrightarrow> process_ok (names @ added) p"
  using capability_name_append by (fastforce simp: process_ok_def)

lemma grant_result_success [simp]: "grant_result r m = SUCCESS \<longleftrightarrow> r = Some (Inr ())"
  by (auto simp: grant_result_def split: option.splits sum.splits)

section \<open>Delegable capabilities\<close>

lemma broad_not_delegable:
  "\<not> is_delegable names Unsandboxed" "\<not> is_delegable names FsReadAll" "\<not> is_delegable names FsWriteAll"
  by (simp_all add: is_delegable_def metadata_def CAPABILITIES_def user_metadata_def privileged_metadata_def
      system_metadata_def)

lemma delegable_implies_only_itself:
  assumes "is_delegable names c" and "capability_implies c x"
  shows "c = x"
  using assms broad_not_delegable by (auto simp: capability_implies_iff)

lemma is_delegable_named:
  assumes "capability_name names c \<noteq> None"
  shows "is_delegable (names @ added) c = is_delegable names c"
  using assms by (cases c) (auto simp: is_delegable_def capability_name_def nth_append split: if_splits)

section \<open>What a call does to the process table\<close>

text \<open>The changes a successful call can make; an unsuccessful one makes none.\<close>

inductive cap_change :: "cap_state \<Rightarrow> dynamic_capability_registry \<Rightarrow> process_table \<Rightarrow> bool" where
  drop_plain: "cs_processes s pid = Some p \<Longrightarrow> caps_remove c (capabilities p) = (True, caps) \<Longrightarrow>
    cap_change s ns ((cs_processes s)(pid \<mapsto> p\<lparr>capabilities := caps\<rparr>))"
| drop_auth: "cs_processes s pid = Some p \<Longrightarrow> auths_remove_exact a (kernel_authorities p) = (True, auths) \<Longrightarrow>
    cap_change s ns ((cs_processes s)(pid \<mapsto> p\<lparr>kernel_authorities := auths\<rparr>))"
| grant: "cs_processes s pid = Some p \<Longrightarrow> is_delegable ns c \<Longrightarrow> capability_name ns c \<noteq> None \<Longrightarrow>
    cap_change s ns ((cs_processes s)(pid \<mapsto> p\<lparr>capabilities := caps_insert c (capabilities p)\<rparr>))"
| move_plain: "src \<noteq> dst \<Longrightarrow> cs_processes s src = Some p \<Longrightarrow> cs_processes s dst = Some q \<Longrightarrow>
    caps_contains_exact c (capabilities p) \<Longrightarrow> is_delegable (cs_names s) c \<Longrightarrow>
    cap_change s ns ((cs_processes s)
      (src \<mapsto> p\<lparr>capabilities := snd (caps_remove c (capabilities p))\<rparr>,
       dst \<mapsto> q\<lparr>capabilities := caps_insert c (capabilities q)\<rparr>))"
| move_auth: "src \<noteq> dst \<Longrightarrow> cs_processes s src = Some p \<Longrightarrow> cs_processes s dst = Some q \<Longrightarrow>
    auths_contains_exact a (kernel_authorities p) \<Longrightarrow>
    cap_change s ns ((cs_processes s)
      (src \<mapsto> p\<lparr>kernel_authorities := snd (auths_remove_exact a (kernel_authorities p))\<rparr>,
       dst \<mapsto> q\<lparr>kernel_authorities := auths_insert a (kernel_authorities q)\<rparr>))"
| shrink_plain: "cs_processes s pid = Some p \<Longrightarrow> caps_contains_exact c (capabilities p) \<Longrightarrow> capability_implies c r \<Longrightarrow>
    capability_name (cs_names s) r \<noteq> None \<Longrightarrow>
    cap_change s ns ((cs_processes s)
      (pid \<mapsto> p\<lparr>capabilities := caps_insert r (snd (caps_remove c (capabilities p)))\<rparr>))"
| shrink_auth: "cs_processes s pid = Some p \<Longrightarrow> auths_contains_exact a (kernel_authorities p) \<Longrightarrow>
    kernel_authority_implies a r \<Longrightarrow>
    cap_change s ns ((cs_processes s)
      (pid \<mapsto> p\<lparr>kernel_authorities := auths_insert r (snd (auths_remove_exact a (kernel_authorities p)))\<rparr>))"

definition cap_effect :: "u64 \<Rightarrow> cap_state \<Rightarrow> cap_state \<Rightarrow> bool" where
  "cap_effect r s s' \<longleftrightarrow> registry_ok (cs_names s') \<and> (\<exists>added. cs_names s' = cs_names s @ added) \<and>
     cs_queue s' = cs_queue s \<and> cs_endpoints s' = cs_endpoints s \<and>
     (cs_processes s' = cs_processes s \<or> r = SUCCESS \<and> cap_change s (cs_names s') (cs_processes s'))"

lemma cap_effect_refl: "cap_state_ok s \<Longrightarrow> cap_effect r s s"
  by (simp add: cap_effect_def cap_state_ok_def)

lemma cap_effect_processes:
  "cap_state_ok s \<Longrightarrow> table = cs_processes s \<or> r = SUCCESS \<and> cap_change s (cs_names s) table \<Longrightarrow>
    cap_effect r s (s\<lparr>cs_processes := table\<rparr>)"
  by (simp add: cap_effect_def cap_state_ok_def)

declare map_upd_triv [simp]

lemma drop_token_cases:
  assumes "cap_state_ok s" and "cs_processes s pid = Some p" and "drop_token t p = (r, p')"
  shows "(cs_processes s)(pid \<mapsto> p') = cs_processes s \<or> r \<and> cap_change s (cs_names s) ((cs_processes s)(pid \<mapsto> p'))"
proof (cases t)
  case (Plain c)
  obtain b caps where b: "caps_remove c (capabilities p) = (b, caps)" by (cases "caps_remove c (capabilities p)")
  have "caps = capabilities p" if "\<not> b"
    using b that by (auto simp: caps_remove_def split: sum.splits)
  with Plain b assms show ?thesis by (cases b) (auto simp: drop_token_def intro: cap_change.drop_plain)
next
  case (Authority a)
  obtain b auths where b: "auths_remove_exact a (kernel_authorities p) = (b, auths)"
    by (cases "auths_remove_exact a (kernel_authorities p)")
  have "auths = kernel_authorities p" if "\<not> b"
    using b that by (auto simp: auths_remove_exact_def split: option.splits)
  with Authority b assms show ?thesis by (cases b) (auto simp: drop_token_def intro: cap_change.drop_auth)
qed

text \<open>One process updated under the table lock; \<open>good\<close> is the result on which it may change.\<close>

lemma with_process_mut_effect:
  assumes ok: "cap_state_ok s" and run: "with_process_mut (cs_processes s) pid f = (x, table)"
    and f: "\<And>p b p'. cs_processes s pid = Some p \<Longrightarrow> f p = (b, p') \<Longrightarrow>
      (cs_processes s)(pid \<mapsto> p') = cs_processes s \<or> good b \<and> cap_change s (cs_names s) ((cs_processes s)(pid \<mapsto> p'))"
    and r: "\<And>b. x = Some b \<Longrightarrow> good b \<Longrightarrow> r = SUCCESS"
  shows "cap_effect r s (s\<lparr>cs_processes := table\<rparr>)"
proof (cases "cs_processes s pid")
  case None
  with run ok show ?thesis by (simp add: with_process_mut_def cap_effect_processes)
next
  case (Some p)
  obtain b p' where b: "f p = (b, p')" by (cases "f p")
  with run Some have t: "table = (cs_processes s)(pid \<mapsto> p')" "x = Some b" by (auto simp: with_process_mut_def)
  from f [OF Some b] show ?thesis
    unfolding t(1) by (elim disjE conjE) (use ok r [OF t(2)] in \<open>simp_all add: cap_effect_processes cap_effect_refl\<close>)
qed

lemma drop_capability_effect:
  assumes ok: "cap_state_ok s" and res: "drop_capability mx inp cur ptr len s = (r, s')"
  shows "cap_effect r s s'"
proof (cases "current_process s cur")
  case None
  with ok res show ?thesis by (simp add: drop_capability_def cap_effect_refl)
next
  case (Some pid)
  show ?thesis
  proof (cases "read_capability_token_from_user (cs_names s) mx inp ptr len")
    case (Inl e)
    with ok res Some show ?thesis by (simp add: drop_capability_def cap_effect_refl)
  next
    case (Inr t)
    obtain x table where x: "with_process_mut (cs_processes s) pid (drop_token t) = (x, table)" by fastforce
    with Inr Some res have "s' = s\<lparr>cs_processes := table\<rparr>" "x = Some True \<Longrightarrow> r = SUCCESS"
      by (auto simp: drop_capability_def split: option.splits bool.splits)
    then show ?thesis
      using with_process_mut_effect [OF ok x, of id r] drop_token_cases [OF ok] by simp
  qed
qed

lemma restrict_plain_cases:
  assumes p: "cs_processes s pid = Some p" and c: "capability_implies c r" "capability_name (cs_names s) r \<noteq> None"
    and run: "restrict_plain c r p = (b, p')"
  shows "(cs_processes s)(pid \<mapsto> p') = cs_processes s \<or>
    b = Inr () \<and> cap_change s (cs_names s) ((cs_processes s)(pid \<mapsto> p'))"
proof (cases "caps_contains_exact c (capabilities p) \<and> c \<noteq> r")
  case True
  with run have "b = Inr ()"
    "p' = p\<lparr>capabilities := caps_insert r (snd (caps_remove c (capabilities p)))\<rparr>"
    by (auto simp: restrict_plain_def)
  with cap_change.shrink_plain [OF p _ c] True show ?thesis by simp
next
  case False
  with run have "p' = p" by (auto simp: restrict_plain_def split: if_splits)
  with p show ?thesis by simp
qed

lemma restrict_authority_cases:
  assumes p: "cs_processes s pid = Some p" and c: "kernel_authority_implies a r"
    and run: "restrict_authority a r p = (b, p')"
  shows "(cs_processes s)(pid \<mapsto> p') = cs_processes s \<or>
    b = Inr () \<and> cap_change s (cs_names s) ((cs_processes s)(pid \<mapsto> p'))"
proof (cases "auths_contains_exact a (kernel_authorities p) \<and> a \<noteq> r")
  case True
  with run have "b = Inr ()"
    "p' = p\<lparr>kernel_authorities := auths_insert r (snd (auths_remove_exact a (kernel_authorities p)))\<rparr>"
    by (auto simp: restrict_authority_def)
  with cap_change.shrink_auth [OF p _ c] True show ?thesis by simp
next
  case False
  with run have "p' = p" by (auto simp: restrict_authority_def split: if_splits)
  with p show ?thesis by simp
qed

lemma read_token_named:
  assumes "registry_ok names" and "read_capability_token_from_user names mx inp ptr len = Inr (Plain c)"
  shows "capability_name names c \<noteq> None"
proof -
  obtain spec where "parse_capability_token names spec = Some (Plain c)"
    using assms(2) by (auto simp: read_capability_token_from_user_def split: sum.splits option.splits)
  then have "capability_from_str names spec = Some c"
    by (auto simp: parse_capability_token_def split: option.splits)
  then show ?thesis by (simp add: capability_from_str_iff [OF assms(1)])
qed

lemma restrict_capability_effect:
  assumes ok: "cap_state_ok s" and res: "restrict_capability mx i1 i2 cur p1 l1 p2 l2 s = (r, s')"
  shows "cap_effect r s s'"
proof (cases "current_process s cur")
  case None
  with ok res show ?thesis by (simp add: restrict_capability_def cap_effect_refl)
next
  case pid: (Some pid)
  let ?t1 = "read_capability_token_from_user (cs_names s) mx i1 p1 l1"
  let ?t2 = "read_capability_token_from_user (cs_names s) mx i2 p2 l2"
  consider (plain) c d where "?t1 = Inr (Plain c)" "?t2 = Inr (Plain d)" "capability_implies c d"
    | (auth) a b where "?t1 = Inr (Authority a)" "?t2 = Inr (Authority b)" "kernel_authority_implies a b"
    | (refused) "s' = s"
    using res pid
    by (cases ?t1; cases ?t2) (auto simp: restrict_capability_def split: capability_token.splits if_splits)
  then show ?thesis
  proof cases
    case plain
    obtain x table where x: "with_process_mut (cs_processes s) pid (restrict_plain c d) = (x, table)" by fastforce
    with plain pid res have s': "s' = s\<lparr>cs_processes := table\<rparr>" "r = grant_result x NotReady"
      by (auto simp: restrict_capability_def)
    have "capability_name (cs_names s) d \<noteq> None"
      using read_token_named [OF _ plain(2)] ok by (simp add: cap_state_ok_def)
    then show ?thesis
      unfolding s' using restrict_plain_cases [OF _ plain(3)]
      by (intro with_process_mut_effect [OF ok x, of "\<lambda>b. b = Inr ()"]) (auto simp: grant_result_def)
  next
    case auth
    obtain x table where x: "with_process_mut (cs_processes s) pid (restrict_authority a b) = (x, table)" by fastforce
    with auth pid res have s': "s' = s\<lparr>cs_processes := table\<rparr>" "r = grant_result x NotReady"
      by (auto simp: restrict_capability_def)
    show ?thesis
      unfolding s' using restrict_authority_cases [OF _ auth(3)]
      by (intro with_process_mut_effect [OF ok x, of "\<lambda>b. b = Inr ()"]) (auto simp: grant_result_def)
  next
    case refused
    with ok show ?thesis by (simp add: cap_effect_refl)
  qed
qed

subsection \<open>Transfers\<close>

lemma intern_token_correct:
  assumes ok: "registry_ok names" and res: "intern_capability_token nm sm spec names = (t, names')"
  shows "registry_ok names' \<and> (\<exists>added. names' = names @ added) \<and>
    (\<forall>c. t = Some (Plain c) \<longrightarrow> capability_name names' c = Some spec)"
proof (cases "parse_kernel_authority_spec spec")
  case (Some a)
  with ok res show ?thesis by (auto simp: intern_capability_token_def)
next
  case None
  obtain q n1 where q: "try_intern nm sm spec names = (q, n1)" by (cases "try_intern nm sm spec names")
  with None res have "names' = n1" "t = (case q of Inl _ \<Rightarrow> None | Inr c \<Rightarrow> Some (Plain c))"
    by (auto simp: intern_capability_token_def intern_def split: sum.splits)
  with try_intern_correct [OF ok q] show ?thesis by (auto split: sum.splits)
qed

lemma manage_transfer_effect:
  assumes ok: "cap_state_ok s" and res: "manage_transfer mem dest spec s = (r, s')"
  shows "cap_effect r s s'"
proof (cases "split_once (CHR 0x1f) spec")
  case None
  with ok res show ?thesis by (simp add: manage_transfer_def cap_effect_refl)
next
  case (Some parts)
  obtain cap_spec claimed where parts: "parts = (cap_spec, claimed)" by (cases parts)
  obtain t names where t: "intern_capability_token (tm_name mem) (tm_slot mem) cap_spec (cs_names s) = (t, names)"
    by fastforce
  have "registry_ok (cs_names s)" using ok by (simp add: cap_state_ok_def)
  note names = intern_token_correct [OF this t]
  have quiet: "cap_effect x s (s\<lparr>cs_names := names\<rparr>)" for x using names by (simp add: cap_effect_def)
  show ?thesis
  proof (cases "with_process (cs_processes s) dest (\<lambda>p. exe_path p = claimed) = Some True")
    case False
    with Some parts ok res show ?thesis by (simp add: manage_transfer_def cap_effect_refl)
  next
    case True
    then obtain p where p: "cs_processes s dest = Some p" "exe_path p = claimed" by (auto simp: with_process_def)
    show ?thesis
    proof (cases "\<exists>c. t = Some (Plain c) \<and> is_delegable names c")
      case False
      with Some parts True t res have "s' = s\<lparr>cs_names := names\<rparr>"
        by (auto simp: manage_transfer_def split: option.splits capability_token.splits)
      with quiet show ?thesis by simp
    next
      case c: True
      then obtain c where c: "t = Some (Plain c)" "is_delegable names c" by blast
      have pok: "caps_ok (capabilities p)" using cap_state_okD [OF ok p(1)] by (rule process_okD)
      define x where "x = fst (caps_try_insert (tm_set mem) c (capabilities p))"
      define caps where "caps = snd (caps_try_insert (tm_set mem) c (capabilities p))"
      have s': "s' = s\<lparr>cs_names := names, cs_processes := (cs_processes s)(dest \<mapsto> p\<lparr>capabilities := caps\<rparr>)\<rparr>"
        "r = grant_result (Some x) NotFound"
        using Some parts True t c p res
        by (auto simp: manage_transfer_def with_process_mut_def grant_plain_def x_def caps_def split: prod.splits)
      have "caps = capabilities p \<or> x = Inr () \<and> caps = caps_insert c (capabilities p)"
        by (auto simp: x_def caps_def caps_try_insert_eq [OF pok])
      moreover have "capability_name names c \<noteq> None" using names c(1) by simp
      ultimately have "cs_processes s' = cs_processes s \<or> r = SUCCESS \<and> cap_change s (cs_names s') (cs_processes s')"
        using cap_change.grant [OF p(1) c(2)] p(1) unfolding s' by auto
      with s' names show ?thesis by (auto simp: cap_effect_def)
    qed
  qed
qed

lemma move_token_cases:
  assumes ok: "cap_state_ok s" and pids: "src \<noteq> dst" "cs_processes s src = Some p" "cs_processes s dst = Some q"
    and allowed: "transfer_allowed s src t" and run: "move_token mem t p q = (b, p', q')"
  shows "(cs_processes s)(src \<mapsto> p', dst \<mapsto> q') = cs_processes s \<or>
    b = Inr () \<and> cap_change s (cs_names s) ((cs_processes s)(src \<mapsto> p', dst \<mapsto> q'))"
proof -
  have qok: "caps_ok (capabilities q)" using cap_state_okD [OF ok pids(3)] by (rule process_okD)
  have same: "?thesis" if "p' = p" "q' = q" using that pids by simp
  show ?thesis
  proof (cases t)
    case (Plain c)
    show ?thesis
    proof (cases "caps_contains_exact c (capabilities p) \<and> (c \<in> set (capabilities q) \<or> mem)")
      case True
      with Plain run have "b = Inr ()" "p' = p\<lparr>capabilities := snd (caps_remove c (capabilities p))\<rparr>"
        "q' = q\<lparr>capabilities := caps_insert c (capabilities q)\<rparr>"
        by (auto simp: move_token_def caps_try_insert_eq [OF qok])
      moreover have "is_delegable (cs_names s) c"
        using allowed Plain by (auto simp: transfer_allowed_def split: if_splits)
      ultimately show ?thesis using True cap_change.move_plain [OF pids] by simp
    next
      case False
      with Plain run have "p' = p" "q' = q"
        by (auto simp: move_token_def caps_try_insert_eq [OF qok] split: if_splits)
      then show ?thesis by (rule same)
    qed
  next
    case (Authority a)
    show ?thesis
    proof (cases "auths_contains_exact a (kernel_authorities p) \<and> (a \<in> set (kernel_authorities q) \<or> mem)")
      case True
      with Authority run have "b = Inr ()"
        "p' = p\<lparr>kernel_authorities := snd (auths_remove_exact a (kernel_authorities p))\<rparr>"
        "q' = q\<lparr>kernel_authorities := auths_insert a (kernel_authorities q)\<rparr>"
        by (auto simp: move_token_def auths_try_insert_eq)
      with True cap_change.move_auth [OF pids] show ?thesis by simp
    next
      case False
      with Authority run have "p' = p" "q' = q"
        by (auto simp: move_token_def auths_try_insert_eq split: if_splits)
      then show ?thesis by (rule same)
    qed
  qed
qed

lemma transfer_capability_effect:
  assumes ok: "cap_state_ok s" and res: "transfer_capability mx inp mem cur dest ptr len s = (r, s')"
  shows "cap_effect r s s'"
proof -
  consider (refl) "s' = s"
    | (manage) d spec where "manage_transfer mem d spec s = (r, s')"
    | (move) pid d t where "transfer_allowed s pid t" "d \<noteq> pid"
        "r = grant_result (fst (with_process_pair_mut (cs_processes s) pid d (move_token (tm_set mem) t))) NotFound"
        "s' = s\<lparr>cs_processes := snd (with_process_pair_mut (cs_processes s) pid d (move_token (tm_set mem) t))\<rparr>"
  proof (cases "current_process s cur")
    case None
    with res refl show thesis by (simp add: transfer_capability_def)
  next
    case pid: (Some pid)
    show thesis
    proof (cases "read_capability_spec_from_user mx inp ptr len")
      case (Inl e)
      with pid res refl show thesis by (simp add: transfer_capability_def)
    next
      case spec: (Inr spec)
      show thesis
      proof (cases "resolve_destination_process s dest")
        case None
        with pid spec res refl show thesis by (simp add: transfer_capability_def)
      next
        case d: (Some d)
        show thesis
        proof (cases "process_has_capability (cs_processes s) pid CapabilitiesManage")
          case True
          with pid spec d res show thesis by (intro manage) (simp add: transfer_capability_def)
        next
          case False
          note run = res [unfolded transfer_capability_def pid spec d option.case sum.case if_not_P [OF False]]
          show thesis
          proof (cases "\<exists>t. parse_capability_token (cs_names s) spec = Some t \<and> transfer_allowed s pid t \<and> d \<noteq> pid")
            case True
            then obtain t where t: "parse_capability_token (cs_names s) spec = Some t" "transfer_allowed s pid t" "d \<noteq> pid"
              by blast
            with run show thesis by (intro move [OF t(2,3)]) (simp_all split: prod.splits)
          next
            case False
            with run have "s' = s" by (auto split: option.splits if_splits)
            then show thesis by (rule refl)
          qed
        qed
      qed
    qed
  qed
  then show ?thesis
  proof cases
    case refl
    with ok show ?thesis by (simp add: cap_effect_refl)
  next
    case manage
    with ok show ?thesis by (rule manage_transfer_effect)
  next
    case move
    show ?thesis
    proof (cases "\<exists>p q. cs_processes s pid = Some p \<and> cs_processes s d = Some q")
      case False
      with move ok show ?thesis
        by (auto simp: with_process_pair_mut_def cap_effect_refl split: option.splits)
    next
      case True
      then obtain p q where pq: "cs_processes s pid = Some p" "cs_processes s d = Some q" by blast
      obtain b p' q' where b: "move_token (tm_set mem) t p q = (b, p', q')" by (cases "move_token (tm_set mem) t p q")
      from move pq b have s': "r = grant_result (Some b) NotFound"
        "s' = s\<lparr>cs_processes := (cs_processes s)(pid \<mapsto> p', d \<mapsto> q')\<rparr>"
        by (auto simp: with_process_pair_mut_def)
      from move_token_cases [OF ok _ pq move(1) b] move(2) ok show ?thesis
        unfolding s' by (intro cap_effect_processes) auto
    qed
  qed
qed

section \<open>Every call keeps the invariant\<close>

lemma named_mono: "capability_name names c \<noteq> None \<Longrightarrow> capability_name (names @ added) c \<noteq> None"
  using capability_name_append by (metis option.distinct(1) option.exhaust)

lemma process_ok_remove:
  "process_ok ns p \<Longrightarrow> process_ok ns (p\<lparr>capabilities := snd (caps_remove c (capabilities p))\<rparr>)"
  using caps_remove_correct [of "capabilities p" c, OF _ surjective_pairing] by (simp add: process_ok_def)

lemma process_ok_insert:
  "process_ok ns p \<Longrightarrow> capability_name ns c \<noteq> None \<Longrightarrow>
    process_ok ns (p\<lparr>capabilities := caps_insert c (capabilities p)\<rparr>)"
  using caps_insert_correct [of "capabilities p" c] by (simp add: process_ok_def)

lemma process_ok_remove_auth:
  "process_ok ns p \<Longrightarrow> process_ok ns (p\<lparr>kernel_authorities := snd (auths_remove_exact a (kernel_authorities p))\<rparr>)"
  using auths_remove_exact_correct [of "kernel_authorities p" a, OF _ surjective_pairing] by (simp add: process_ok_def)

lemma process_ok_insert_auth:
  "process_ok ns p \<Longrightarrow> process_ok ns (p\<lparr>kernel_authorities := auths_insert a (kernel_authorities p)\<rparr>)"
  using auths_insert_correct [of "kernel_authorities p" a] by (simp add: process_ok_def)

lemma cap_change_ok:
  assumes "cap_change s ns table" and "\<And>pid p. cs_processes s pid = Some p \<Longrightarrow> process_ok ns p"
    and "\<And>c. capability_name (cs_names s) c \<noteq> None \<Longrightarrow> capability_name ns c \<noteq> None"
    and "table pid = Some p"
  shows "process_ok ns p"
  using assms
proof (induction rule: cap_change.induct)
  case (drop_plain s k q c caps ns)
  then show ?case using process_ok_remove [of ns q c] by (auto split: if_splits)
next
  case (drop_auth s k q a auths ns)
  then show ?case using process_ok_remove_auth [of ns q a] by (auto split: if_splits)
next
  case (grant s k q ns c)
  then show ?case using process_ok_insert [of ns q c] by (auto split: if_splits)
next
  case (move_plain src dst s p1 q c ns)
  have "capability_name ns c \<noteq> None"
    using move_plain.prems(1) [OF move_plain(2)] move_plain(4) caps_contains_exact_iff [OF process_okD(1)]
    by (auto simp: process_ok_def)
  with move_plain show ?case
    using process_ok_remove [of ns p1 c] process_ok_insert [of ns q c] by (auto split: if_splits)
next
  case (move_auth src dst s p1 q a ns)
  then show ?case
    using process_ok_remove_auth [of ns p1 a] process_ok_insert_auth [of ns q a] by (auto split: if_splits)
next
  case (shrink_plain s k q c r ns)
  then show ?case
    using process_ok_insert [OF process_ok_remove [of ns q c], of r] by (auto split: if_splits)
next
  case (shrink_auth s k q a r ns)
  then show ?case
    using process_ok_insert_auth [OF process_ok_remove_auth [of ns q a], of r] by (auto split: if_splits)
qed

lemma cap_effect_ok:
  assumes "cap_effect r s s'" and "cap_state_ok s"
  shows "cap_state_ok s'"
proof -
  from assms(1) obtain added where n: "cs_names s' = cs_names s @ added" "registry_ok (cs_names s')"
    by (auto simp: cap_effect_def)
  have "process_ok (cs_names s') p" if "cs_processes s' pid = Some p" for pid p
  proof (cases "cs_processes s' = cs_processes s")
    case True
    with that assms(2) n(1) show ?thesis by (simp add: process_ok_append cap_state_okD)
  next
    case False
    with assms(1) have "cap_change s (cs_names s') (cs_processes s')" by (simp add: cap_effect_def)
    then show ?thesis
    proof (rule cap_change_ok)
      show "cs_processes s' pid = Some p" by (rule that)
      show "process_ok (cs_names s') q" if "cs_processes s k = Some q" for k q
        using cap_state_okD [OF assms(2) that] n(1) by (simp add: process_ok_append)
      show "capability_name (cs_names s') c \<noteq> None" if "capability_name (cs_names s) c \<noteq> None" for c
        using named_mono [OF that] n(1) by simp
    qed
  qed
  with n(2) show ?thesis by (simp add: cap_state_ok_def)
qed

section \<open>Authority never grows\<close>

lemma process_has_capability_iff:
  "process_has_capability table pid c \<longleftrightarrow> (\<exists>p. table pid = Some p \<and> caps_implies (capabilities p) c)"
  by (auto simp: process_has_capability_def with_process_def caps_contains_def split: option.splits)

lemma process_has_kernel_authority_iff:
  "process_has_kernel_authority table pid a \<longleftrightarrow>
    (\<exists>p. table pid = Some p \<and> auths_implies (kernel_authorities p) a)"
  by (auto simp: process_has_kernel_authority_def with_process_def split: option.splits)

lemma caps_implies_mono: "set caps' \<subseteq> set caps \<Longrightarrow> caps_implies caps' x \<Longrightarrow> caps_implies caps x"
  by (auto simp: caps_implies_iff)

lemma auths_implies_mono: "set auths' \<subseteq> set auths \<Longrightarrow> auths_implies auths' x \<Longrightarrow> auths_implies auths x"
  by (auto simp: auths_implies_iff)

lemma caps_remove_subset: "set (snd (caps_remove c caps)) \<subseteq> set caps"
  using set_vec_remove_subset by (fastforce simp: caps_remove_def split: sum.splits)

lemma auths_remove_subset: "set (snd (auths_remove_exact a auths)) \<subseteq> set auths"
  using set_vec_remove_subset by (fastforce simp: auths_remove_exact_def split: option.splits)

lemma caps_insert_subset: "set (caps_insert c caps) \<subseteq> insert c (set caps)"
  by (auto simp: caps_insert_def split: sum.splits)

lemma auths_insert_subset: "set (auths_insert c caps) \<subseteq> insert c (set caps)"
  by (auto simp: auths_insert_def)

text \<open>Inserting a delegable capability adds nothing a non-delegable one could follow from.\<close>

lemma delegable_insert:
  assumes "is_delegable names c" and "\<not> is_delegable names x" and "caps_implies (caps_insert c caps) x"
  shows "caps_implies caps x"
  using assms delegable_implies_only_itself caps_insert_subset unfolding caps_implies_iff by blast

lemma plain_restriction:
  assumes "caps_ok caps" and "caps_contains_exact c caps" and "capability_implies c r"
    and "caps_implies (caps_insert r (snd (caps_remove c caps))) x"
  shows "caps_implies caps x"
  using assms plain.replacement_grants [of c caps r "caps_insert r (snd (caps_remove c caps))" x]
    caps_insert_subset [of r "snd (caps_remove c caps)"] caps_remove_subset [of c caps]
  by (auto simp: caps_implies_def caps_contains_exact_iff)

lemma authority_restriction:
  assumes "auths_contains_exact a auths" and "kernel_authority_implies a r"
    and "auths_implies (auths_insert r (snd (auths_remove_exact a auths))) x"
  shows "auths_implies auths x"
  using assms kernel.replacement_grants [of a auths r "auths_insert r (snd (auths_remove_exact a auths))" x]
    auths_insert_subset [of r "snd (auths_remove_exact a auths)"] auths_remove_subset [of a auths]
  by (auto simp: auths_implies_def auths_contains_exact_def)

lemma nondelegable_change:
  assumes "cap_change s ns table" and "cap_state_ok s" and "ns = cs_names s @ added"
    and "\<not> is_delegable (cs_names s) x" and "capability_name (cs_names s) x \<noteq> None"
    and "process_has_capability table pid x"
  shows "process_has_capability (cs_processes s) pid x"
  using assms
proof (induction rule: cap_change.induct)
  case (drop_plain s k q c caps ns)
  then show ?case using caps_implies_mono [OF caps_remove_subset [of c "capabilities q"]]
    by (auto simp: process_has_capability_iff split: if_splits)
next
  case (drop_auth s k q a auths ns)
  then show ?case by (auto simp: process_has_capability_iff split: if_splits)
next
  case (grant s k q ns c)
  then have "\<not> is_delegable ns x" by (simp add: is_delegable_named)
  with grant show ?case using delegable_insert [of ns c x "capabilities q"]
    by (auto simp: process_has_capability_iff split: if_splits)
next
  case (move_plain src dst s p q c ns)
  then show ?case
    using caps_implies_mono [OF caps_remove_subset [of c "capabilities p"]]
      delegable_insert [of "cs_names s" c x "capabilities q"]
    by (auto simp: process_has_capability_iff split: if_splits)
next
  case (move_auth src dst s p q a ns)
  then show ?case by (auto simp: process_has_capability_iff split: if_splits)
next
  case (shrink_plain s k q c r ns)
  then show ?case
    using plain_restriction [OF process_okD(1) [OF cap_state_okD], of s k q c r x]
    by (auto simp: process_has_capability_iff split: if_splits)
next
  case (shrink_auth s k q a r ns)
  then show ?case by (auto simp: process_has_capability_iff split: if_splits)
qed

lemma kernel_authority_change:
  assumes "cap_change s ns table" and "process_has_kernel_authority table pid x"
  shows "\<exists>pid'. process_has_kernel_authority (cs_processes s) pid' x"
  using assms
proof (induction rule: cap_change.induct)
  case (drop_auth s k q a auths ns)
  then show ?case using auths_implies_mono [OF auths_remove_subset [of a "kernel_authorities q"]]
    by (auto simp: process_has_kernel_authority_iff split: if_splits)
next
  case (move_auth src dst s p q a ns)
  have "auths_implies (kernel_authorities p) x \<or> auths_implies (kernel_authorities q) x"
    if "auths_implies (auths_insert a (kernel_authorities q)) x"
    using that move_auth(4) auths_insert_subset [of a "kernel_authorities q"]
    by (auto simp: auths_implies_iff auths_contains_exact_def)
  with move_auth show ?case
    using auths_implies_mono [OF auths_remove_subset [of a "kernel_authorities p"]]
    by (auto simp: process_has_kernel_authority_iff split: if_splits)
next
  case (shrink_auth s k q a r ns)
  then show ?case using authority_restriction [of a "kernel_authorities q" r x]
    by (auto simp: process_has_kernel_authority_iff split: if_splits)
qed (auto simp: process_has_kernel_authority_iff split: if_splits)

section \<open>Sequences of calls\<close>

inductive cap_step :: "cap_state \<Rightarrow> cap_state \<Rightarrow> bool" where
  drop: "drop_capability mx inp cur ptr len s = (r, s') \<Longrightarrow> cap_step s s'"
| transfer: "transfer_capability mx inp mem cur dest ptr len s = (r, s') \<Longrightarrow> cap_step s s'"
| restrict: "restrict_capability mx i1 i2 cur p1 l1 p2 l2 s = (r, s') \<Longrightarrow> cap_step s s'"

lemma cap_step_effect: "cap_step s s' \<Longrightarrow> cap_state_ok s \<Longrightarrow> \<exists>r. cap_effect r s s'"
  by (induction rule: cap_step.induct)
    (blast intro: drop_capability_effect transfer_capability_effect restrict_capability_effect)+

lemma cap_steps_ok: "cap_step\<^sup>*\<^sup>* s s' \<Longrightarrow> cap_state_ok s \<Longrightarrow> cap_state_ok s' \<and> (\<exists>added. cs_names s' = cs_names s @ added)"
proof (induction rule: rtranclp_induct)
  case (step y z)
  then obtain r where "cap_effect r y z" using cap_step_effect by blast
  with step cap_effect_ok [OF this] show ?case by (auto simp: cap_effect_def)
qed simp

section \<open>Properties\<close>

text \<open>C1: no sequence of capability calls by any processes gives a process a registered capability that
  is not delegable, such as \<open>unsandboxed\<close> or \<open>capabilities.manage\<close>. Whatever a process may do on
  the strength of such a capability afterwards, it could do before.\<close>

theorem nondelegable_never_spreads:
  assumes "cap_state_ok s" and "cap_step\<^sup>*\<^sup>* s s'" and "\<not> is_delegable (cs_names s) c"
    and "capability_name (cs_names s) c \<noteq> None" and "process_has_capability (cs_processes s') pid c"
  shows "process_has_capability (cs_processes s) pid c"
  using assms(2,5)
proof (induction rule: rtranclp_induct)
  case (step y z)
  obtain added where y: "cap_state_ok y" and added: "cs_names y = cs_names s @ added"
    using cap_steps_ok [OF step(1) assms(1)] by auto
  have c: "\<not> is_delegable (cs_names y) c" "capability_name (cs_names y) c \<noteq> None"
    unfolding added using assms(3) is_delegable_named [OF assms(4)] named_mono [OF assms(4)] by simp_all
  obtain r where "cap_effect r y z" using cap_step_effect [OF step(2) y] by blast
  then have "process_has_capability (cs_processes y) pid c"
    using nondelegable_change [OF _ y _ c step.prems] step.prems by (auto simp: cap_effect_def)
  then show ?case by (rule step.IH)
qed

text \<open>C2: kernel authorities over objects are conserved. After any sequence of capability calls, an
  authority that some process holds or that follows from one it holds was held by, or followed
  from one held by, some process before: no call mints authority over physical memory.\<close>

theorem kernel_authority_conserved:
  assumes "cap_state_ok s" and "cap_step\<^sup>*\<^sup>* s s'"
    and "process_has_kernel_authority (cs_processes s') pid a"
  shows "\<exists>pid'. process_has_kernel_authority (cs_processes s) pid' a"
  using assms(2,3)
proof (induction arbitrary: pid rule: rtranclp_induct)
  case base
  then show ?case by blast
next
  case (step y z)
  obtain r where "cap_effect r y z" using cap_step_effect [OF step(2)] cap_steps_ok [OF step(1) assms(1)] by blast
  then have "\<exists>pid'. process_has_kernel_authority (cs_processes y) pid' a"
    using kernel_authority_change [OF _ step.prems] step.prems by (auto simp: cap_effect_def)
  with step.IH show ?case by blast
qed

text \<open>C23: a capability call that does not report success leaves the authorities of every process as
  they were.\<close>

theorem failed_call_changes_no_process:
  assumes "cap_state_ok s" and "r \<noteq> SUCCESS"
    and "(r, s') \<in> {drop_capability mx inp cur ptr len s,
      transfer_capability mx inp mem cur dest ptr len s,
      restrict_capability mx inp inp2 cur ptr len ptr2 len2 s}"
  shows "cs_processes s' = cs_processes s"
proof -
  from assms(3) have "cap_effect r s s'"
    using drop_capability_effect [OF assms(1)] transfer_capability_effect [OF assms(1)]
      restrict_capability_effect [OF assms(1)] by auto
  with assms(2) show ?thesis by (simp add: cap_effect_def)
qed

text \<open>C15: a caller without the right to manage capabilities can only move what it holds. When its
  transfer of a plain capability to another process succeeds, the capability is delegable, the caller
  held exactly it and loses it, the receiver gains it, and no other process changes.\<close>

theorem transfer_moves_capability:
  assumes "cap_state_ok s" and "current_process s cur = Some pid"
    and "\<not> process_has_capability (cs_processes s) pid CapabilitiesManage"
    and "read_capability_spec_from_user mx inp ptr len = Inr spec"
    and "parse_capability_token (cs_names s) spec = Some (Plain c)"
    and "resolve_destination_process s dest = Some d" and "d \<noteq> pid"
    and "transfer_capability mx inp mem cur dest ptr len s = (SUCCESS, s')"
  shows "\<exists>p q p' q'. cs_processes s pid = Some p \<and> cs_processes s d = Some q \<and>
    cs_processes s' = (cs_processes s)(pid \<mapsto> p', d \<mapsto> q') \<and> is_delegable (cs_names s) c \<and>
    c \<in> set (capabilities p) \<and> set (capabilities p') = set (capabilities p) - {c} \<and>
    set (capabilities q') = insert c (set (capabilities q)) \<and>
    kernel_authorities p' = kernel_authorities p \<and> kernel_authorities q' = kernel_authorities q"
proof -
  have allowed: "transfer_allowed s pid (Plain c)"
    using assms by (auto simp: transfer_capability_def split: if_splits)
  have run: "with_process_pair_mut (cs_processes s) pid d (move_token (tm_set mem) (Plain c)) =
      (Some (Inr ()), cs_processes s')"
    using assms allowed by (auto simp: transfer_capability_def split: prod.splits)
  then obtain p q where pq: "cs_processes s pid = Some p" "cs_processes s d = Some q"
    by (auto simp: with_process_pair_mut_def split: if_splits option.splits)
  have ok: "caps_ok (capabilities p)" "caps_ok (capabilities q)"
    using cap_state_okD [OF assms(1)] pq process_okD(1) by blast+
  have held: "c \<in> set (capabilities p)" and
    s': "cs_processes s' = (cs_processes s)
      (pid \<mapsto> p\<lparr>capabilities := snd (caps_remove c (capabilities p))\<rparr>,
       d \<mapsto> q\<lparr>capabilities := caps_insert c (capabilities q)\<rparr>)"
    using run pq assms(7) ok
    by (auto simp: with_process_pair_mut_def move_token_def caps_try_insert_eq caps_contains_exact_iff
        split: if_splits prod.splits)
  have "is_delegable (cs_names s) c" using allowed by (auto simp: transfer_allowed_def split: if_splits)
  with held s' pq caps_remove_correct [OF ok(1) surjective_pairing, of c] caps_insert_correct [OF ok(2), of c]
  show ?thesis by (intro exI [of _ p] exI [of _ q]
      exI [of _ "p\<lparr>capabilities := snd (caps_remove c (capabilities p))\<rparr>"]
      exI [of _ "q\<lparr>capabilities := caps_insert c (capabilities q)\<rparr>"]) simp
qed

subsection \<open>A transfer between two processes\<close>

definition demo_authority :: kernel_authority where
  "demo_authority = \<lparr>auth_capability = K_PhysMap, auth_object = MmioRegion 0x1000 0x2000\<rparr>"

definition demo_source :: cap_process where
  "demo_source = \<lparr>exe_path = ''/bin/a'', capabilities = [FsReadTmp, ProcessKill],
     kernel_authorities = [demo_authority]\<rparr>"

definition demo_target :: cap_process where
  "demo_target = \<lparr>exe_path = ''/bin/b'', capabilities = [], kernel_authorities = []\<rparr>"

definition demo_state :: cap_state where
  "demo_state = \<lparr>cs_processes = [7 \<mapsto> demo_source, 20 \<mapsto> demo_target], cs_names = [],
     cs_queue = demo_queue, cs_endpoints = initial_endpoints\<rparr>"

definition demo_state' :: cap_state where
  "demo_state' = demo_state\<lparr>cs_processes :=
     [7 \<mapsto> demo_source\<lparr>capabilities := [ProcessKill]\<rparr>, 20 \<mapsto> demo_target\<lparr>capabilities := [FsReadTmp]\<rparr>]\<rparr>"

definition demo_input :: user_input where
  "demo_input = \<lparr>buffer_mem = True, copied = (\<lambda>_ _. Inr ''fs.read.tmp'')\<rparr>"

definition demo_mem :: transfer_mem where
  "demo_mem = \<lparr>tm_name = True, tm_slot = True, tm_set = True\<rparr>"

lemma demo_state_ok: "cap_state_ok demo_state"
  by (simp add: cap_state_ok_def demo_state_def registry_ok_def MAX_DYNAMIC_CAPABILITIES_def process_ok_def
      caps_ok_def auths_ok_def demo_source_def demo_target_def less_capability_def capability_name_def)

lemma demo_spec: "read_capability_spec_from_user 512 demo_input 0x1000 11 = Inr ''fs.read.tmp''"
  by (simp add: read_capability_spec_from_user_def read_capability_name_def ISIZE_MAX_def MAX_TRANSFER_SPEC_LEN_def
      demo_input_def checked_add_def byte_in_def)

lemma demo_token: "parse_capability_token [] ''fs.read.tmp'' = Some (Plain FsReadTmp)"
  by (simp add: parse_capability_token_def parse_kernel_authority_spec_def strip_prefix_def capability_from_str_def
      builtin_capability_def bootstrap_capabilities_def)

lemma demo_current: "current_process demo_state (Some 1) = Some 7"
  by (simp add: current_process_def demo_state_def thread_to_process_id_def queue_get_def demo_queue_threads
      demo_thread_def)

lemma demo_destination: "resolve_destination_process demo_state 20 = Some 20"
  by (simp add: resolve_destination_process_def demo_state_def resolve_endpoint_handle_def
      endpoint_record_from_handle_def initial_endpoints_def with_process_def)

lemma demo_no_manage: "\<not> process_has_capability (cs_processes demo_state) 7 CapabilitiesManage"
  by (simp add: process_has_capability_iff demo_state_def demo_source_def caps_implies_def capability_implies_def)

lemma demo_delegable: "is_delegable [] FsReadTmp" "\<not> is_delegable [] ProcessKill"
  by (simp_all add: is_delegable_def metadata_def CAPABILITIES_def user_metadata_def privileged_metadata_def
      system_metadata_def)

lemma demo_transfer:
  "transfer_capability 512 demo_input demo_mem (Some 1) 20 0x1000 11 demo_state = (SUCCESS, demo_state')"
proof -
  have n: "cs_names demo_state = []" by (simp add: demo_state_def)
  have "transfer_allowed demo_state 7 (Plain FsReadTmp)"
    using demo_delegable(1)
    by (simp add: transfer_allowed_def n process_has_capability_iff demo_state_def demo_source_def caps_implies_def
        capability_implies_def)
  moreover have "with_process_pair_mut (cs_processes demo_state) 7 20 (move_token True (Plain FsReadTmp)) =
    (Some (Inr ()), cs_processes demo_state')"
    by (simp add: with_process_pair_mut_def demo_state_def demo_state'_def demo_source_def demo_target_def move_token_def
        caps_contains_exact_def caps_try_insert_def caps_remove_def binary_search_by_key_def search_base.simps
        vec_insert_def vec_remove_def less_capability_def less_eq_capability_def fun_upd_twist)
  ultimately show ?thesis
    by (simp add: transfer_capability_def demo_current demo_spec demo_destination demo_no_manage n demo_token
        demo_mem_def grant_result_def) (simp add: demo_state'_def)
qed

lemma demo_step: "cap_step\<^sup>*\<^sup>* demo_state demo_state'"
  using cap_step.transfer [OF demo_transfer] by (rule r_into_rtranclp)

theorem nondelegable_never_spreads_witness: "process_has_capability (cs_processes demo_state) 7 ProcessKill"
proof (rule nondelegable_never_spreads [OF demo_state_ok demo_step])
  show "\<not> is_delegable (cs_names demo_state) ProcessKill" using demo_delegable by (simp add: demo_state_def)
  show "capability_name (cs_names demo_state) ProcessKill \<noteq> None" by (simp add: capability_name_def)
  show "process_has_capability (cs_processes demo_state') 7 ProcessKill"
    by (simp add: process_has_capability_iff demo_state'_def caps_implies_def)
qed

theorem kernel_authority_conserved_witness:
  "\<exists>pid. process_has_kernel_authority (cs_processes demo_state) pid demo_authority"
proof (rule kernel_authority_conserved [OF demo_state_ok demo_step])
  show "process_has_kernel_authority (cs_processes demo_state') 7 demo_authority"
    by (simp add: process_has_kernel_authority_iff demo_state'_def demo_source_def auths_implies_def
        demo_authority_def kernel_authority_implies_region)
qed

theorem failed_call_changes_no_process_witness:
  "cs_processes (snd (drop_capability 512 demo_input None 0x1000 11 demo_state)) = cs_processes demo_state"
proof (rule failed_call_changes_no_process [OF demo_state_ok])
  show "into_raw NotReady \<noteq> SUCCESS" by simp
  show "(into_raw NotReady, snd (drop_capability 512 demo_input None 0x1000 11 demo_state)) \<in>
    {drop_capability 512 demo_input None 0x1000 11 demo_state,
     transfer_capability 512 demo_input demo_mem None 20 0x1000 11 demo_state,
     restrict_capability 512 demo_input demo_input None 0x1000 11 0x1000 11 demo_state}"
    by (simp add: drop_capability_def current_process_def)
qed

theorem transfer_moves_capability_witness:
  "\<exists>p q p' q'. cs_processes demo_state 7 = Some p \<and> cs_processes demo_state 20 = Some q \<and>
    cs_processes demo_state' = (cs_processes demo_state)(7 \<mapsto> p', 20 \<mapsto> q') \<and> is_delegable (cs_names demo_state) FsReadTmp \<and>
    FsReadTmp \<in> set (capabilities p) \<and> set (capabilities p') = set (capabilities p) - {FsReadTmp} \<and>
    set (capabilities q') = insert FsReadTmp (set (capabilities q)) \<and>
    kernel_authorities p' = kernel_authorities p \<and> kernel_authorities q' = kernel_authorities q"
proof (rule transfer_moves_capability [OF demo_state_ok demo_current demo_no_manage demo_spec _ demo_destination _ demo_transfer])
  show "parse_capability_token (cs_names demo_state) ''fs.read.tmp'' = Some (Plain FsReadTmp)"
    using demo_token by (simp add: demo_state_def)
qed simp

end
