(* ===== verification/Rights.thy ===== *)
theory Rights
  imports Prelude
begin

text \<open>
  Rights as bit masks. \<open>contains\<close> and \<open>union\<close> of the handle rights and of the endpoint
  rights obey the same laws (\<open>rights_order\<close>), and every way of passing on an object obeys one
  contract (\<open>attenuation\<close>): what is held after a step was held before it, for the same object
  and with at least the same rights. The contract is closed under sequences of steps.
\<close>

locale rights_order =
  fixes contains :: "'r \<Rightarrow> 'r \<Rightarrow> bool" and unite :: "'r \<Rightarrow> 'r \<Rightarrow> 'r"
  assumes contains_refl: "contains r r"
    and contains_trans: "contains a b \<Longrightarrow> contains b c \<Longrightarrow> contains a c"
    and contains_antisym: "contains a b \<Longrightarrow> contains b a \<Longrightarrow> a = b"
    and contains_union_iff: "contains a (unite b c) \<longleftrightarrow> contains a b \<and> contains a c"
    and union_contains: "contains a b \<Longrightarrow> contains (unite a c) b"
begin

lemma union_upper: "contains (unite a b) a" "contains (unite a b) b"
  using contains_refl [of "unite a b"] by (simp_all add: contains_union_iff)

lemma union_absorb: "contains a b \<Longrightarrow> unite a b = a"
  by (rule contains_antisym) (auto simp: contains_union_iff contains_refl union_contains)

end

locale attenuation = rights_order contains unite
  for contains :: "'r \<Rightarrow> 'r \<Rightarrow> bool" and unite :: "'r \<Rightarrow> 'r \<Rightarrow> 'r" +
  fixes held :: "'s \<Rightarrow> ('o \<times> 'r) set" and step :: "'s \<Rightarrow> 's \<Rightarrow> bool"
  assumes step_attenuates: "step s s' \<Longrightarrow> (obj, r') \<in> held s' \<Longrightarrow> \<exists>r. (obj, r) \<in> held s \<and> contains r r'"
begin

lemma run_attenuates:
  "step\<^sup>*\<^sup>* s s' \<Longrightarrow> (obj, r') \<in> held s' \<Longrightarrow> \<exists>r. (obj, r) \<in> held s \<and> contains r r'"
proof (induction arbitrary: r' rule: rtranclp_induct)
  case base
  then show ?case using contains_refl by blast
next
  case (step y z)
  from step_attenuates [OF step.hyps(2) step.prems] obtain r where "(obj, r) \<in> held y" "contains r r'" by blast
  with step.IH [of r] show ?case using contains_trans by blast
qed

lemma right_never_appears:
  assumes "step\<^sup>*\<^sup>* s s'" and "\<And>r. (obj, r) \<in> held s \<Longrightarrow> \<not> contains r q"
    and "(obj, r') \<in> held s'"
  shows "\<not> contains r' q"
  using run_attenuates [OF assms(1,3)] assms(2) contains_trans by blast

end

lemma mask_contains_iff: "(a :: 'w::len word) AND b = b \<longleftrightarrow> (\<forall>n. bit b n \<longrightarrow> bit a n)"
  by (auto simp: bit_eq_iff bit_and_iff dest: bit_imp_le_length)

lemma mask_rights_order: "rights_order (\<lambda>a b. a AND b = b) ((OR) :: 'w::len word \<Rightarrow> 'w word \<Rightarrow> 'w word)"
proof
  show "a = b" if "a AND b = b" "b AND a = a" for a b :: "'w word"
    using that by (simp add: and.commute)
qed (auto simp: mask_contains_iff bit_or_iff)

end
