(* ===== verification/Sorted_Vec.thy ===== *)
theory Sorted_Vec
  imports Prelude
begin

text \<open>
  A \<open>Vec\<close> of key-value pairs kept sorted by key, as the handle table, its snapshots and the
  memory tables keep them: every access is a binary search, an insertion goes to the position the
  search reports. The lemmas read the vector as the partial map \<open>map_of\<close>.
\<close>

named_theorems sorted_vec \<open>a sorted vector read as a partial map\<close>

definition keys_sorted :: "('k::linorder \<times> 'v) list \<Rightarrow> bool" where
  "keys_sorted xs \<longleftrightarrow> sorted_wrt (<) (map fst xs)"

lemma keys_sorted_Nil [simp]: "keys_sorted []"
  by (simp add: keys_sorted_def)

lemma keys_sorted_distinct: "keys_sorted xs \<Longrightarrow> distinct (map fst xs)"
  unfolding keys_sorted_def by (rule sorted_less_distinct)

lemma search_found:
  assumes "keys_sorted xs" and "binary_search_by_key fst k xs = Inr i"
  shows "i < length xs" and "map_of xs k = Some (snd (xs ! i))" and "fst (xs ! i) = k"
proof -
  show i: "i < length xs" and k: "fst (xs ! i) = k"
    using binary_search_Inr [OF assms [unfolded keys_sorted_def]] by auto
  have "xs ! i = (k, snd (xs ! i))" using k by (metis prod.collapse)
  with i have "(k, snd (xs ! i)) \<in> set xs" by (metis nth_mem)
  with keys_sorted_distinct [OF assms(1)] show "map_of xs k = Some (snd (xs ! i))" by simp
qed

lemma search_missing:
  assumes "keys_sorted xs" and "binary_search_by_key fst k xs = Inl i"
  shows "map_of xs k = None" and "i \<le> length xs"
proof -
  have "k \<notin> fst ` set xs"
    using binary_search_found_iff [of fst xs k] assms by (simp add: keys_sorted_def)
  then show "map_of xs k = None" by (simp add: map_of_eq_None_iff)
  show "i \<le> length xs" using binary_search_Inl [OF assms [unfolded keys_sorted_def]] by simp
qed

text \<open>The search reads nothing but the keys.\<close>

lemma search_base_in_range: "0 < n \<Longrightarrow> b + n \<le> length xs \<Longrightarrow> search_base f k xs b n < length xs"
proof (induction n arbitrary: b rule: less_induct)
  case (less n)
  then show ?case by (subst search_base.simps) (auto simp: Let_def intro!: less.IH)
qed

lemma search_base_cong:
  assumes "map f xs = map g ys"
  shows "0 < n \<Longrightarrow> b + n \<le> length xs \<Longrightarrow> search_base f k xs b n = search_base g k ys b n"
proof (induction n arbitrary: b rule: less_induct)
  case (less n)
  have "f (xs ! (b + n div 2)) = g (ys ! (b + n div 2))"
    using less.prems assms by (metis add_less_cancel_left div_less_dividend length_map less_le_trans nth_map
        one_less_numeral_iff semiring_norm(76))
  then show ?case
    using less by (subst (1 2) search_base.simps) (simp add: Let_def)
qed

lemma binary_search_cong:
  assumes "map f xs = map g ys"
  shows "binary_search_by_key f k xs = binary_search_by_key g k ys"
proof (cases "xs = []")
  case True
  then show ?thesis using assms by (simp add: binary_search_by_key_def)
next
  case False
  have len: "length ys = length xs" and ne: "ys \<noteq> []" using assms False map_eq_imp_length_eq [OF assms] by auto
  have base: "search_base f k xs 0 (length xs) = search_base g k ys 0 (length xs)"
    using False by (intro search_base_cong [OF assms]) auto
  have "search_base f k xs 0 (length xs) < length xs" using False by (intro search_base_in_range) auto
  then have "f (xs ! search_base f k xs 0 (length xs)) = g (ys ! search_base g k ys 0 (length xs))"
    using base len assms by (metis nth_map)
  then show ?thesis using False ne len base by (simp add: binary_search_by_key_def Let_def)
qed

lemma search_lookup [sorted_vec]:
  "keys_sorted xs \<Longrightarrow>
   (case binary_search_by_key fst k xs of Inr i \<Rightarrow> Some (snd (xs ! i)) | Inl _ \<Rightarrow> None) = map_of xs k"
  by (cases "binary_search_by_key fst k xs") (auto simp: search_found search_missing)

lemma sorted_insert [sorted_vec]:
  assumes "keys_sorted xs" and "binary_search_by_key fst k xs = Inl i"
  shows "keys_sorted (vec_insert i (k, v) xs)" and "map_of (vec_insert i (k, v) xs) = (map_of xs)(k \<mapsto> v)"
proof -
  show s: "keys_sorted (vec_insert i (k, v) xs)"
    using binary_search_insert_sorted [of fst xs "(k, v)" i] assms by (simp add: keys_sorted_def)
  have d: "distinct (map fst xs)" using assms(1) by (rule keys_sorted_distinct)
  show "map_of (vec_insert i (k, v) xs) = (map_of xs)(k \<mapsto> v)"
  proof
    fix q
    show "map_of (vec_insert i (k, v) xs) q = ((map_of xs)(k \<mapsto> v)) q"
    proof (cases "q = k")
      case True
      then show ?thesis using keys_sorted_distinct [OF s] by simp
    next
      case False
      have "map_of xs q = (map_of (drop i xs) ++ map_of (take i xs)) q"
        unfolding map_of_append [symmetric] append_take_drop_id ..
      then show ?thesis unfolding vec_insert_def using False by (simp add: map_add_def split: option.splits)
    qed
  qed
qed

lemma sorted_remove [sorted_vec]:
  assumes "keys_sorted xs" and "binary_search_by_key fst k xs = Inr i"
  shows "keys_sorted (vec_remove i xs)" and "map_of (vec_remove i xs) = (map_of xs)(k := None)"
proof -
  have i: "i < length xs" and k: "fst (xs ! i) = k" using search_found [OF assms] by auto
  show "keys_sorted (vec_remove i xs)"
    using assms(1) by (simp add: keys_sorted_def map_vec_remove vec_remove_sorted)
  have d: "distinct (map fst xs)" using assms(1) by (rule keys_sorted_distinct)
  have xs: "xs = take i xs @ xs ! i # drop (Suc i) xs" using i by (rule id_take_nth_drop)
  from d have "k \<notin> fst ` set (vec_remove i xs)"
    using distinct_vec_remove [of "map fst xs" i] i k by (simp flip: map_vec_remove)
  then have none: "map_of (vec_remove i xs) k = None" by (simp add: map_of_eq_None_iff)
  show "map_of (vec_remove i xs) = (map_of xs)(k := None)"
  proof
    fix q
    have "map_of xs q = map_of (take i xs @ xs ! i # drop (Suc i) xs) q" using xs by simp
    then show "map_of (vec_remove i xs) q = ((map_of xs)(k := None)) q"
      using none k by (cases "q = k") (auto simp: vec_remove_def map_add_def split: option.splits prod.splits)
  qed
qed

lemma sorted_filter [sorted_vec]:
  assumes "keys_sorted xs"
  shows "keys_sorted (filter (\<lambda>(k, _). p k) xs)"
    and "map_of (filter (\<lambda>(k, _). p k) xs) = map_of xs |` {k. p k}"
proof -
  show "keys_sorted (filter (\<lambda>(k, _). p k) xs)"
    using assms sorted_wrt_filter [of "\<lambda>x y. fst x < fst y" xs "\<lambda>(k, _). p k"]
    by (simp add: keys_sorted_def sorted_wrt_map)
  show "map_of (filter (\<lambda>(k, _). p k) xs) = map_of xs |` {k. p k}"
  proof
    fix q show "map_of (filter (\<lambda>(k, _). p k) xs) q = (map_of xs |` {k. p k}) q"
      by (induction xs) (auto simp: restrict_map_def)
  qed
qed

lemma dom_map_of_fst: "dom (map_of xs) = fst ` set xs"
  by (rule dom_map_of_conv_image_fst)

lemma card_dom_sorted: "keys_sorted xs \<Longrightarrow> card (dom (map_of xs)) = length xs"
  using keys_sorted_distinct [of xs] distinct_card [of "map fst xs"] by (simp add: dom_map_of_fst)

lemma map_of_in_set: "keys_sorted xs \<Longrightarrow> map_of xs k = Some v \<longleftrightarrow> (k, v) \<in> set xs"
  using keys_sorted_distinct [of xs] by simp

end
