(* ===== verification/Handle_Table.thy ===== *)
theory Handle_Table
  imports Rights Sorted_Vec Status
begin

text \<open>
  The per-process table of object handles, \<^verbatim>\<open>src/task/handle_table.rs\<close>: handle rights, the
  kernel objects behind a handle, the sorted vector of published entries with its round-robin
  selector, and the reservations that hold a selector and its storage before an entry is published.
  An \<open>Arc\<close> is the address of the object it owns, so \<open>Arc::ptr_eq\<close> is equality. The
  outcome of each \<open>try_reserve\<close> is a boolean argument.

  The invariant \<open>table_ok\<close> is kept by every operation; the published entries refine a partial
  map from selectors to entries, and a free selector is found whenever the table is not full.
\<close>

section \<open>Handles and rights\<close>

definition PROCESS_MAX_OBJECT_HANDLES :: nat where
  "PROCESS_MAX_OBJECT_HANDLES = 4096"

type_synonym object_handle = u32

definition object_handle_from_raw :: "u32 \<Rightarrow> object_handle option" where
  "object_handle_from_raw raw = (if raw = 0 then None else Some raw)"

type_synonym handle_rights = u64

definition R_READ :: handle_rights where "R_READ = push_bit 0 1"
definition R_WRITE :: handle_rights where "R_WRITE = push_bit 1 1"
definition R_SEND :: handle_rights where "R_SEND = push_bit 2 1"
definition R_RECEIVE :: handle_rights where "R_RECEIVE = push_bit 3 1"
definition R_WAIT :: handle_rights where "R_WAIT = push_bit 4 1"
definition R_SIGNAL :: handle_rights where "R_SIGNAL = push_bit 5 1"
definition R_MAP :: handle_rights where "R_MAP = push_bit 6 1"
definition R_SEEK :: handle_rights where "R_SEEK = push_bit 7 1"
definition R_CONTROL :: handle_rights where "R_CONTROL = push_bit 8 1"
definition R_DUPLICATE :: handle_rights where "R_DUPLICATE = push_bit 62 1"
definition R_TRANSFER :: handle_rights where "R_TRANSFER = push_bit 63 1"

definition R_ALL :: handle_rights where
  "R_ALL = R_READ OR R_WRITE OR R_SEND OR R_RECEIVE OR R_WAIT OR R_SIGNAL OR R_MAP OR R_SEEK
     OR R_CONTROL OR R_DUPLICATE OR R_TRANSFER"

definition rights_from_bits :: "u64 \<Rightarrow> handle_rights option" where
  "rights_from_bits bits = (if bits AND NOT R_ALL = 0 then Some bits else None)"

definition rights_contains :: "handle_rights \<Rightarrow> handle_rights \<Rightarrow> bool" where
  "rights_contains self required \<longleftrightarrow> self AND required = required"

definition rights_union :: "handle_rights \<Rightarrow> handle_rights \<Rightarrow> handle_rights" where
  "rights_union self other = self OR other"

interpretation hr: rights_order rights_contains rights_union
  unfolding rights_contains_def [abs_def] rights_union_def [abs_def] by (rule mask_rights_order)

section \<open>Kernel objects\<close>

type_synonym arc = nat

datatype kernel_object =
    O_IpcEndpoint u64 u16 u64
  | O_Process arc
  | O_Thread u64
  | O_VmObject arc
  | O_MemoryUpdate arc
  | O_MemoryAdmission arc
  | O_AddressSpace arc
  | O_HandleSnapshot arc
  | O_Completion arc
  | O_File arc
  | O_Provider arc

definition is_same_object :: "kernel_object \<Rightarrow> kernel_object \<Rightarrow> bool" where
  "is_same_object self other =
     (case self of
        O_IpcEndpoint left_thread left_slot left_generation \<Rightarrow>
          (case other of
             O_IpcEndpoint right_thread right_slot right_generation \<Rightarrow>
               left_thread = right_thread \<and> left_slot = right_slot \<and> left_generation = right_generation
           | _ \<Rightarrow> False)
      | O_Process l \<Rightarrow> (case other of O_Process r \<Rightarrow> l = r | _ \<Rightarrow> False)
      | O_Thread l \<Rightarrow> (case other of O_Thread r \<Rightarrow> l = r | _ \<Rightarrow> False)
      | O_VmObject l \<Rightarrow> (case other of O_VmObject r \<Rightarrow> l = r | _ \<Rightarrow> False)
      | O_MemoryUpdate l \<Rightarrow> (case other of O_MemoryUpdate r \<Rightarrow> l = r | _ \<Rightarrow> False)
      | O_MemoryAdmission l \<Rightarrow> (case other of O_MemoryAdmission r \<Rightarrow> l = r | _ \<Rightarrow> False)
      | O_AddressSpace l \<Rightarrow> (case other of O_AddressSpace r \<Rightarrow> l = r | _ \<Rightarrow> False)
      | O_HandleSnapshot l \<Rightarrow> (case other of O_HandleSnapshot r \<Rightarrow> l = r | _ \<Rightarrow> False)
      | O_Completion l \<Rightarrow> (case other of O_Completion r \<Rightarrow> l = r | _ \<Rightarrow> False)
      | O_File l \<Rightarrow> (case other of O_File r \<Rightarrow> l = r | _ \<Rightarrow> False)
      | O_Provider l \<Rightarrow> (case other of O_Provider r \<Rightarrow> l = r | _ \<Rightarrow> False))"

lemma is_same_object_iff: "is_same_object a b \<longleftrightarrow> a = b"
  by (cases a) (auto simp: is_same_object_def split: kernel_object.split)

record handle_entry =
  he_object :: kernel_object
  he_rights :: handle_rights

definition entry_restricted :: "handle_entry \<Rightarrow> handle_rights \<Rightarrow> handle_entry option" where
  "entry_restricted e requested =
     (if rights_contains (he_rights e) requested
      then Some \<lparr>he_object = he_object e, he_rights = requested\<rparr> else None)"

section \<open>The table\<close>

record handle_reservation =
  hr_handle :: object_handle
  hr_identity :: u64
  hr_owner :: u64

record handle_table =
  ht_entries :: "(object_handle \<times> handle_entry) list"
  ht_next :: u32
  ht_pending :: "(handle_reservation \<times> handle_entry) list"
  ht_next_reservation :: u64

definition table_new :: handle_table where
  "table_new = \<lparr>ht_entries = [], ht_next = 1, ht_pending = [], ht_next_reservation = 1\<rparr>"

text \<open>A cloned table inherits the published entries and no reservation.\<close>

definition table_clone :: "handle_table \<Rightarrow> handle_table" where
  "table_clone t = t\<lparr>ht_pending := []\<rparr>"

definition table_get :: "object_handle \<Rightarrow> handle_table \<Rightarrow> handle_entry option" where
  "table_get h t =
     (case binary_search_by_key fst h (ht_entries t) of
        Inr i \<Rightarrow> Some (snd (ht_entries t ! i)) | Inl _ \<Rightarrow> None)"

definition reserve_publication_storage :: "bool \<Rightarrow> handle_table \<Rightarrow> bool" where
  "reserve_publication_storage mem t \<longleftrightarrow>
     length (ht_entries t) + length (ht_pending t) < PROCESS_MAX_OBJECT_HANDLES \<and> mem"

definition handle_pending :: "object_handle \<Rightarrow> handle_table \<Rightarrow> bool" where
  "handle_pending h t \<longleftrightarrow> list_ex (\<lambda>(ticket, _). hr_handle ticket = h) (ht_pending t)"

definition clamp_selector :: "u32 \<Rightarrow> u32" where
  "clamp_selector n = min (max n 1) (of_nat PROCESS_MAX_OBJECT_HANDLES)"

definition next_selector :: "u32 \<Rightarrow> u32" where
  "next_selector raw = (if raw = of_nat PROCESS_MAX_OBJECT_HANDLES then 1 else raw + 1)"

text \<open>The loop of \<open>free_selector\<close>, with the number of iterations left.\<close>

fun free_selector_loop :: "nat \<Rightarrow> handle_table \<Rightarrow> (object_handle \<times> nat) option \<times> handle_table" where
  "free_selector_loop 0 t = (None, t)"
| "free_selector_loop (Suc k) t =
     (let raw = clamp_selector (ht_next t);
          t' = t\<lparr>ht_next := next_selector raw\<rparr>
      in case binary_search_by_key fst raw (ht_entries t) of
           Inl i \<Rightarrow> if \<not> handle_pending raw t then (Some (raw, i), t') else free_selector_loop k t'
         | Inr _ \<Rightarrow> free_selector_loop k t')"

definition free_selector :: "handle_table \<Rightarrow> (object_handle \<times> nat) option \<times> handle_table" where
  "free_selector t = free_selector_loop PROCESS_MAX_OBJECT_HANDLES t"

definition table_insert :: "bool \<Rightarrow> handle_entry \<Rightarrow> handle_table \<Rightarrow> object_handle option \<times> handle_table" where
  "table_insert mem e t =
     (if \<not> reserve_publication_storage mem t then (None, t)
      else case free_selector t of
             (None, t') \<Rightarrow> (None, t')
           | (Some (h, i), t') \<Rightarrow> (Some h, t'\<lparr>ht_entries := vec_insert i (h, e) (ht_entries t')\<rparr>))"

text \<open>\<open>Err\<close> gives the entry back to the caller.\<close>

definition table_reserve ::
  "bool \<Rightarrow> bool \<Rightarrow> u64 \<Rightarrow> handle_entry \<Rightarrow> handle_table \<Rightarrow> (handle_entry + handle_reservation) \<times> handle_table" where
  "table_reserve mem pending_mem owner e t =
     (case checked_add (ht_next_reservation t) 1 of
        None \<Rightarrow> (Inl e, t)
      | Some next_identity \<Rightarrow>
          if owner = 0 \<or> \<not> reserve_publication_storage mem t \<or> \<not> pending_mem then (Inl e, t)
          else case free_selector t of
                 (None, t') \<Rightarrow> (Inl e, t')
               | (Some (h, _), t') \<Rightarrow>
                   let ticket = \<lparr>hr_handle = h, hr_identity = ht_next_reservation t', hr_owner = owner\<rparr>
                   in (Inr ticket, t'\<lparr>ht_next_reservation := next_identity,
                                      ht_pending := ht_pending t' @ [(ticket, e)]\<rparr>))"

definition table_is_reserved :: "handle_reservation \<Rightarrow> handle_table \<Rightarrow> bool" where
  "table_is_reserved ticket t \<longleftrightarrow> list_ex (\<lambda>(candidate, _). candidate = ticket) (ht_pending t)"

definition table_publish_reserved :: "handle_reservation \<Rightarrow> handle_table \<Rightarrow> bool \<times> handle_table" where
  "table_publish_reserved ticket t =
     (case position (\<lambda>(candidate, _). candidate = ticket) (ht_pending t) of
        None \<Rightarrow> (False, t)
      | Some p \<Rightarrow>
          (case binary_search_by_key fst (hr_handle ticket) (ht_entries t) of
             Inr _ \<Rightarrow> (False, t)
           | Inl i \<Rightarrow>
               (True, t\<lparr>ht_pending := vec_swap_remove p (ht_pending t),
                        ht_entries := vec_insert i (hr_handle ticket, snd (ht_pending t ! p)) (ht_entries t)\<rparr>)))"

definition table_cancel_reserved :: "handle_reservation \<Rightarrow> handle_table \<Rightarrow> handle_entry option \<times> handle_table" where
  "table_cancel_reserved ticket t =
     (case position (\<lambda>(candidate, _). candidate = ticket) (ht_pending t) of
        None \<Rightarrow> (None, t)
      | Some p \<Rightarrow> (Some (snd (ht_pending t ! p)), t\<lparr>ht_pending := vec_swap_remove p (ht_pending t)\<rparr>))"

definition table_take_reservation_for :: "u64 \<Rightarrow> handle_table \<Rightarrow> handle_entry option \<times> handle_table" where
  "table_take_reservation_for owner t =
     (case position (\<lambda>(candidate, _). hr_owner candidate = owner) (ht_pending t) of
        None \<Rightarrow> (None, t)
      | Some p \<Rightarrow> (Some (snd (ht_pending t ! p)), t\<lparr>ht_pending := vec_swap_remove p (ht_pending t)\<rparr>))"

definition table_take_entry :: "object_handle \<Rightarrow> handle_table \<Rightarrow> handle_entry option \<times> handle_table" where
  "table_take_entry h t =
     (case binary_search_by_key fst h (ht_entries t) of
        Inl _ \<Rightarrow> (None, t)
      | Inr i \<Rightarrow> (Some (snd (ht_entries t ! i)), t\<lparr>ht_entries := vec_remove i (ht_entries t)\<rparr>))"

definition table_close :: "object_handle \<Rightarrow> handle_table \<Rightarrow> bool \<times> handle_table" where
  "table_close h t =
     (case binary_search_by_key fst h (ht_entries t) of
        Inr i \<Rightarrow> (True, t\<lparr>ht_entries := vec_remove i (ht_entries t)\<rparr>)
      | Inl _ \<Rightarrow> (False, t))"

definition table_insert_at :: "bool \<Rightarrow> object_handle \<Rightarrow> handle_entry \<Rightarrow> handle_table \<Rightarrow> bool \<times> handle_table" where
  "table_insert_at mem h e t =
     (if h > of_nat PROCESS_MAX_OBJECT_HANDLES \<or> handle_pending h t then (False, t)
      else case binary_search_by_key fst h (ht_entries t) of
             Inr _ \<Rightarrow> (False, t)
           | Inl i \<Rightarrow> if \<not> reserve_publication_storage mem t then (False, t)
                     else (True, t\<lparr>ht_entries := vec_insert i (h, e) (ht_entries t)\<rparr>))"

definition table_retain :: "(object_handle \<Rightarrow> bool) \<Rightarrow> handle_table \<Rightarrow> handle_table" where
  "table_retain keep t = t\<lparr>ht_entries := filter (\<lambda>(h, _). keep h) (ht_entries t)\<rparr>"

definition table_duplicate_restricted ::
  "bool \<Rightarrow> object_handle \<Rightarrow> handle_rights \<Rightarrow> handle_table \<Rightarrow> object_handle option \<times> handle_table" where
  "table_duplicate_restricted mem source requested t =
     (case table_get source t of
        None \<Rightarrow> (None, t)
      | Some e \<Rightarrow>
          if \<not> rights_contains (he_rights e) R_DUPLICATE then (None, t)
          else case entry_restricted e requested of
                 None \<Rightarrow> (None, t)
               | Some e' \<Rightarrow> table_insert mem e' t)"

definition table_export_restricted :: "object_handle \<Rightarrow> handle_rights \<Rightarrow> handle_table \<Rightarrow> handle_entry option" where
  "table_export_restricted source requested t =
     (case table_get source t of
        None \<Rightarrow> None
      | Some e \<Rightarrow> if \<not> rights_contains (he_rights e) R_TRANSFER then None else entry_restricted e requested)"

record handle_info =
  hi_handle :: u32
  hi_reserved :: u32
  hi_rights :: u64

definition table_describe :: "handle_table \<Rightarrow> handle_info list" where
  "table_describe t = map (\<lambda>(h, e). \<lparr>hi_handle = h, hi_reserved = 0, hi_rights = he_rights e\<rparr>) (ht_entries t)"

section \<open>The invariant\<close>

abbreviation pending_handles :: "handle_table \<Rightarrow> object_handle set" where
  "pending_handles t \<equiv> (\<lambda>x. hr_handle (fst x)) ` set (ht_pending t)"

abbreviation published :: "handle_table \<Rightarrow> object_handle \<rightharpoonup> handle_entry" where
  "published t \<equiv> map_of (ht_entries t)"

definition selector_ok :: "object_handle \<Rightarrow> bool" where
  "selector_ok h \<longleftrightarrow> 1 \<le> unat h \<and> unat h \<le> PROCESS_MAX_OBJECT_HANDLES"

definition table_ok :: "handle_table \<Rightarrow> bool" where
  "table_ok t \<longleftrightarrow> keys_sorted (ht_entries t) \<and> distinct (map (\<lambda>x. hr_handle (fst x)) (ht_pending t)) \<and>
     distinct (map (\<lambda>x. hr_identity (fst x)) (ht_pending t)) \<and>
     dom (published t) \<inter> pending_handles t = {} \<and>
     (\<forall>h \<in> dom (published t) \<union> pending_handles t. selector_ok h) \<and>
     (\<forall>(ticket, _) \<in> set (ht_pending t). hr_identity ticket < ht_next_reservation t \<and> hr_owner ticket \<noteq> 0) \<and>
     length (ht_entries t) + length (ht_pending t) \<le> PROCESS_MAX_OBJECT_HANDLES"

lemma table_new_ok: "table_ok table_new"
  by (simp add: table_ok_def table_new_def)

lemma table_ok_sorted [dest]: "table_ok t \<Longrightarrow> keys_sorted (ht_entries t)"
  by (simp add: table_ok_def)

lemma table_get_published: "table_ok t \<Longrightarrow> table_get h t = published t h"
  unfolding table_get_def by (auto simp: search_lookup)

lemma handle_pending_iff: "handle_pending h t \<longleftrightarrow> h \<in> pending_handles t"
  by (force simp: handle_pending_def list_ex_iff)

subsection \<open>The free selector\<close>

lemma unat_max_handles: "unat (of_nat PROCESS_MAX_OBJECT_HANDLES :: u32) = PROCESS_MAX_OBJECT_HANDLES"
  by (simp add: PROCESS_MAX_OBJECT_HANDLES_def)

lemma clamp_selector_ok: "selector_ok (clamp_selector n)"
  by (simp add: clamp_selector_def selector_ok_def unat_min unat_max unat_max_handles)
    (simp add: PROCESS_MAX_OBJECT_HANDLES_def)

lemma clamp_selector_id: "selector_ok h \<Longrightarrow> clamp_selector h = h"
  by (rule word_unat_eq_iff [THEN iffD2])
    (simp add: clamp_selector_def selector_ok_def unat_min unat_max unat_max_handles)

lemma unat_next_selector:
  assumes "selector_ok h"
  shows "unat (next_selector h) = unat h mod PROCESS_MAX_OBJECT_HANDLES + 1" and "selector_ok (next_selector h)"
proof -
  show *: "unat (next_selector h) = unat h mod PROCESS_MAX_OBJECT_HANDLES + 1"
  proof (cases "h = of_nat PROCESS_MAX_OBJECT_HANDLES")
    case True
    then show ?thesis by (simp add: next_selector_def unat_max_handles)
  next
    case False
    then have "unat h < PROCESS_MAX_OBJECT_HANDLES"
      using assms unat_max_handles by (metis selector_ok_def word_unat_eq_iff le_neq_implies_less)
    moreover from this have "unat (h + 1) = unat h + 1"
      by (subst unat_add_checked) (simp_all add: PROCESS_MAX_OBJECT_HANDLES_def)
    ultimately show ?thesis using False by (simp add: next_selector_def)
  qed
  show "selector_ok (next_selector h)"
    unfolding selector_ok_def * by (simp add: PROCESS_MAX_OBJECT_HANDLES_def Suc_le_eq)
qed

lemma selector_offset: "selector_ok h \<Longrightarrow> (unat h - 1) mod PROCESS_MAX_OBJECT_HANDLES = unat h - 1"
  by (rule mod_less) (auto simp: selector_ok_def)

lemma selector_after:
  assumes "selector_ok h"
  shows "selector_ok ((next_selector ^^ j) h) \<and>
    unat ((next_selector ^^ j) h) = (unat h - 1 + j) mod PROCESS_MAX_OBJECT_HANDLES + 1"
proof (induction j)
  case 0
  show ?case using assms selector_offset [OF assms] by (simp add: selector_ok_def)
next
  case (Suc j)
  then show ?case using unat_next_selector [of "(next_selector ^^ j) h"] by (simp add: mod_Suc_eq)
qed

lemma selectors_cover:
  assumes "selector_ok h" and "selector_ok s"
  shows "\<exists>j<PROCESS_MAX_OBJECT_HANDLES. (next_selector ^^ j) h = s"
proof -
  let ?M = PROCESS_MAX_OBJECT_HANDLES and ?j = "(unat s + PROCESS_MAX_OBJECT_HANDLES - unat h) mod PROCESS_MAX_OBJECT_HANDLES"
  have "(unat h - 1 + ?j) mod ?M = (unat h - 1 + (unat s + ?M - unat h)) mod ?M" by (rule mod_add_right_eq)
  also have "\<dots> = (unat s - 1 + ?M) mod ?M" using assms by (intro arg_cong2 [of _ _ _ _ "(mod)"]) (auto simp: selector_ok_def)
  also have "\<dots> = unat s - 1" using selector_offset [OF assms(2)] by simp
  finally have "unat ((next_selector ^^ ?j) h) = unat s"
    using selector_after [OF assms(1), of ?j] assms(2) by (simp add: selector_ok_def)
  moreover have "?j < ?M" by (simp add: PROCESS_MAX_OBJECT_HANDLES_def)
  ultimately show ?thesis by (auto simp: word_unat_eq_iff)
qed

lemma free_selector_loop_frame:
  "free_selector_loop k t = (r, t') \<Longrightarrow>
     ht_entries t' = ht_entries t \<and> ht_pending t' = ht_pending t \<and> ht_next_reservation t' = ht_next_reservation t"
proof (induction k arbitrary: t)
  case (Suc k)
  then show ?case by (fastforce simp: Let_def split: sum.splits if_splits)
qed simp

lemma free_selector_loop_Some:
  "free_selector_loop k t = (Some (h, i), t') \<Longrightarrow>
     selector_ok h \<and> binary_search_by_key fst h (ht_entries t) = Inl i \<and> \<not> handle_pending h t"
proof (induction k arbitrary: t)
  case (Suc k)
  then show ?case
    using clamp_selector_ok by (fastforce simp: Let_def handle_pending_def split: sum.splits if_splits)
qed simp

lemma free_selector_loop_None:
  assumes "keys_sorted (ht_entries t)"
  shows "free_selector_loop k t = (None, t') \<Longrightarrow> j < k \<Longrightarrow>
    (next_selector ^^ j) (clamp_selector (ht_next t)) \<in> dom (published t) \<union> pending_handles t"
  using assms
proof (induction k arbitrary: t j)
  case (Suc k)
  let ?raw = "clamp_selector (ht_next t)" and ?t = "t\<lparr>ht_next := next_selector (clamp_selector (ht_next t))\<rparr>"
  have used: "?raw \<in> dom (published t) \<union> pending_handles t" and rest: "free_selector_loop k ?t = (None, t')"
    using Suc.prems search_found(2) [OF Suc.prems(3)]
    by (fastforce simp: Let_def handle_pending_iff split: sum.splits if_splits)+
  show ?case
  proof (cases j)
    case 0
    then show ?thesis using used by simp
  next
    case (Suc i)
    then have "(next_selector ^^ i) (clamp_selector (next_selector ?raw)) \<in> dom (published t) \<union> pending_handles t"
      using Suc.IH [OF rest, of i] Suc.prems by simp
    then show ?thesis
      using Suc clamp_selector_id [OF unat_next_selector(2) [OF clamp_selector_ok]] by (simp add: funpow_swap1)
  qed
qed simp

lemma card_used:
  assumes "table_ok t"
  shows "card (dom (published t) \<union> pending_handles t) = length (ht_entries t) + length (ht_pending t)"
proof -
  have "card (pending_handles t) = length (ht_pending t)"
    using assms distinct_card [of "map (\<lambda>x. hr_handle (fst x)) (ht_pending t)"] by (simp add: table_ok_def)
  then show ?thesis
    using assms card_dom_sorted [of "ht_entries t"]
    by (subst card_Un_disjoint) (auto simp: table_ok_def finite_dom_map_of)
qed

lemma free_selector_total:
  assumes "table_ok t" and "length (ht_entries t) + length (ht_pending t) < PROCESS_MAX_OBJECT_HANDLES"
  shows "\<exists>h i t'. free_selector t = (Some (h, i), t')"
proof (rule ccontr)
  assume "\<not> ?thesis"
  then obtain t' where none: "free_selector_loop PROCESS_MAX_OBJECT_HANDLES t = (None, t')"
    unfolding free_selector_def by (metis not_None_eq surj_pair)
  let ?U = "dom (published t) \<union> pending_handles t"
  have "s \<in> ?U" if "selector_ok s" for s
    using selectors_cover [OF clamp_selector_ok that] free_selector_loop_None [OF table_ok_sorted [OF assms(1)] none]
    by metis
  then have "unat ` Collect selector_ok \<subseteq> unat ` ?U" by blast
  moreover have "unat ` Collect selector_ok = {1..PROCESS_MAX_OBJECT_HANDLES}"
  proof
    have "\<exists>h :: u32. unat h = n" if "n \<le> PROCESS_MAX_OBJECT_HANDLES" for n
      using that by (intro exI [of _ "of_nat n"]) (simp add: PROCESS_MAX_OBJECT_HANDLES_def unat_of_nat)
    then show "{1..PROCESS_MAX_OBJECT_HANDLES} \<subseteq> unat ` Collect selector_ok"
      by (force simp: selector_ok_def)
  qed (auto simp: selector_ok_def)
  ultimately have "PROCESS_MAX_OBJECT_HANDLES \<le> card (unat ` ?U)"
    using card_mono [of "unat ` ?U" "{1..PROCESS_MAX_OBJECT_HANDLES}"] by (simp add: finite_dom_map_of)
  also have "\<dots> \<le> card ?U" by (rule card_image_le) (simp add: finite_dom_map_of)
  finally show False using card_used [OF assms(1)] assms(2) by simp
qed

text \<open>Everything a caller of \<open>free_selector\<close> needs.\<close>

lemma free_selector_spec:
  assumes "table_ok t" and "free_selector t = (r, t')"
  shows "ht_entries t' = ht_entries t" and "ht_pending t' = ht_pending t"
    and "ht_next_reservation t' = ht_next_reservation t" and "table_ok t'"
    and "r = Some (h, i) \<Longrightarrow> selector_ok h \<and> binary_search_by_key fst h (ht_entries t) = Inl i \<and> h \<notin> pending_handles t \<and>
      published t h = None"
proof -
  show eq: "ht_entries t' = ht_entries t" "ht_pending t' = ht_pending t"
    "ht_next_reservation t' = ht_next_reservation t"
    using free_selector_loop_frame assms(2) by (auto simp: free_selector_def)
  show "table_ok t'" using assms(1) unfolding table_ok_def eq .
  assume r: "r = Some (h, i)"
  have "selector_ok h \<and> binary_search_by_key fst h (ht_entries t) = Inl i \<and> \<not> handle_pending h t"
    using free_selector_loop_Some assms(2) unfolding free_selector_def r by blast
  then show "selector_ok h \<and> binary_search_by_key fst h (ht_entries t) = Inl i \<and> h \<notin> pending_handles t \<and>
      published t h = None"
    using search_missing(1) [OF table_ok_sorted [OF assms(1)]] handle_pending_iff [of h t] by blast
qed

subsection \<open>Elementary changes\<close>

lemma table_ok_next [simp]: "table_ok (t\<lparr>ht_next := n\<rparr>) \<longleftrightarrow> table_ok t"
  by (simp add: table_ok_def)

lemma table_ok_shrink:
  assumes "table_ok t" and "keys_sorted es" and "dom (map_of es) \<subseteq> dom (published t)"
    and "length es \<le> length (ht_entries t)"
  shows "table_ok (t\<lparr>ht_entries := es\<rparr>)"
proof -
  have "dom (map_of es) \<inter> pending_handles t = {}" "\<forall>h \<in> dom (map_of es) \<union> pending_handles t. selector_ok h"
    using assms(1,3) unfolding table_ok_def by blast+
  with assms show ?thesis unfolding table_ok_def by simp
qed

lemma table_ok_publish:
  assumes "table_ok t" and "binary_search_by_key fst h (ht_entries t) = Inl i" and "selector_ok h"
    and "h \<notin> pending_handles t" and "length (ht_entries t) + length (ht_pending t) < PROCESS_MAX_OBJECT_HANDLES"
  shows "table_ok (t\<lparr>ht_entries := vec_insert i (h, e) (ht_entries t)\<rparr>)"
    and "published (t\<lparr>ht_entries := vec_insert i (h, e) (ht_entries t)\<rparr>) = (published t)(h \<mapsto> e)"
proof -
  note ins = sorted_insert [OF table_ok_sorted [OF assms(1)] assms(2), of e]
  show "published (t\<lparr>ht_entries := vec_insert i (h, e) (ht_entries t)\<rparr>) = (published t)(h \<mapsto> e)"
    using ins(2) by simp
  show "table_ok (t\<lparr>ht_entries := vec_insert i (h, e) (ht_entries t)\<rparr>)"
    using assms(1,3-5) ins(1) unfolding table_ok_def by (simp add: ins(2))
qed

lemma table_ok_unpublish:
  assumes "table_ok t" and "binary_search_by_key fst h (ht_entries t) = Inr i"
  shows "table_ok (t\<lparr>ht_entries := vec_remove i (ht_entries t)\<rparr>)"
    and "published (t\<lparr>ht_entries := vec_remove i (ht_entries t)\<rparr>) = (published t)(h := None)"
proof -
  note rem = sorted_remove [OF table_ok_sorted [OF assms(1)] assms(2)]
  show "published (t\<lparr>ht_entries := vec_remove i (ht_entries t)\<rparr>) = (published t)(h := None)"
    using rem(2) by simp
  have "i < length (ht_entries t)" using search_found(1) [OF table_ok_sorted [OF assms(1)] assms(2)] .
  then show "table_ok (t\<lparr>ht_entries := vec_remove i (ht_entries t)\<rparr>)"
    using rem by (intro table_ok_shrink [OF assms(1)]) auto
qed

lemma table_ok_retain:
  assumes "table_ok t"
  shows "table_ok (table_retain keep t)" and "published (table_retain keep t) = published t |` {h. keep h}"
proof -
  note filt = sorted_filter [OF table_ok_sorted [OF assms(1)], of keep]
  show "published (table_retain keep t) = published t |` {h. keep h}"
    using filt(2) by (simp add: table_retain_def)
  show "table_ok (table_retain keep t)"
    unfolding table_retain_def using filt by (intro table_ok_shrink [OF assms(1)]) auto
qed

lemma table_ok_unreserve:
  assumes "table_ok t" and "p < length (ht_pending t)"
  shows "table_ok (t\<lparr>ht_pending := vec_swap_remove p (ht_pending t)\<rparr>)"
    and "set (vec_swap_remove p (ht_pending t)) = set (ht_pending t) - {ht_pending t ! p}"
    and "(\<lambda>x. hr_handle (fst x)) ` set (vec_swap_remove p (ht_pending t)) =
      pending_handles t - {hr_handle (fst (ht_pending t ! p))}"
proof -
  have d: "distinct (map (\<lambda>x. hr_handle (fst x)) (ht_pending t))" "distinct (map (\<lambda>x. hr_identity (fst x)) (ht_pending t))"
    using assms(1) by (simp_all add: table_ok_def)
  then have "distinct (ht_pending t)" by (simp add: distinct_map)
  then show sub: "set (vec_swap_remove p (ht_pending t)) = set (ht_pending t) - {ht_pending t ! p}"
    using distinct_vec_remove [of "ht_pending t" p] assms(2) by (simp add: set_vec_swap_remove)
  show handles: "(\<lambda>x. hr_handle (fst x)) ` set (vec_swap_remove p (ht_pending t)) =
      pending_handles t - {hr_handle (fst (ht_pending t ! p))}"
    using distinct_vec_swap_remove(2) [OF d(1) assms(2)] by simp
  show "table_ok (t\<lparr>ht_pending := vec_swap_remove p (ht_pending t)\<rparr>)"
    using assms distinct_vec_swap_remove(1) [OF d(1) assms(2)] distinct_vec_swap_remove(1) [OF d(2) assms(2)]
    unfolding table_ok_def by (auto simp: sub handles [simplified] disjoint_iff)
qed

lemma table_ok_reserve:
  assumes "table_ok t" and "selector_ok h" and "h \<notin> dom (published t) \<union> pending_handles t" and "owner \<noteq> 0"
    and "length (ht_entries t) + length (ht_pending t) < PROCESS_MAX_OBJECT_HANDLES"
    and "unat (ht_next_reservation t) + 1 < 2 ^ 64"
  shows "table_ok (t\<lparr>ht_next_reservation := ht_next_reservation t + 1, ht_pending := ht_pending t @
    [(\<lparr>hr_handle = h, hr_identity = ht_next_reservation t, hr_owner = owner\<rparr>, e)]\<rparr>)"
proof -
  have id: "ht_next_reservation t < ht_next_reservation t + 1"
    using assms(6) by (simp add: word_less_nat_alt unat_add_checked)
  have old: "hr_identity (fst x) < ht_next_reservation t \<and> hr_owner (fst x) \<noteq> 0" if "x \<in> set (ht_pending t)" for x
    using assms(1) that by (auto simp: table_ok_def)
  have fresh: "ht_next_reservation t \<notin> (\<lambda>x. hr_identity (fst x)) ` set (ht_pending t)"
    using old by fastforce
  have below: "\<forall>(ticket, _) \<in> set (ht_pending t). hr_identity ticket < ht_next_reservation t + 1 \<and> hr_owner ticket \<noteq> 0"
    using old id by fastforce
  have sel: "\<forall>h \<in> dom (published t) \<union> pending_handles t. selector_ok h" and dis: "dom (published t) \<inter> pending_handles t = {}"
    using assms(1) unfolding table_ok_def by blast+
  show ?thesis
    using assms(1-5) fresh below id sel dis unfolding table_ok_def by simp
qed

section \<open>What every operation does\<close>

lemma table_insert_spec:
  assumes "table_ok t" and "table_insert mem e t = (r, t')"
  shows "table_ok t' \<and> ht_pending t' = ht_pending t \<and>
    (case r of
       None \<Rightarrow> published t' = published t \<and>
         (\<not> mem \<or> PROCESS_MAX_OBJECT_HANDLES \<le> length (ht_entries t) + length (ht_pending t))
     | Some h \<Rightarrow> selector_ok h \<and> published t h = None \<and> h \<notin> pending_handles t \<and> published t' = (published t)(h \<mapsto> e))"
proof (cases "reserve_publication_storage mem t")
  case False
  then show ?thesis using assms by (auto simp: table_insert_def reserve_publication_storage_def)
next
  case True
  then have room: "length (ht_entries t) + length (ht_pending t) < PROCESS_MAX_OBJECT_HANDLES"
    by (simp add: reserve_publication_storage_def)
  from free_selector_total [OF assms(1) room] obtain h i t1 where free: "free_selector t = (Some (h, i), t1)" by blast
  note spec = free_selector_spec [OF assms(1) free]
  have h: "selector_ok h" "binary_search_by_key fst h (ht_entries t1) = Inl i" "h \<notin> pending_handles t1" "published t h = None"
    using spec(5) [OF refl] spec(1,2) by auto
  have "length (ht_entries t1) + length (ht_pending t1) < PROCESS_MAX_OBJECT_HANDLES" using room spec(1,2) by simp
  note pub = table_ok_publish [OF spec(4) h(2,1,3) this, of e]
  have "r = Some h" "t' = t1\<lparr>ht_entries := vec_insert i (h, e) (ht_entries t1)\<rparr>"
    using assms(2) True free by (simp_all add: table_insert_def)
  then show ?thesis using pub h spec(1,2) by simp
qed

lemma table_reserve_spec:
  assumes "table_ok t" and "table_reserve mem pmem owner e t = (r, t')"
  shows "table_ok t' \<and> published t' = published t \<and>
    (case r of
       Inl e' \<Rightarrow> e' = e \<and> ht_pending t' = ht_pending t
     | Inr ticket \<Rightarrow> hr_owner ticket = owner \<and> selector_ok (hr_handle ticket) \<and> published t (hr_handle ticket) = None \<and>
         hr_handle ticket \<notin> pending_handles t \<and> ht_pending t' = ht_pending t @ [(ticket, e)])"
proof (cases "unat (ht_next_reservation t) + 1 < 2 ^ 64 \<and> owner \<noteq> 0 \<and> reserve_publication_storage mem t \<and> pmem")
  case False
  then have "r = Inl e" "t' = t"
    using assms(2) by (auto simp: table_reserve_def checked_add_def split: if_splits)
  then show ?thesis using assms(1) by simp
next
  case True
  then have room: "length (ht_entries t) + length (ht_pending t) < PROCESS_MAX_OBJECT_HANDLES"
    by (simp add: reserve_publication_storage_def)
  from free_selector_total [OF assms(1) this] obtain h i t1 where free: "free_selector t = (Some (h, i), t1)" by blast
  note spec = free_selector_spec [OF assms(1) free]
  have h: "selector_ok h" "h \<notin> pending_handles t" "published t h = None" using spec(5) [OF refl] by auto
  let ?ticket = "\<lparr>hr_handle = h, hr_identity = ht_next_reservation t1, hr_owner = owner\<rparr>"
  have r: "r = Inr ?ticket"
    and t': "t' = t1\<lparr>ht_next_reservation := ht_next_reservation t1 + 1, ht_pending := ht_pending t1 @ [(?ticket, e)]\<rparr>"
    using assms(2) True free by (simp_all add: table_reserve_def checked_add_def Let_def spec(3))
  have "table_ok t'"
    unfolding t' using h room True by (intro table_ok_reserve [OF spec(4)]) (simp_all add: spec(1-3) domIff)
  then show ?thesis using h by (simp add: r t' spec(1,2))
qed

lemma reserved_position:
  assumes "table_ok t" and "position (\<lambda>(candidate, _). candidate = ticket) (ht_pending t) = Some p"
  shows "p < length (ht_pending t)" and "fst (ht_pending t ! p) = ticket" and "(ticket, snd (ht_pending t ! p)) \<in> set (ht_pending t)"
proof -
  show p: "p < length (ht_pending t)" and "fst (ht_pending t ! p) = ticket"
    using position_Some [OF assms(2)] by (auto split: prod.splits)
  then show "(ticket, snd (ht_pending t ! p)) \<in> set (ht_pending t)" by (metis nth_mem prod.collapse)
qed

text \<open>A live reservation can always be published: nothing else can take its selector.\<close>

lemma table_publish_spec:
  assumes "table_ok t" and "table_publish_reserved ticket t = (ok, t')"
  shows "table_ok t' \<and> (ok \<longleftrightarrow> table_is_reserved ticket t) \<and> (\<not> ok \<longrightarrow> t' = t) \<and>
    (ok \<longrightarrow> (\<exists>e. (ticket, e) \<in> set (ht_pending t) \<and> published t' = (published t)(hr_handle ticket \<mapsto> e) \<and>
       set (ht_pending t') = set (ht_pending t) - {(ticket, e)}))"
proof (cases "position (\<lambda>(candidate, _). candidate = ticket) (ht_pending t)")
  case None
  then have "\<not> table_is_reserved ticket t" by (auto simp: table_is_reserved_def list_ex_iff position_None_iff)
  then show ?thesis using assms None by (simp add: table_publish_reserved_def)
next
  case (Some p)
  let ?e = "snd (ht_pending t ! p)" and ?t = "t\<lparr>ht_pending := vec_swap_remove p (ht_pending t)\<rparr>"
  note pos = reserved_position [OF assms(1) Some]
  note unres = table_ok_unreserve [OF assms(1) pos(1)]
  have res: "table_is_reserved ticket t" using pos(3) by (force simp: table_is_reserved_def list_ex_iff)
  have h: "hr_handle ticket \<in> pending_handles t" using pos(3) by force
  then have free: "published t (hr_handle ticket) = None" and sel: "selector_ok (hr_handle ticket)"
    using assms(1) unfolding table_ok_def by blast+
  from free obtain i where i: "binary_search_by_key fst (hr_handle ticket) (ht_entries t) = Inl i"
    using search_found(2) [OF table_ok_sorted [OF assms(1)]] by (metis option.distinct(1) sum.exhaust)
  have "hr_handle ticket \<notin> pending_handles ?t" using unres(3) pos(2) by simp
  moreover have "length (ht_entries ?t) + length (ht_pending ?t) < PROCESS_MAX_OBJECT_HANDLES"
    using assms(1) pos(1) by (auto simp: table_ok_def)
  ultimately have pub: "table_ok (?t\<lparr>ht_entries := vec_insert i (hr_handle ticket, ?e) (ht_entries ?t)\<rparr>)"
      "published (?t\<lparr>ht_entries := vec_insert i (hr_handle ticket, ?e) (ht_entries ?t)\<rparr>) =
        (published t)(hr_handle ticket \<mapsto> ?e)"
    using table_ok_publish [OF unres(1), of "hr_handle ticket" i ?e] i sel by simp_all
  have "ok" "t' = ?t\<lparr>ht_entries := vec_insert i (hr_handle ticket, ?e) (ht_entries ?t)\<rparr>"
    using assms(2) Some i by (simp_all add: table_publish_reserved_def)
  moreover have "set (vec_swap_remove p (ht_pending t)) = set (ht_pending t) - {(ticket, ?e)}"
    using unres(2) pos(2) by (metis prod.collapse)
  ultimately show ?thesis using pub pos(3) res by auto
qed

lemma table_cancel_spec:
  assumes "table_ok t" and "table_cancel_reserved ticket t = (r, t')"
  shows "table_ok t' \<and> ht_entries t' = ht_entries t \<and> ht_next_reservation t' = ht_next_reservation t \<and>
    (case r of
       None \<Rightarrow> \<not> table_is_reserved ticket t \<and> t' = t
     | Some e \<Rightarrow> (ticket, e) \<in> set (ht_pending t) \<and> set (ht_pending t') = set (ht_pending t) - {(ticket, e)})"
proof (cases "position (\<lambda>(candidate, _). candidate = ticket) (ht_pending t)")
  case None
  then have "\<not> table_is_reserved ticket t" by (auto simp: table_is_reserved_def list_ex_iff position_None_iff)
  then show ?thesis using assms None by (auto simp: table_cancel_reserved_def)
next
  case (Some p)
  note pos = reserved_position [OF assms(1) Some]
  have "ht_pending t ! p = (ticket, snd (ht_pending t ! p))" using pos(2) by (metis prod.collapse)
  then show ?thesis
    using table_ok_unreserve [OF assms(1) pos(1)] pos(3) assms(2) Some
    by (auto simp: table_cancel_reserved_def)
qed

lemma table_take_reservation_spec:
  assumes "table_ok t" and "table_take_reservation_for owner t = (r, t')"
  shows "table_ok t' \<and> ht_entries t' = ht_entries t \<and> ht_next_reservation t' = ht_next_reservation t \<and>
    (case r of
       None \<Rightarrow> t' = t \<and> (\<forall>(ticket, _) \<in> set (ht_pending t). hr_owner ticket \<noteq> owner)
     | Some e \<Rightarrow> \<exists>ticket. hr_owner ticket = owner \<and> (ticket, e) \<in> set (ht_pending t) \<and>
         set (ht_pending t') = set (ht_pending t) - {(ticket, e)} \<and> length (ht_pending t') < length (ht_pending t))"
proof (cases "position (\<lambda>(candidate, _). hr_owner candidate = owner) (ht_pending t)")
  case None
  then have "\<forall>(ticket, _) \<in> set (ht_pending t). hr_owner ticket \<noteq> owner" by (auto simp: position_None_iff)
  then show ?thesis using assms None by (auto simp: table_take_reservation_for_def)
next
  case (Some p)
  have p: "p < length (ht_pending t)" and owner: "hr_owner (fst (ht_pending t ! p)) = owner"
    using position_Some [OF Some] by (auto split: prod.splits)
  have mem: "(fst (ht_pending t ! p), snd (ht_pending t ! p)) \<in> set (ht_pending t)" using p by simp
  have "r = Some (snd (ht_pending t ! p))" "t' = t\<lparr>ht_pending := vec_swap_remove p (ht_pending t)\<rparr>"
    using assms(2) Some by (simp_all add: table_take_reservation_for_def)
  moreover have "length (vec_swap_remove p (ht_pending t)) < length (ht_pending t)" using p by auto
  moreover have "set (vec_swap_remove p (ht_pending t)) =
      set (ht_pending t) - {(fst (ht_pending t ! p), snd (ht_pending t ! p))}"
    using table_ok_unreserve(2) [OF assms(1) p] by simp
  ultimately show ?thesis
    using table_ok_unreserve(1) [OF assms(1) p] owner mem by (simp del: prod.collapse) blast
qed

lemma table_take_entry_spec:
  assumes "table_ok t" and "table_take_entry h t = (r, t')"
  shows "table_ok t' \<and> ht_pending t' = ht_pending t \<and> r = published t h \<and> published t' = (published t)(h := None)"
proof (cases "binary_search_by_key fst h (ht_entries t)")
  case (Inl i)
  then show ?thesis
    using assms search_missing(1) [OF table_ok_sorted [OF assms(1)] Inl] by (auto simp: table_take_entry_def)
next
  case (Inr i)
  then show ?thesis
    using assms table_ok_unpublish [OF assms(1) Inr] search_found(2) [OF table_ok_sorted [OF assms(1)] Inr]
    by (auto simp: table_take_entry_def)
qed

lemma table_close_spec:
  assumes "table_ok t" and "table_close h t = (ok, t')"
  shows "table_ok t' \<and> ht_pending t' = ht_pending t \<and> (ok \<longleftrightarrow> h \<in> dom (published t)) \<and>
    published t' = (published t)(h := None)"
proof (cases "binary_search_by_key fst h (ht_entries t)")
  case (Inl i)
  then show ?thesis
    using assms search_missing(1) [OF table_ok_sorted [OF assms(1)] Inl] by (auto simp: table_close_def)
next
  case (Inr i)
  then show ?thesis
    using assms table_ok_unpublish [OF assms(1) Inr] search_found(2) [OF table_ok_sorted [OF assms(1)] Inr]
    by (auto simp: table_close_def)
qed

lemma table_insert_at_spec:
  assumes "table_ok t" and "h \<noteq> 0" and "table_insert_at mem h e t = (ok, t')"
  shows "table_ok t' \<and> ht_pending t' = ht_pending t \<and>
    (ok \<longleftrightarrow> unat h \<le> PROCESS_MAX_OBJECT_HANDLES \<and> h \<notin> dom (published t) \<union> pending_handles t \<and> mem \<and>
       length (ht_entries t) + length (ht_pending t) < PROCESS_MAX_OBJECT_HANDLES) \<and>
    published t' = (if ok then (published t)(h \<mapsto> e) else published t)"
proof (cases "binary_search_by_key fst h (ht_entries t)")
  case (Inr i)
  then have "published t h \<noteq> None" using search_found(2) [OF table_ok_sorted [OF assms(1)] Inr] by simp
  then show ?thesis using assms Inr by (auto simp: table_insert_at_def split: if_splits)
next
  case (Inl i)
  have none: "published t h = None" using search_missing(1) [OF table_ok_sorted [OF assms(1)] Inl] .
  have le: "h > of_nat PROCESS_MAX_OBJECT_HANDLES \<longleftrightarrow> \<not> unat h \<le> PROCESS_MAX_OBJECT_HANDLES"
    unfolding word_less_nat_alt unat_max_handles by auto
  have pos: "1 \<le> unat h" using assms(2) by (simp add: Suc_le_eq unat_gt_0)
  show ?thesis
    using assms(1,3) Inl none pos table_ok_publish [OF assms(1) Inl, of e]
    unfolding table_insert_at_def le handle_pending_iff
    by (auto simp: selector_ok_def reserve_publication_storage_def domIff split: if_splits)
qed

lemma entry_restricted_Some:
  "entry_restricted e requested = Some e' \<longleftrightarrow>
     rights_contains (he_rights e) requested \<and> e' = \<lparr>he_object = he_object e, he_rights = requested\<rparr>"
  by (auto simp: entry_restricted_def)

lemma table_duplicate_spec:
  assumes "table_ok t" and "table_duplicate_restricted mem source requested t = (r, t')"
  shows "table_ok t' \<and> ht_pending t' = ht_pending t \<and>
    (case r of
       None \<Rightarrow> published t' = published t
     | Some h \<Rightarrow> \<exists>e. published t source = Some e \<and> rights_contains (he_rights e) R_DUPLICATE \<and>
         rights_contains (he_rights e) requested \<and> published t h = None \<and>
         published t' = (published t)(h \<mapsto> \<lparr>he_object = he_object e, he_rights = requested\<rparr>))"
proof -
  consider "r = None" "t' = t"
    | e where "published t source = Some e" "rights_contains (he_rights e) R_DUPLICATE"
      "rights_contains (he_rights e) requested"
      "table_insert mem \<lparr>he_object = he_object e, he_rights = requested\<rparr> t = (r, t')"
    using assms(2) unfolding table_duplicate_restricted_def table_get_published [OF assms(1)]
    by (auto simp: entry_restricted_Some split: option.splits if_splits)
  then show ?thesis
  proof cases
    case 1
    then show ?thesis using assms(1) by simp
  next
    case (2 e)
    then show ?thesis using table_insert_spec [OF assms(1) 2(4)] by (cases r) auto
  qed
qed

lemma table_export_spec:
  assumes "table_ok t"
  shows "table_export_restricted source requested t = Some e' \<longleftrightarrow>
    (\<exists>e. published t source = Some e \<and> rights_contains (he_rights e) R_TRANSFER \<and>
       rights_contains (he_rights e) requested \<and> e' = \<lparr>he_object = he_object e, he_rights = requested\<rparr>)"
  unfolding table_export_restricted_def table_get_published [OF assms]
  by (auto simp: entry_restricted_Some split: option.splits)

lemma table_clone_ok: "table_ok t \<Longrightarrow> table_ok (table_clone t)"
  by (auto simp: table_ok_def table_clone_def)

section \<open>Sequences of operations\<close>

inductive table_step :: "handle_table \<Rightarrow> handle_table \<Rightarrow> bool" where
  insert: "table_insert mem e t = (r, t') \<Longrightarrow> table_step t t'"
| insert_at: "object_handle_from_raw raw = Some h \<Longrightarrow> table_insert_at mem h e t = (ok, t') \<Longrightarrow> table_step t t'"
| duplicate: "table_duplicate_restricted mem source requested t = (r, t') \<Longrightarrow> table_step t t'"
| reserve: "table_reserve mem pmem owner e t = (q, t') \<Longrightarrow> table_step t t'"
| publish: "table_publish_reserved ticket t = (ok, t') \<Longrightarrow> table_step t t'"
| cancel: "table_cancel_reserved ticket t = (x, t') \<Longrightarrow> table_step t t'"
| take_reservation: "table_take_reservation_for owner t = (x, t') \<Longrightarrow> table_step t t'"
| take_entry: "table_take_entry h t = (x, t') \<Longrightarrow> table_step t t'"
| close: "table_close h t = (ok, t') \<Longrightarrow> table_step t t'"
| retain: "table_step t (table_retain keep t)"

inductive_cases table_stepE: "table_step t t'"

lemma from_raw_nonzero: "object_handle_from_raw raw = Some h \<Longrightarrow> h \<noteq> 0"
  by (auto simp: object_handle_from_raw_def split: if_splits)

lemma table_step_ok: "table_step t t' \<Longrightarrow> table_ok t \<Longrightarrow> table_ok t'"
proof (induction rule: table_step.induct)
  case (insert_at raw h mem e t ok t')
  then show ?case using table_insert_at_spec from_raw_nonzero by blast
qed (blast dest: table_insert_spec table_duplicate_spec table_reserve_spec table_publish_spec table_cancel_spec
    table_take_reservation_spec table_take_entry_spec table_close_spec intro: table_ok_retain)+

lemma table_run_ok: "table_step\<^sup>*\<^sup>* t t' \<Longrightarrow> table_ok t \<Longrightarrow> table_ok t'"
  by (induction rule: rtranclp_induct) (auto intro: table_step_ok)

subsection \<open>The namespace a table implements\<close>

text \<open>
  To its process a table is a partial map from selectors to entries, beside a set of reserved
  entries whose selectors nobody else can use and the identity of the next reservation. Every
  operation, with its arguments and its result, is specified on this namespace. The selector an
  insertion chooses is the only freedom.
\<close>

datatype table_op =
    Insert bool handle_entry
  | Insert_At bool object_handle handle_entry
  | Duplicate bool object_handle handle_rights
  | Reserve bool bool u64 handle_entry
  | Publish handle_reservation
  | Cancel handle_reservation
  | Take_Reservation u64
  | Take_Entry object_handle
  | Close object_handle
  | Retain "object_handle \<Rightarrow> bool"
  | Get object_handle
  | Export object_handle handle_rights

datatype table_result =
    Result_Handle "object_handle option"
  | Result_Bool bool
  | Result_Ticket "handle_entry + handle_reservation"
  | Result_Entry "handle_entry option"
  | Result_Unit

fun table_exec :: "table_op \<Rightarrow> handle_table \<Rightarrow> table_result \<times> handle_table" where
  "table_exec (Insert mem e) t = map_prod Result_Handle id (table_insert mem e t)"
| "table_exec (Insert_At mem h e) t = map_prod Result_Bool id (table_insert_at mem h e t)"
| "table_exec (Duplicate mem source requested) t = map_prod Result_Handle id (table_duplicate_restricted mem source requested t)"
| "table_exec (Reserve mem pmem owner e) t = map_prod Result_Ticket id (table_reserve mem pmem owner e t)"
| "table_exec (Publish ticket) t = map_prod Result_Bool id (table_publish_reserved ticket t)"
| "table_exec (Cancel ticket) t = map_prod Result_Entry id (table_cancel_reserved ticket t)"
| "table_exec (Take_Reservation owner) t = map_prod Result_Entry id (table_take_reservation_for owner t)"
| "table_exec (Take_Entry h) t = map_prod Result_Entry id (table_take_entry h t)"
| "table_exec (Close h) t = map_prod Result_Bool id (table_close h t)"
| "table_exec (Retain keep) t = (Result_Unit, table_retain keep t)"
| "table_exec (Get h) t = (Result_Entry (table_get h t), t)"
| "table_exec (Export source requested) t = (Result_Entry (table_export_restricted source requested t), t)"

text \<open>A handle is never zero, by its type.\<close>

definition op_handles_ok :: "table_op \<Rightarrow> bool" where
  "op_handles_ok oper \<longleftrightarrow> (case oper of Insert_At _ h _ \<Rightarrow> h \<noteq> 0 | _ \<Rightarrow> True)"

record handle_space =
  hs_live :: "object_handle \<rightharpoonup> handle_entry"
  hs_reserved :: "(handle_reservation \<times> handle_entry) set"
  hs_identity :: u64

definition space_used :: "handle_space \<Rightarrow> object_handle set" where
  "space_used s = dom (hs_live s) \<union> (\<lambda>x. hr_handle (fst x)) ` hs_reserved s"

definition space_room :: "handle_space \<Rightarrow> bool" where
  "space_room s \<longleftrightarrow> card (space_used s) < PROCESS_MAX_OBJECT_HANDLES"

definition space_insert :: "bool \<Rightarrow> handle_entry \<Rightarrow> object_handle option \<Rightarrow> handle_space \<Rightarrow> handle_space \<Rightarrow> bool" where
  "space_insert mem e r s s' \<longleftrightarrow>
     (case r of
        None \<Rightarrow> \<not> (mem \<and> space_room s) \<and> s' = s
      | Some h \<Rightarrow> mem \<and> space_room s \<and> selector_ok h \<and> h \<notin> space_used s \<and> s' = s\<lparr>hs_live := (hs_live s)(h \<mapsto> e)\<rparr>)"

fun space_exec :: "table_op \<Rightarrow> table_result \<Rightarrow> handle_space \<Rightarrow> handle_space \<Rightarrow> bool" where
  "space_exec (Insert mem e) (Result_Handle r) s s' = space_insert mem e r s s'"
| "space_exec (Insert_At mem h e) (Result_Bool ok) s s' =
     ((ok \<longleftrightarrow> mem \<and> space_room s \<and> selector_ok h \<and> h \<notin> space_used s) \<and>
      s' = (if ok then s\<lparr>hs_live := (hs_live s)(h \<mapsto> e)\<rparr> else s))"
| "space_exec (Duplicate mem source requested) (Result_Handle r) s s' =
     (case hs_live s source of
        None \<Rightarrow> r = None \<and> s' = s
      | Some e \<Rightarrow>
          if rights_contains (he_rights e) R_DUPLICATE \<and> rights_contains (he_rights e) requested
          then space_insert mem \<lparr>he_object = he_object e, he_rights = requested\<rparr> r s s'
          else r = None \<and> s' = s)"
| "space_exec (Reserve mem pmem owner e) (Result_Ticket r) s s' =
     (case r of
        Inl e' \<Rightarrow> e' = e \<and> s' = s \<and> \<not> (mem \<and> pmem \<and> owner \<noteq> 0 \<and> space_room s \<and> hs_identity s \<noteq> - 1)
      | Inr ticket \<Rightarrow>
          mem \<and> pmem \<and> owner \<noteq> 0 \<and> space_room s \<and> hs_identity s \<noteq> - 1 \<and>
          hr_identity ticket = hs_identity s \<and> hr_owner ticket = owner \<and>
          selector_ok (hr_handle ticket) \<and> hr_handle ticket \<notin> space_used s \<and>
          s' = s\<lparr>hs_reserved := insert (ticket, e) (hs_reserved s), hs_identity := hs_identity s + 1\<rparr>)"
| "space_exec (Publish ticket) (Result_Bool ok) s s' =
     (if ok then \<exists>e. (ticket, e) \<in> hs_reserved s \<and>
               s' = s\<lparr>hs_live := (hs_live s)(hr_handle ticket \<mapsto> e), hs_reserved := hs_reserved s - {(ticket, e)}\<rparr>
      else ticket \<notin> fst ` hs_reserved s \<and> s' = s)"
| "space_exec (Cancel ticket) (Result_Entry r) s s' =
     (case r of
        None \<Rightarrow> ticket \<notin> fst ` hs_reserved s \<and> s' = s
      | Some e \<Rightarrow> (ticket, e) \<in> hs_reserved s \<and> s' = s\<lparr>hs_reserved := hs_reserved s - {(ticket, e)}\<rparr>)"
| "space_exec (Take_Reservation owner) (Result_Entry r) s s' =
     (case r of
        None \<Rightarrow> owner \<notin> (\<lambda>x. hr_owner (fst x)) ` hs_reserved s \<and> s' = s
      | Some e \<Rightarrow> \<exists>ticket. hr_owner ticket = owner \<and> (ticket, e) \<in> hs_reserved s \<and>
               s' = s\<lparr>hs_reserved := hs_reserved s - {(ticket, e)}\<rparr>)"
| "space_exec (Take_Entry h) (Result_Entry r) s s' = (r = hs_live s h \<and> s' = s\<lparr>hs_live := (hs_live s)(h := None)\<rparr>)"
| "space_exec (Close h) (Result_Bool ok) s s' =
     ((ok \<longleftrightarrow> h \<in> dom (hs_live s)) \<and> s' = s\<lparr>hs_live := (hs_live s)(h := None)\<rparr>)"
| "space_exec (Retain keep) Result_Unit s s' = (s' = s\<lparr>hs_live := hs_live s |` {h. keep h}\<rparr>)"
| "space_exec (Get h) (Result_Entry r) s s' = (r = hs_live s h \<and> s' = s)"
| "space_exec (Export source requested) (Result_Entry r) s s' =
     (r = (case hs_live s source of
             None \<Rightarrow> None
           | Some e \<Rightarrow>
               if rights_contains (he_rights e) R_TRANSFER \<and> rights_contains (he_rights e) requested
               then Some \<lparr>he_object = he_object e, he_rights = requested\<rparr> else None) \<and> s' = s)"
| "space_exec _ _ s s' = False"

definition table_space :: "handle_table \<Rightarrow> handle_space" where
  "table_space t = \<lparr>hs_live = published t, hs_reserved = set (ht_pending t), hs_identity = ht_next_reservation t\<rparr>"

lemma table_space_used: "space_used (table_space t) = dom (published t) \<union> pending_handles t"
  by (simp add: space_used_def table_space_def)

lemma table_space_room:
  "table_ok t \<Longrightarrow> space_room (table_space t) \<longleftrightarrow> length (ht_entries t) + length (ht_pending t) < PROCESS_MAX_OBJECT_HANDLES"
  unfolding space_room_def table_space_used by (simp only: card_used)

lemma table_space_simps [simp]:
  "hs_live (table_space t) = published t" "hs_reserved (table_space t) = set (ht_pending t)"
  "hs_identity (table_space t) = ht_next_reservation t"
  by (simp_all add: table_space_def)

lemma table_space_eqI:
  "published t' = hs_live s \<Longrightarrow> set (ht_pending t') = hs_reserved s \<Longrightarrow> ht_next_reservation t' = hs_identity s \<Longrightarrow>
   table_space t' = s"
  by (simp add: table_space_def)

text \<open>Only a reservation changes the next identity.\<close>

lemma next_reservation_frame:
  "table_insert mem e t = (r, t') \<Longrightarrow> ht_next_reservation t' = ht_next_reservation t"
  "table_insert_at mem h e t = (ok, t') \<Longrightarrow> ht_next_reservation t' = ht_next_reservation t"
  "table_publish_reserved ticket t = (ok, t') \<Longrightarrow> ht_next_reservation t' = ht_next_reservation t"
  "table_take_entry h t = (x, t') \<Longrightarrow> ht_next_reservation t' = ht_next_reservation t"
  "table_close h t = (ok, t') \<Longrightarrow> ht_next_reservation t' = ht_next_reservation t"
  using free_selector_loop_frame
  by (auto simp: table_insert_def free_selector_def table_insert_at_def table_publish_reserved_def table_take_entry_def
      table_close_def split: if_splits option.splits sum.splits prod.splits)

lemma table_insert_refines:
  assumes "table_ok t" and "table_insert mem e t = (r, t')"
  shows "space_insert mem e r (table_space t) (table_space t')"
proof (cases r)
  case None
  then show ?thesis
    using table_insert_spec [OF assms] next_reservation_frame(1) [OF assms(2)]
    by (auto simp: space_insert_def table_space_room [OF assms(1)] intro: table_space_eqI)
next
  case (Some h)
  then have "mem \<and> length (ht_entries t) + length (ht_pending t) < PROCESS_MAX_OBJECT_HANDLES"
    using assms(2) by (auto simp: table_insert_def reserve_publication_storage_def split: if_splits)
  then show ?thesis
    using Some table_insert_spec [OF assms] next_reservation_frame(1) [OF assms(2)]
    by (auto simp: space_insert_def table_space_room [OF assms(1)] table_space_used domIff intro: table_space_eqI)
qed

lemma table_duplicate_refines:
  assumes "table_ok t" and "table_duplicate_restricted mem source requested t = (r, t')"
  shows "space_exec (Duplicate mem source requested) (Result_Handle r) (table_space t) (table_space t')"
  using assms(2) table_insert_refines [OF assms(1)]
  by (auto simp: table_duplicate_restricted_def table_get_published [OF assms(1)] entry_restricted_def
      split: option.splits if_splits)

lemma reserve_identity_full: "(\<exists>n. checked_add (i :: u64) 1 = Some n) \<longleftrightarrow> i \<noteq> - 1"
proof -
  have "unat i + 1 < 2 ^ 64 \<longleftrightarrow> unat i \<noteq> unat (- 1 :: u64)"
    using unsigned_less [where 'b = 64 and 'a = nat, of i] by (auto simp: unsigned_minus_1_eq_mask mask_eq_exp_minus_1)
  then show ?thesis
    by (auto simp: checked_add_def word_unat_eq_iff)
qed

lemma table_reserve_refines:
  assumes "table_ok t" and "table_reserve mem pmem owner e t = (r, t')"
  shows "space_exec (Reserve mem pmem owner e) (Result_Ticket r) (table_space t) (table_space t')"
proof (cases "mem \<and> pmem \<and> owner \<noteq> 0 \<and> space_room (table_space t) \<and> ht_next_reservation t \<noteq> - 1")
  case True
  then have room: "length (ht_entries t) + length (ht_pending t) < PROCESS_MAX_OBJECT_HANDLES"
    by (simp add: table_space_room [OF assms(1)])
  from True obtain n where n: "checked_add (ht_next_reservation t) 1 = Some n"
    using reserve_identity_full by blast
  from free_selector_total [OF assms(1) room] obtain h i t1 where free: "free_selector t = (Some (h, i), t1)" by blast
  note spec = free_selector_spec [OF assms(1) free]
  have "r = Inr \<lparr>hr_handle = h, hr_identity = ht_next_reservation t, hr_owner = owner\<rparr>"
    "t' = t1\<lparr>ht_next_reservation := n, ht_pending := ht_pending t @
        [(\<lparr>hr_handle = h, hr_identity = ht_next_reservation t, hr_owner = owner\<rparr>, e)]\<rparr>"
    using assms(2) True n free room spec(2,3)
    by (auto simp: table_reserve_def Let_def reserve_publication_storage_def)
  moreover have "n = ht_next_reservation t + 1"
    using n by (auto simp: checked_add_def split: if_splits)
  moreover have "selector_ok h" "h \<notin> space_used (table_space t)"
    using spec(5) [OF refl] by (auto simp: table_space_used)
  ultimately show ?thesis
    using True spec(1) by (auto intro!: table_space_eqI)
next
  case False
  then have "checked_add (ht_next_reservation t) 1 = None \<or> owner = 0 \<or> \<not> reserve_publication_storage mem t \<or> \<not> pmem"
    using reserve_identity_full [of "ht_next_reservation t"]
    by (auto simp: table_space_room [OF assms(1)] reserve_publication_storage_def)
  then have "r = Inl e" "t' = t"
    using assms(2) by (auto simp: table_reserve_def split: option.splits if_splits)
  then show ?thesis
    using False by simp
qed

lemma table_is_reserved_fst: "table_is_reserved ticket t \<longleftrightarrow> ticket \<in> fst ` set (ht_pending t)"
  by (force simp: table_is_reserved_def list_ex_iff)

lemma table_publish_refines:
  assumes "table_ok t" and "table_publish_reserved ticket t = (ok, t')"
  shows "space_exec (Publish ticket) (Result_Bool ok) (table_space t) (table_space t')"
proof (cases ok)
  case True
  then obtain e where e: "(ticket, e) \<in> set (ht_pending t)" "published t' = (published t)(hr_handle ticket \<mapsto> e)"
      "set (ht_pending t') = set (ht_pending t) - {(ticket, e)}"
    using table_publish_spec [OF assms] by blast
  have "table_space t' = (table_space t)\<lparr>hs_live := (published t)(hr_handle ticket \<mapsto> e),
      hs_reserved := set (ht_pending t) - {(ticket, e)}\<rparr>"
    using e(2,3) next_reservation_frame(3) [OF assms(2)] by (intro table_space_eqI) simp_all
  then show ?thesis
    using True e(1) by (simp only: space_exec.simps table_space_simps if_True) blast
next
  case False
  then show ?thesis
    using table_publish_spec [OF assms] by (simp add: table_is_reserved_fst)
qed

lemma table_exec_refines:
  assumes "table_ok t" and "op_handles_ok oper" and "table_exec oper t = (r, t')"
  shows "space_exec oper r (table_space t) (table_space t')"
  using assms(3)
proof (cases oper)
  case (Insert mem e)
  then show ?thesis using assms(3) table_insert_refines [OF assms(1)] by (auto simp: map_prod_def split: prod.splits)
next
  case (Insert_At mem h e)
  then obtain ok where ok: "table_insert_at mem h e t = (ok, t')" "r = Result_Bool ok" "h \<noteq> 0"
    using assms(2,3) by (auto simp: op_handles_ok_def map_prod_def split: prod.splits)
  have "1 \<le> unat h" using ok(3) by (simp add: Suc_le_eq unat_gt_0)
  then show ?thesis
    using Insert_At ok(2) table_insert_at_spec [OF assms(1) ok(3,1)] next_reservation_frame(2) [OF ok(1)]
    by (auto simp: table_space_room [OF assms(1)] table_space_used selector_ok_def intro!: table_space_eqI)
next
  case (Duplicate mem source requested)
  then show ?thesis
    using assms(3) table_duplicate_refines [OF assms(1)] by (auto simp: map_prod_def split: prod.splits simp del: space_exec.simps)
next
  case (Reserve mem pmem owner e)
  then show ?thesis
    using assms(3) table_reserve_refines [OF assms(1)] by (auto simp: map_prod_def split: prod.splits simp del: space_exec.simps)
next
  case (Publish ticket)
  then show ?thesis
    using assms(3) table_publish_refines [OF assms(1)] by (auto simp: map_prod_def split: prod.splits simp del: space_exec.simps)
next
  case (Cancel ticket)
  then obtain x where x: "table_cancel_reserved ticket t = (x, t')" "r = Result_Entry x"
    using assms(3) by (auto simp: map_prod_def split: prod.splits)
  show ?thesis
    using Cancel x(2) table_cancel_spec [OF assms(1) x(1)]
    by (cases x) (auto simp: table_is_reserved_fst intro!: table_space_eqI)
next
  case (Take_Reservation owner)
  then obtain x where x: "table_take_reservation_for owner t = (x, t')" "r = Result_Entry x"
    using assms(3) by (auto simp: map_prod_def split: prod.splits)
  note spec = table_take_reservation_spec [OF assms(1) x(1)]
  show ?thesis
  proof (cases x)
    case None
    then show ?thesis using Take_Reservation x(2) spec by auto
  next
    case (Some e)
    then obtain ticket where ticket: "hr_owner ticket = owner" "(ticket, e) \<in> set (ht_pending t)"
      "set (ht_pending t') = set (ht_pending t) - {(ticket, e)}" using spec by auto
    have "table_space t' = (table_space t)\<lparr>hs_reserved := set (ht_pending t) - {(ticket, e)}\<rparr>"
      using ticket(3) spec by (intro table_space_eqI) simp_all
    then show ?thesis
      unfolding Take_Reservation x(2) Some using ticket(1,2)
      by (simp only: space_exec.simps table_space_simps option.case) blast
  qed
next
  case (Take_Entry h)
  then obtain x where x: "table_take_entry h t = (x, t')" "r = Result_Entry x"
    using assms(3) by (auto simp: map_prod_def split: prod.splits)
  show ?thesis
    using Take_Entry x(2) table_take_entry_spec [OF assms(1) x(1)] next_reservation_frame(4) [OF x(1)]
    by (auto intro!: table_space_eqI)
next
  case (Close h)
  then obtain ok where ok: "table_close h t = (ok, t')" "r = Result_Bool ok"
    using assms(3) by (auto simp: map_prod_def split: prod.splits)
  show ?thesis
    using Close ok(2) table_close_spec [OF assms(1) ok(1)] next_reservation_frame(5) [OF ok(1)]
    by (auto intro!: table_space_eqI)
next
  case (Retain keep)
  then show ?thesis
    using assms(3) table_ok_retain [OF assms(1), of keep] by (auto simp: table_retain_def intro!: table_space_eqI)
next
  case (Get h)
  then show ?thesis using assms(3) by (auto simp: table_get_published [OF assms(1)])
next
  case (Export source requested)
  then show ?thesis
    using assms(3)
    by (auto simp: table_export_restricted_def table_get_published [OF assms(1)] entry_restricted_def split: option.splits)
qed

section \<open>Properties\<close>

definition demo_entry :: handle_entry where
  "demo_entry = \<lparr>he_object = O_File 1, he_rights = R_READ OR R_DUPLICATE OR R_TRANSFER\<rparr>"

definition demo_table :: handle_table where
  "demo_table = \<lparr>ht_entries = [(1, demo_entry)], ht_next = 2, ht_pending = [], ht_next_reservation = 1\<rparr>"

lemma demo_table_inserted: "table_insert True demo_entry table_new = (Some 1, demo_table)"
proof -
  have "PROCESS_MAX_OBJECT_HANDLES = Suc 4095" by (simp add: PROCESS_MAX_OBJECT_HANDLES_def)
  then have "free_selector table_new = free_selector_loop (Suc 4095) table_new" by (simp only: free_selector_def)
  also have "\<dots> = (Some (1, 0), table_new\<lparr>ht_next := 2\<rparr>)"
    unfolding free_selector_loop.simps
    by (simp add: table_new_def clamp_selector_def next_selector_def handle_pending_def
        binary_search_by_key_def Let_def PROCESS_MAX_OBJECT_HANDLES_def)
  finally have "free_selector table_new = (Some (1, 0), table_new\<lparr>ht_next := 2\<rparr>)" .
  then show ?thesis
    by (simp add: table_insert_def reserve_publication_storage_def table_new_def demo_table_def vec_insert_def
        PROCESS_MAX_OBJECT_HANDLES_def)
qed

lemma demo_table_step: "table_step table_new demo_table"
  using demo_table_inserted by (rule table_step.insert)

lemma demo_table_ok: "table_ok demo_table"
  using demo_table_step table_new_ok by (rule table_step_ok)

text \<open>C12: whatever sequence of operations a table has gone through, its entries are strictly sorted by
  selector, no reserved selector is published or reserved twice, every selector is between 1 and
  4096, and published and reserved entries together number at most 4096.\<close>

theorem reachable_table_ok:
  assumes "table_step\<^sup>*\<^sup>* table_new t"
  shows "sorted_wrt (<) (map fst (ht_entries t)) \<and> distinct (map (\<lambda>x. hr_handle (fst x)) (ht_pending t)) \<and>
    fst ` set (ht_entries t) \<inter> (\<lambda>x. hr_handle (fst x)) ` set (ht_pending t) = {} \<and>
    fst ` set (ht_entries t) \<union> (\<lambda>x. hr_handle (fst x)) ` set (ht_pending t) \<subseteq>
      {h. 1 \<le> unat h \<and> unat h \<le> PROCESS_MAX_OBJECT_HANDLES} \<and>
    length (ht_entries t) + length (ht_pending t) \<le> PROCESS_MAX_OBJECT_HANDLES"
  using table_run_ok [OF assms table_new_ok]
  by (auto simp: table_ok_def keys_sorted_def dom_map_of_fst selector_ok_def)

theorem reachable_table_ok_witness:
  "sorted_wrt (<) (map fst (ht_entries demo_table)) \<and> distinct (map (\<lambda>x. hr_handle (fst x)) (ht_pending demo_table)) \<and>
    fst ` set (ht_entries demo_table) \<inter> (\<lambda>x. hr_handle (fst x)) ` set (ht_pending demo_table) = {} \<and>
    fst ` set (ht_entries demo_table) \<union> (\<lambda>x. hr_handle (fst x)) ` set (ht_pending demo_table) \<subseteq>
      {h. 1 \<le> unat h \<and> unat h \<le> PROCESS_MAX_OBJECT_HANDLES} \<and>
    length (ht_entries demo_table) + length (ht_pending demo_table) \<le> PROCESS_MAX_OBJECT_HANDLES"
  by (rule reachable_table_ok) (rule r_into_rtranclp, rule demo_table_step)

text \<open>C24: inserting an entry succeeds exactly when storage can be had and the table holds fewer than 4096
  published and reserved entries: the round-robin search never misses a free selector.\<close>

theorem insert_succeeds_iff:
  assumes "table_ok t"
  shows "(\<exists>h t'. table_insert mem e t = (Some h, t')) \<longleftrightarrow>
    mem \<and> length (ht_entries t) + length (ht_pending t) < PROCESS_MAX_OBJECT_HANDLES"
proof (cases "reserve_publication_storage mem t")
  case True
  then show ?thesis
    using free_selector_total [OF assms] by (auto simp: table_insert_def reserve_publication_storage_def)
next
  case False
  then show ?thesis by (auto simp: table_insert_def reserve_publication_storage_def)
qed

theorem insert_succeeds_iff_witness:
  "(\<exists>h t'. table_insert True demo_entry demo_table = (Some h, t')) \<longleftrightarrow>
    True \<and> length (ht_entries demo_table) + length (ht_pending demo_table) < PROCESS_MAX_OBJECT_HANDLES"
  by (rule insert_succeeds_iff) (rule demo_table_ok)

text \<open>C13: the table implements a namespace. Every operation of the table interface, on every reachable
  table, does exactly what the namespace prescribes for that operation, its arguments and its result:
  which selector and entry appear or disappear, which reservation is committed or withdrawn, when the
  operation fails and what it returns. Only the choice among the unused selectors is left open.\<close>

theorem table_refines_namespace:
  assumes "table_step\<^sup>*\<^sup>* table_new t" and "op_handles_ok oper" and "table_exec oper t = (r, t')"
  shows "space_exec oper r (table_space t) (table_space t')"
  using table_run_ok [OF assms(1) table_new_ok] assms(2,3) by (rule table_exec_refines)

theorem table_refines_namespace_witness:
  "table_exec (Insert True demo_entry) table_new = (Result_Handle (Some 1), demo_table)
   \<and> space_exec (Insert True demo_entry) (Result_Handle (Some 1)) (table_space table_new) (table_space demo_table)"
proof
  show run: "table_exec (Insert True demo_entry) table_new = (Result_Handle (Some 1), demo_table)"
    by (simp add: demo_table_inserted)
  show "space_exec (Insert True demo_entry) (Result_Handle (Some 1)) (table_space table_new) (table_space demo_table)"
    by (rule table_refines_namespace [OF rtranclp.rtrancl_refl _ run]) (simp add: op_handles_ok_def)
qed

end
