(* ===== verification/Bytes.thy ===== *)
theory Bytes
  imports Prelude
begin

text \<open>
  Byte buffers: little-endian encoding of integers (\<open>to_le_bytes\<close>, \<open>from_le_bytes\<close>) and
  copying into a part of a buffer (\<open>buf[i..i + n].copy_from_slice(src)\<close>).
\<close>

named_theorems bytes \<open>reading encoded buffers\<close>

definition to_le_bytes :: "'w::len word \<Rightarrow> u8 list" where
  "to_le_bytes w = map (\<lambda>i. ucast (drop_bit (8 * i) w)) [0..<LENGTH('w) div 8]"

fun from_le_bytes :: "u8 list \<Rightarrow> 'w::len word" where
  "from_le_bytes [] = 0"
| "from_le_bytes (b # bs) = ucast b OR push_bit 8 (from_le_bytes bs)"

lemma length_to_le_bytes [simp]: "length (to_le_bytes (w :: 'w::len word)) = LENGTH('w) div 8"
  by (simp add: to_le_bytes_def)

lemma bit_from_le_bytes:
  "bit (from_le_bytes bs :: 'w::len word) n \<longleftrightarrow>
     n < LENGTH('w) \<and> n div 8 < length bs \<and> bit (bs ! (n div 8)) (n mod 8)"
proof (induction bs arbitrary: n)
  case (Cons b bs)
  show ?case
  proof (cases "n < 8")
    case True
    then show ?thesis by (auto simp: bit_or_iff bit_push_bit_iff bit_simps)
  next
    case False
    then have "n div 8 = Suc ((n - 8) div 8)" "(n - 8) mod 8 = n mod 8" by (auto simp: le_div_geq le_mod_geq)
    moreover have "\<not> bit b n" using False bit_imp_le_length [of b n] by auto
    ultimately show ?thesis using False Cons.IH [of "n - 8"] by (auto simp: bit_or_iff bit_push_bit_iff bit_simps)
  qed
qed simp

lemma bit_to_le_bytes:
  "i < LENGTH('w) div 8 \<Longrightarrow> bit (to_le_bytes (w :: 'w::len word) ! i) n \<longleftrightarrow> n < 8 \<and> bit w (8 * i + n)"
  by (auto simp: to_le_bytes_def bit_simps)

lemma from_to_le_bytes [bytes]:
  assumes "8 dvd LENGTH('w)"
  shows "from_le_bytes (to_le_bytes (w :: 'w::len word)) = w"
proof (rule bit_word_eqI)
  fix n assume n: "n < LENGTH('w)"
  have div: "n div 8 < LENGTH('w) div 8" using assms n by auto
  have "8 * (n div 8) + n mod 8 = n" by simp
  with n div show "bit (from_le_bytes (to_le_bytes w) :: 'w word) n \<longleftrightarrow> bit w n"
    by (simp add: bit_from_le_bytes bit_to_le_bytes)
qed

lemma to_from_le_bytes [bytes]:
  assumes "length bs = LENGTH('w) div 8"
  shows "to_le_bytes (from_le_bytes bs :: 'w::len word) = bs"
proof (rule nth_equalityI)
  fix i assume "i < length (to_le_bytes (from_le_bytes bs :: 'w word))"
  then have i: "i < LENGTH('w) div 8" by simp
  show "to_le_bytes (from_le_bytes bs :: 'w word) ! i = bs ! i"
  proof (rule bit_word_eqI)
    fix n assume n: "n < LENGTH(8)"
    have "8 * i + n < LENGTH('w)" using i n by simp
    moreover have "(8 * i + n) div 8 = i" "(8 * i + n) mod 8 = n" using n by auto
    ultimately show "bit (to_le_bytes (from_le_bytes bs :: 'w word) ! i) n \<longleftrightarrow> bit (bs ! i) n"
      using i n assms by (simp add: bit_to_le_bytes bit_from_le_bytes)
  qed
qed (simp add: assms)

lemma to_le_bytes_inj:
  "8 dvd LENGTH('w) \<Longrightarrow> to_le_bytes (a :: 'w::len word) = to_le_bytes b \<longleftrightarrow> a = b"
  by (metis from_to_le_bytes)

subsection \<open>Slices\<close>

definition subslice :: "nat \<Rightarrow> nat \<Rightarrow> 'a list \<Rightarrow> 'a list" where
  "subslice i n xs = take n (drop i xs)"

definition slice_write :: "nat \<Rightarrow> 'a list \<Rightarrow> 'a list \<Rightarrow> 'a list" where
  "slice_write i src dst = take i dst @ src @ drop (i + length src) dst"

lemma length_slice_write [simp]: "i + length src \<le> length dst \<Longrightarrow> length (slice_write i src dst) = length dst"
  by (simp add: slice_write_def)

lemma slice_write_same [bytes]:
  "i + length src \<le> length dst \<Longrightarrow> subslice i (length src) (slice_write i src dst) = src"
  by (simp add: subslice_def slice_write_def)

lemma concat_block:
  assumes "\<forall>b\<in>set bs. length b = n" and "q < length bs" and "r \<le> n"
  shows "drop (q * n + r) (concat bs) = drop r (bs ! q) @ concat (drop (Suc q) bs)"
  using assms
proof (induction bs arbitrary: q)
  case (Cons b bs)
  then show ?case by (cases q) (auto simp: add.assoc)
qed simp

lemma length_concat_blocks: "\<forall>b\<in>set bs. length b = n \<Longrightarrow> length (concat bs) = length bs * n"
  by (induction bs) auto

end
