(* ===== verification/Handle_Snapshot.thy ===== *)
theory Handle_Snapshot
  imports Handle_Table Bytes
begin

text \<open>
  Immutable captures of a handle table, \<^verbatim>\<open>src/task/handle_snapshot.rs\<close>, and the read-out of
  handle metadata in its wire format (\<^verbatim>\<open>crates/abi/src/handle_snapshot.rs\<close>: a 16-byte
  header followed by 16-byte records). A capture keeps an entry only when it is transferable;
  \<open>read_at\<close> copies an arbitrary window of the format, record by record, which is shown equal
  to slicing the serialized table.
\<close>

record captured_handle =
  ch_handle :: object_handle
  ch_rights :: handle_rights
  ch_exportable :: "handle_entry option"

type_synonym handle_snapshot = "captured_handle list"

datatype export_error = ExportMissing | ExportDenied

definition snapshot_capture :: "bool \<Rightarrow> (object_handle \<times> handle_entry) list \<Rightarrow> handle_snapshot option" where
  "snapshot_capture mem entries =
     (if \<not> mem then None
      else Some (map (\<lambda>(handle, entry).
        \<lparr>ch_handle = handle, ch_rights = he_rights entry,
         ch_exportable = (if rights_contains (he_rights entry) R_TRANSFER then Some entry else None)\<rparr>) entries))"

definition table_capture :: "bool \<Rightarrow> handle_table \<Rightarrow> handle_snapshot option" where
  "table_capture mem t = snapshot_capture mem (ht_entries t)"

definition snapshot_len :: "handle_snapshot \<Rightarrow> nat" where
  "snapshot_len s = length s"

definition WIRE_VERSION :: u32 where "WIRE_VERSION = 1"
definition HEADER_LEN :: nat where "HEADER_LEN = 16"
definition RECORD_LEN :: nat where "RECORD_LEN = 16"

definition snapshot_header :: "handle_snapshot \<Rightarrow> u8 list" where
  "snapshot_header s =
     slice_write 8 (to_le_bytes (of_nat RECORD_LEN :: u32))
       (slice_write 4 (to_le_bytes (of_nat (length s) :: u32))
          (slice_write 0 (to_le_bytes WIRE_VERSION) (replicate HEADER_LEN 0)))"

definition snapshot_record :: "captured_handle \<Rightarrow> u8 list" where
  "snapshot_record c =
     slice_write 8 (to_le_bytes (ch_rights c))
       (slice_write 0 (to_le_bytes (ch_handle c)) (replicate RECORD_LEN 0))"

lemma length_snapshot_header [simp]: "length (snapshot_header s) = 16"
  by (simp add: snapshot_header_def HEADER_LEN_def)

lemma length_snapshot_record [simp]: "length (snapshot_record c) = 16"
  by (simp add: snapshot_record_def RECORD_LEN_def)

text \<open>
  One iteration serves the header or one record. An index past the records would panic in the
  source; it is \<open>None\<close> here.
\<close>

definition record_at :: "handle_snapshot \<Rightarrow> nat \<Rightarrow> (u8 list \<times> nat) option" where
  "record_at s pos =
     (if pos < HEADER_LEN then Some (snapshot_header s, pos)
      else let pos = pos - HEADER_LEN
           in if pos div RECORD_LEN < length s
              then Some (snapshot_record (s ! (pos div RECORD_LEN)), pos mod RECORD_LEN)
              else None)"

lemma record_at_Some: "record_at s pos = Some (record, within) \<Longrightarrow> length record = 16 \<and> within < 16"
  by (auto simp: record_at_def Let_def HEADER_LEN_def RECORD_LEN_def split: if_splits)

function read_loop :: "handle_snapshot \<Rightarrow> nat \<Rightarrow> nat \<Rightarrow> nat \<Rightarrow> u8 list \<Rightarrow> u8 list option" where
  "read_loop s offset cnt finished buf =
     (if finished < cnt then
        case record_at s (offset + finished) of
          None \<Rightarrow> None
        | Some (record, within) \<Rightarrow>
            let chunk = min (length record - within) (cnt - finished)
            in read_loop s offset cnt (finished + chunk)
                 (slice_write finished (subslice within chunk record) buf)
      else Some buf)"
  by pat_completeness auto
termination
  by (relation "measure (\<lambda>(s, offset, cnt, finished, buf). cnt - finished)") (auto dest: record_at_Some)

declare read_loop.simps [simp del]

definition snapshot_read_at :: "handle_snapshot \<Rightarrow> u64 \<Rightarrow> u8 list \<Rightarrow> (nat \<times> u8 list) option" where
  "snapshot_read_at s offset buf =
     (let offset = unat offset;
          len = HEADER_LEN + length s * RECORD_LEN;
          cnt = min (length buf) (len - offset)
      in map_option (\<lambda>out. (cnt, out)) (read_loop s offset cnt 0 buf))"

definition snapshot_describe :: "handle_snapshot \<Rightarrow> handle_info list" where
  "snapshot_describe s = map (\<lambda>c. \<lparr>hi_handle = ch_handle c, hi_reserved = 0, hi_rights = ch_rights c\<rparr>) s"

definition snapshot_export_restricted ::
  "object_handle \<Rightarrow> handle_rights \<Rightarrow> handle_snapshot \<Rightarrow> export_error + handle_entry" where
  "snapshot_export_restricted source requested s =
     (case binary_search_by_key ch_handle source s of
        Inl _ \<Rightarrow> Inl ExportMissing
      | Inr i \<Rightarrow>
          (case Option.bind (ch_exportable (s ! i)) (\<lambda>entry. entry_restricted entry requested) of
             Some e \<Rightarrow> Inr e | None \<Rightarrow> Inl ExportDenied))"

section \<open>The wire format\<close>

definition snapshot_wire :: "handle_snapshot \<Rightarrow> u8 list" where
  "snapshot_wire s = concat (snapshot_header s # map snapshot_record s)"

lemma length_snapshot_wire: "length (snapshot_wire s) = HEADER_LEN + length s * RECORD_LEN"
proof -
  have "length (concat (map snapshot_record s)) = length (map snapshot_record s) * 16"
    by (rule length_concat_blocks) auto
  then show ?thesis by (simp add: snapshot_wire_def HEADER_LEN_def RECORD_LEN_def)
qed

lemma record_at_wire:
  assumes "pos < length (snapshot_wire s)"
  shows "\<exists>rcd within rest. record_at s pos = Some (rcd, within) \<and> within < 16 \<and> length rcd = 16 \<and>
    drop pos (snapshot_wire s) = drop within rcd @ rest"
proof -
  define bs where "bs = snapshot_header s # map snapshot_record s"
  have len: "\<forall>b\<in>set bs. length b = 16" by (auto simp: bs_def)
  have q: "pos div 16 < length bs"
    using assms by (simp add: length_snapshot_wire bs_def HEADER_LEN_def RECORD_LEN_def)
  have at: "record_at s pos = Some (bs ! (pos div 16), pos mod 16)"
  proof (cases "pos < 16")
    case True
    then show ?thesis by (simp add: record_at_def HEADER_LEN_def bs_def)
  next
    case False
    then have "pos div 16 = Suc ((pos - 16) div 16)" "(pos - 16) mod 16 = pos mod 16"
      by (auto simp: le_div_geq le_mod_geq)
    then show ?thesis using False q by (simp add: record_at_def HEADER_LEN_def RECORD_LEN_def bs_def)
  qed
  have "drop (pos div 16 * 16 + pos mod 16) (concat bs) =
      drop (pos mod 16) (bs ! (pos div 16)) @ concat (drop (Suc (pos div 16)) bs)"
    using len q by (intro concat_block) auto
  then show ?thesis using at len q by (auto simp: snapshot_wire_def bs_def [symmetric])
qed

lemma read_loop_wire:
  "finished \<le> cnt \<Longrightarrow> cnt \<le> length buf \<Longrightarrow> offset + cnt \<le> length (snapshot_wire s) \<or> cnt = 0 \<Longrightarrow>
   read_loop s offset cnt finished buf =
     Some (take finished buf @ subslice (offset + finished) (cnt - finished) (snapshot_wire s) @ drop cnt buf)"
proof (induction "cnt - finished" arbitrary: finished buf rule: less_induct)
  case less
  show ?case
  proof (cases "finished < cnt")
    case False
    then show ?thesis using less.prems by (subst read_loop.simps) (simp add: subslice_def)
  next
    case True
    with less.prems have "offset + finished < length (snapshot_wire s)" by auto
    from record_at_wire [OF this] obtain rcd within rest where
      rec: "record_at s (offset + finished) = Some (rcd, within)" "within < 16" "length rcd = 16"
        "drop (offset + finished) (snapshot_wire s) = drop within rcd @ rest" by blast
    define chunk where "chunk = min (length rcd - within) (cnt - finished)"
    define out where "out = slice_write finished (subslice within chunk rcd) buf"
    have chunk: "0 < chunk" "finished + chunk \<le> cnt" "chunk \<le> 16 - within" using rec True by (auto simp: chunk_def)
    have src: "length (subslice within chunk rcd) = chunk" using chunk rec by (simp add: subslice_def)
    have out: "take (finished + chunk) out = take finished buf @ subslice within chunk rcd"
      "drop cnt out = drop cnt buf" "length out = length buf"
      using src chunk less.prems by (simp_all add: out_def slice_write_def)
    have wire: "subslice (offset + finished) (cnt - finished) (snapshot_wire s) =
        subslice within chunk rcd @ subslice (offset + (finished + chunk)) (cnt - (finished + chunk)) (snapshot_wire s)"
    proof -
      have "cnt - finished = chunk + (cnt - (finished + chunk))" using chunk by simp
      then have "subslice (offset + finished) (cnt - finished) (snapshot_wire s) =
          take chunk (drop (offset + finished) (snapshot_wire s)) @
          take (cnt - (finished + chunk)) (drop chunk (drop (offset + finished) (snapshot_wire s)))"
        unfolding subslice_def by (metis take_add)
      moreover have "take chunk (drop (offset + finished) (snapshot_wire s)) = subslice within chunk rcd"
        using chunk rec by (simp add: subslice_def)
      ultimately show ?thesis by (simp add: subslice_def add.commute add.left_commute)
    qed
    have "read_loop s offset cnt finished buf = read_loop s offset cnt (finished + chunk) out"
      using True rec(1) by (subst read_loop.simps) (simp add: chunk_def out_def Let_def)
    also have "\<dots> = Some (take (finished + chunk) out @
        subslice (offset + (finished + chunk)) (cnt - (finished + chunk)) (snapshot_wire s) @ drop cnt out)"
      using less.prems chunk True by (intro less.hyps) (auto simp: out)
    finally show ?thesis by (simp add: out wire)
  qed
qed

lemma snapshot_record_layout:
  "snapshot_record c = to_le_bytes (ch_handle c) @ to_le_bytes (0 :: u32) @ to_le_bytes (ch_rights c)"
proof -
  have zero: "to_le_bytes (0 :: u32) = replicate 4 0" by (simp add: to_le_bytes_def map_replicate_const)
  show ?thesis by (simp add: snapshot_record_def slice_write_def zero RECORD_LEN_def)
qed

section \<open>Captures and the table they were taken from\<close>

lemma capture_search:
  assumes "snapshot_capture True entries = Some s"
  shows "binary_search_by_key ch_handle h s = binary_search_by_key fst h entries"
  using assms by (intro binary_search_cong) (auto simp: snapshot_capture_def)

text \<open>A capture exports exactly what the table exported at the moment of the capture.\<close>

lemma capture_exports:
  assumes "table_ok t" and "table_capture True t = Some s"
  shows "snapshot_export_restricted source requested s = Inr e \<longleftrightarrow>
    table_export_restricted source requested t = Some e"
proof -
  have search: "binary_search_by_key ch_handle source s = binary_search_by_key fst source (ht_entries t)"
    using assms(2) unfolding table_capture_def by (rule capture_search)
  show ?thesis
  proof (cases "binary_search_by_key fst source (ht_entries t)")
    case (Inl i)
    then show ?thesis
      by (simp add: snapshot_export_restricted_def search table_export_restricted_def table_get_def)
  next
    case (Inr i)
    have i: "i < length (ht_entries t)" using search_found(1) [OF table_ok_sorted [OF assms(1)] Inr] .
    then have "ch_exportable (s ! i) =
        (if rights_contains (he_rights (snd (ht_entries t ! i))) R_TRANSFER then Some (snd (ht_entries t ! i)) else None)"
      using assms(2) by (auto simp: table_capture_def snapshot_capture_def split: prod.splits)
    then show ?thesis
      by (auto simp: snapshot_export_restricted_def search Inr table_export_restricted_def table_get_def split: option.splits)
  qed
qed

section \<open>Properties\<close>

text \<open>C28: reading a capture never panics and is exact. For every offset and buffer it returns the number of
  bytes of the wire format that lie at that offset and fit, writes precisely those bytes to the front of
  the buffer and leaves the rest of the buffer alone.\<close>

theorem snapshot_read_at_exact:
  "snapshot_read_at s offset buf =
     (let cnt = min (length buf) (length (snapshot_wire s) - unat offset)
      in Some (cnt, subslice (unat offset) cnt (snapshot_wire s) @ drop cnt buf))"
proof -
  define cnt where "cnt = min (length buf) (length (snapshot_wire s) - unat offset)"
  have "unat offset + cnt \<le> length (snapshot_wire s) \<or> cnt = 0" by (auto simp: cnt_def)
  then have "read_loop s (unat offset) cnt 0 buf =
      Some (take 0 buf @ subslice (unat offset + 0) (cnt - 0) (snapshot_wire s) @ drop cnt buf)"
    by (intro read_loop_wire) (simp_all add: cnt_def)
  then show ?thesis
    unfolding snapshot_read_at_def Let_def length_snapshot_wire [symmetric] cnt_def [symmetric] by simp
qed

text \<open>C29: a capture delegates exactly what the table could have delegated when it was captured: the same
  handles, only transferable ones, and never more rights than requested from a covering entry. Later
  changes of the table cannot retarget it.\<close>

theorem capture_delegates_as_table:
  assumes "table_ok t" and "table_capture True t = Some s"
  shows "snapshot_export_restricted source requested s = Inr e \<longleftrightarrow>
    (\<exists>src. published t source = Some src \<and> rights_contains (he_rights src) R_TRANSFER \<and>
       rights_contains (he_rights src) requested \<and> e = \<lparr>he_object = he_object src, he_rights = requested\<rparr>)"
  unfolding capture_exports [OF assms] by (rule table_export_spec [OF assms(1)])

theorem capture_delegates_as_table_witness:
  "snapshot_export_restricted 1 R_READ [\<lparr>ch_handle = 1, ch_rights = he_rights demo_entry, ch_exportable = Some demo_entry\<rparr>] =
      Inr \<lparr>he_object = O_File 1, he_rights = R_READ\<rparr> \<longleftrightarrow>
    (\<exists>src. published demo_table 1 = Some src \<and> rights_contains (he_rights src) R_TRANSFER \<and>
       rights_contains (he_rights src) R_READ \<and>
       \<lparr>he_object = O_File 1, he_rights = R_READ\<rparr> = \<lparr>he_object = he_object src, he_rights = R_READ\<rparr>)"
proof (rule capture_delegates_as_table [OF demo_table_ok])
  have "rights_contains (he_rights demo_entry) R_TRANSFER"
    by (simp add: demo_entry_def rights_contains_def R_READ_def R_DUPLICATE_def R_TRANSFER_def)
  then show "table_capture True demo_table =
      Some [\<lparr>ch_handle = 1, ch_rights = he_rights demo_entry, ch_exportable = Some demo_entry\<rparr>]"
    by (simp add: table_capture_def snapshot_capture_def demo_table_def)
qed

end
