(* ===== verification/Process_Image.thy ===== *)
theory Process_Image
  imports Bytes
begin

text \<open>
  The wire format of a new process image, \<^verbatim>\<open>crates/abi/src/process_image.rs\<close>: a 32-byte
  header, stack relocations, initial mappings, launch-context updates and the opaque stack bytes.
  \<open>decode\<close> validates an image, \<open>encode\<close> builds one, \<open>attach_mappings\<close> and
  \<open>attach_context\<close> extend one in place. Buffers are byte lists; an operation that writes its
  output returns the whole buffer beside its result. \<open>image_bytes\<close> is the format itself;
  decoding and encoding are shown to be inverse through it.
\<close>

definition MAGIC :: "u8 list" where "MAGIC = [0x4D, 0x49, 0x4D, 0x47]"
definition VERSION :: u16 where "VERSION = 1"
definition MAPPED_VERSION :: u16 where "MAPPED_VERSION = 2"
definition CONTEXT_VERSION :: u16 where "CONTEXT_VERSION = 3"
definition CONTEXT_UPDATE_LEN :: nat where "CONTEXT_UPDATE_LEN = 24"
definition MAX_CONTEXT_UPDATES :: nat where "MAX_CONTEXT_UPDATES = 1024"
definition MAPPING_LEN :: nat where "MAPPING_LEN = 48"
definition MAX_MAPPINGS :: nat where "MAX_MAPPINGS = 16"
definition IMAGE_HEADER_LEN :: nat where "IMAGE_HEADER_LEN = 32"
definition RELOCATION_LEN :: nat where "RELOCATION_LEN = 8"
definition MAX_STACK_BYTES :: nat where "MAX_STACK_BYTES = 4096"
definition MAX_RELOCATIONS :: nat where "MAX_RELOCATIONS = MAX_STACK_BYTES div 8"

datatype relocation_kind =
  StackAddress | ElfProgramHeaders | ElfProgramHeaderSize | ElfProgramHeaderCount | ElfEntry | PageSize

definition relocation_kind_from_raw :: "u16 \<Rightarrow> relocation_kind option" where
  "relocation_kind_from_raw v =
     (if v = 1 then Some StackAddress
      else if v = 2 then Some ElfProgramHeaders
      else if v = 3 then Some ElfProgramHeaderSize
      else if v = 4 then Some ElfProgramHeaderCount
      else if v = 5 then Some ElfEntry
      else if v = 6 then Some PageSize
      else None)"

fun relocation_kind_raw :: "relocation_kind \<Rightarrow> u16" where
  "relocation_kind_raw StackAddress = 1"
| "relocation_kind_raw ElfProgramHeaders = 2"
| "relocation_kind_raw ElfProgramHeaderSize = 3"
| "relocation_kind_raw ElfProgramHeaderCount = 4"
| "relocation_kind_raw ElfEntry = 5"
| "relocation_kind_raw PageSize = 6"

record relocation =
  rel_offset :: u32
  rel_kind :: relocation_kind

datatype image_error =
    BufferTooSmall | InvalidHeader | InvalidLength | InvalidStackPointer | InvalidRelocation
  | DuplicateRelocation | InvalidMapping | InvalidContext

record startup_image =
  si_initial_stack_pointer :: u32
  si_stack :: "u8 list"
  si_relocations :: "u8 list"
  si_mappings :: "u8 list"
  si_context :: "u8 list"

record context_update =
  cu_kind :: u32
  cu_key :: u64
  cu_value :: u64

record initial_mapping =
  im_address :: u64
  im_length :: u64
  im_access :: u64
  im_options :: u64
  im_backing_handle :: u64
  im_backing_offset :: u64

section \<open>Reading records\<close>

definition read_u16 :: "u8 list \<Rightarrow> nat \<Rightarrow> u16 option" where
  "read_u16 input offset =
     (if offset + 2 \<le> length input then Some (from_le_bytes (subslice offset 2 input)) else None)"

definition read_u32 :: "u8 list \<Rightarrow> nat \<Rightarrow> u32 option" where
  "read_u32 input offset =
     (if offset + 4 \<le> length input then Some (from_le_bytes (subslice offset 4 input)) else None)"

definition read_u64 :: "u8 list \<Rightarrow> nat \<Rightarrow> u64 option" where
  "read_u64 input offset =
     (if offset + 8 \<le> length input then Some (from_le_bytes (subslice offset 8 input)) else None)"

text \<open>\<open>slice::chunks_exact\<close>.\<close>

function chunks_exact :: "nat \<Rightarrow> 'a list \<Rightarrow> 'a list list" where
  "chunks_exact n xs = (if 0 < n \<and> n \<le> length xs then take n xs # chunks_exact n (drop n xs) else [])"
  by pat_completeness auto
termination
  by (relation "measure (\<lambda>(n, xs). length xs)") auto

declare chunks_exact.simps [simp del]

definition context_record :: "u8 list \<Rightarrow> context_update" where
  "context_record r =
     \<lparr>cu_kind = the (read_u32 r 0), cu_key = the (read_u64 r 8), cu_value = the (read_u64 r 16)\<rparr>"

definition context_updates :: "startup_image \<Rightarrow> context_update list" where
  "context_updates img = map context_record (chunks_exact CONTEXT_UPDATE_LEN (si_context img))"

definition mapping_record :: "u8 list \<Rightarrow> initial_mapping" where
  "mapping_record r =
     \<lparr>im_address = the (read_u64 r 0), im_length = the (read_u64 r 8), im_access = the (read_u64 r 16),
      im_options = the (read_u64 r 24), im_backing_handle = the (read_u64 r 32),
      im_backing_offset = the (read_u64 r 40)\<rparr>"

definition image_mappings :: "startup_image \<Rightarrow> initial_mapping list" where
  "image_mappings img = map mapping_record (chunks_exact MAPPING_LEN (si_mappings img))"

definition relocation_record :: "u8 list \<Rightarrow> relocation option" where
  "relocation_record r =
     map_option (\<lambda>kind. \<lparr>rel_offset = from_le_bytes (subslice 0 4 r), rel_kind = kind\<rparr>)
       (relocation_kind_from_raw (from_le_bytes (subslice 4 2 r)))"

definition relocation_at :: "u8 list \<Rightarrow> nat \<Rightarrow> relocation option" where
  "relocation_at bytes index =
     (let offset = index * RELOCATION_LEN
      in if offset + RELOCATION_LEN \<le> length bytes
         then relocation_record (subslice offset RELOCATION_LEN bytes) else None)"

text \<open>The \<open>Relocations\<close> iterator, as the list it yields: it stops at the first record that
  does not parse.\<close>

function relocations_from :: "u8 list \<Rightarrow> nat \<Rightarrow> relocation list" where
  "relocations_from bytes offset =
     (if offset + RELOCATION_LEN \<le> length bytes then
        case relocation_record (subslice offset RELOCATION_LEN bytes) of
          None \<Rightarrow> []
        | Some r \<Rightarrow> r # relocations_from bytes (offset + RELOCATION_LEN)
      else [])"
  by pat_completeness auto
termination
  by (relation "measure (\<lambda>(bytes, offset). length bytes - offset)") (auto simp: RELOCATION_LEN_def)

declare relocations_from.simps [simp del]

definition image_relocations :: "startup_image \<Rightarrow> relocation list" where
  "image_relocations img = relocations_from (si_relocations img) 0"

section \<open>Validation\<close>

definition SET_HANDLE :: u32 where "SET_HANDLE = 1"
definition REMOVE_HANDLE :: u32 where "REMOVE_HANDLE = 2"
definition SET_VALUE :: u32 where "SET_VALUE = 3"
definition REMOVE_VALUE :: u32 where "REMOVE_VALUE = 4"

definition update_is_handle :: "context_update \<Rightarrow> bool" where
  "update_is_handle u \<longleftrightarrow> cu_kind u = SET_HANDLE \<or> cu_kind u = REMOVE_HANDLE"

definition update_validate :: "context_update \<Rightarrow> image_error option" where
  "update_validate u =
     (if cu_kind u = SET_HANDLE \<and> 0 < cu_value u \<and> cu_value u \<le> 4096 then None
      else if cu_kind u = SET_VALUE then None
      else if (cu_kind u = REMOVE_HANDLE \<or> cu_kind u = REMOVE_VALUE) \<and> cu_value u = 0 then None
      else Some InvalidContext)"

definition MEMORY_ACCESS_WRITE :: u64 where "MEMORY_ACCESS_WRITE = 2"
definition MEMORY_ACCESS_EXECUTE :: u64 where "MEMORY_ACCESS_EXECUTE = 4"
definition MEMORY_ACCESS_ALL :: u64 where "MEMORY_ACCESS_ALL = 7"
definition MEMORY_MAP_SHARED :: u64 where "MEMORY_MAP_SHARED = 2"

definition mapping_validate :: "initial_mapping \<Rightarrow> image_error option" where
  "mapping_validate m =
     (if im_address m = 0
         \<or> im_address m AND 4095 \<noteq> 0
         \<or> im_length m = 0
         \<or> im_length m AND 4095 \<noteq> 0
         \<or> (case checked_add (im_address m) (im_length m) of None \<Rightarrow> True | Some end \<Rightarrow> end > push_bit 47 1)
         \<or> im_access m AND NOT MEMORY_ACCESS_ALL \<noteq> 0
         \<or> im_access m AND (MEMORY_ACCESS_WRITE OR MEMORY_ACCESS_EXECUTE) = MEMORY_ACCESS_WRITE OR MEMORY_ACCESS_EXECUTE
         \<or> im_options m AND NOT MEMORY_MAP_SHARED \<noteq> 0
         \<or> im_backing_offset m AND 4095 \<noteq> 0
         \<or> checked_add (im_backing_offset m) (im_length m) = None
         \<or> (im_backing_handle m = 0 \<and> im_backing_offset m \<noteq> 0)
      then Some InvalidMapping else None)"

definition mappings_overlap :: "initial_mapping \<Rightarrow> initial_mapping \<Rightarrow> bool" where
  "mappings_overlap m other \<longleftrightarrow>
     im_address m < im_address other + im_length other \<and> im_address other < im_address m + im_length m"

text \<open>The body of each validation loop: the error at an index, if any.\<close>

definition check_relocation :: "u8 list \<Rightarrow> u8 list \<Rightarrow> nat \<Rightarrow> image_error option" where
  "check_relocation relocations stack index =
     (case relocation_at relocations index of
        None \<Rightarrow> Some InvalidRelocation
      | Some r \<Rightarrow>
          let offset = unat (rel_offset r)
          in if rel_offset r AND 7 \<noteq> 0 \<or> offset + 8 > length stack then Some InvalidRelocation
             else if rel_kind r = StackAddress \<and>
                     (case read_u64 stack offset of None \<Rightarrow> True | Some target \<Rightarrow> unat target \<ge> length stack)
             then Some InvalidRelocation
             else if list_ex (\<lambda>previous. case relocation_at relocations previous of
                                           None \<Rightarrow> False | Some item \<Rightarrow> rel_offset item = rel_offset r) [0..<index]
             then Some DuplicateRelocation
             else None)"

definition check_mapping :: "initial_mapping list \<Rightarrow> nat \<Rightarrow> image_error option" where
  "check_mapping ms index =
     (case mapping_validate (ms ! index) of
        Some e \<Rightarrow> Some e
      | None \<Rightarrow> if list_ex (mappings_overlap (ms ! index)) (take index ms) then Some InvalidMapping else None)"

definition same_context_key :: "context_update \<Rightarrow> context_update \<Rightarrow> bool" where
  "same_context_key u previous \<longleftrightarrow> cu_key previous = cu_key u \<and> update_is_handle previous = update_is_handle u"

definition check_update :: "u8 list \<Rightarrow> context_update list \<Rightarrow> nat \<Rightarrow> image_error option" where
  "check_update context us index =
     (case update_validate (us ! index) of
        Some e \<Rightarrow> Some e
      | None \<Rightarrow>
          if read_u32 context (index * CONTEXT_UPDATE_LEN + 4) \<noteq> Some 0
             \<or> list_ex (same_context_key (us ! index)) (take index us)
          then Some InvalidContext else None)"

definition usize_add :: "nat \<Rightarrow> nat \<Rightarrow> nat option" where
  "usize_add a b = (if a + b < 2 ^ 64 then Some (a + b) else None)"

text \<open>
  The sections of an image whose length fits, and the validation of their records. The products
  with the record lengths are exact: the counts are bounded before.
\<close>

definition decode_sections ::
  "u8 list \<Rightarrow> u32 \<Rightarrow> nat \<Rightarrow> nat \<Rightarrow> nat \<Rightarrow> nat \<Rightarrow> image_error + startup_image" where
  "decode_sections input pointer relocation_count mapping_start context_start stack_start =
     (let relocations = subslice IMAGE_HEADER_LEN (mapping_start - IMAGE_HEADER_LEN) input;
          mappings = subslice mapping_start (context_start - mapping_start) input;
          context = subslice context_start (stack_start - context_start) input;
          stack = drop stack_start input
      in case find_map (check_relocation relocations stack) [0..<relocation_count] of
           Some e \<Rightarrow> Inl e
         | None \<Rightarrow>
             let img = \<lparr>si_initial_stack_pointer = pointer, si_stack = stack, si_relocations = relocations,
                         si_mappings = mappings, si_context = context\<rparr>
             in case find_map (check_mapping (image_mappings img)) [0..<length (image_mappings img)] of
                  Some e \<Rightarrow> Inl e
                | None \<Rightarrow>
                    (case find_map (check_update context (context_updates img)) [0..<length (context_updates img)] of
                       Some e \<Rightarrow> Inl e
                     | None \<Rightarrow> Inr img))"

definition decode_lengths ::
  "u8 list \<Rightarrow> u32 \<Rightarrow> nat \<Rightarrow> nat \<Rightarrow> nat \<Rightarrow> nat \<Rightarrow> image_error + startup_image" where
  "decode_lengths input pointer stack_len relocation_count mapping_count context_count =
     (if context_count > MAX_CONTEXT_UPDATES \<or> read_u16 input 4 \<noteq> Some CONTEXT_VERSION \<and> context_count \<noteq> 0
      then Inl InvalidHeader
      else if mapping_count > MAX_MAPPINGS \<or> read_u16 input 4 = Some VERSION \<and> mapping_count \<noteq> 0
      then Inl InvalidHeader
      else if stack_len = 0 \<or> stack_len > MAX_STACK_BYTES \<or> stack_len mod 8 \<noteq> 0 \<or> relocation_count > MAX_RELOCATIONS
      then Inl InvalidLength
      else case usize_add IMAGE_HEADER_LEN (relocation_count * RELOCATION_LEN) of
             None \<Rightarrow> Inl InvalidLength
           | Some mapping_start \<Rightarrow>
               (case usize_add mapping_start (mapping_count * MAPPING_LEN) of
                  None \<Rightarrow> Inl InvalidLength
                | Some context_start \<Rightarrow>
                    (case usize_add context_start (context_count * CONTEXT_UPDATE_LEN) of
                       None \<Rightarrow> Inl InvalidLength
                     | Some stack_start \<Rightarrow>
                         (case usize_add stack_start stack_len of
                            None \<Rightarrow> Inl InvalidLength
                          | Some expected_len \<Rightarrow>
                              if length input \<noteq> expected_len then Inl InvalidLength
                              else if unat pointer \<ge> stack_len \<or> pointer AND 7 \<noteq> 0 then Inl InvalidStackPointer
                              else decode_sections input pointer relocation_count mapping_start context_start
                                     stack_start))))"

definition decode :: "u8 list \<Rightarrow> image_error + startup_image" where
  "decode input =
     (if length input < IMAGE_HEADER_LEN then Inl BufferTooSmall
      else if subslice 0 4 input \<noteq> MAGIC
           \<or> \<not> (read_u16 input 4 = Some VERSION \<or> read_u16 input 4 = Some MAPPED_VERSION
                \<or> read_u16 input 4 = Some CONTEXT_VERSION)
           \<or> read_u16 input 6 \<noteq> Some (of_nat IMAGE_HEADER_LEN)
           \<or> read_u32 input 8 \<noteq> Some 0
      then Inl InvalidHeader
      else case (read_u32 input 12, read_u32 input 16, read_u32 input 20, read_u32 input 24, read_u32 input 28) of
             (Some pointer, Some stack_len, Some relocation_count, Some mapping_count, Some context_count) \<Rightarrow>
               decode_lengths input pointer (unat stack_len) (unat relocation_count) (unat mapping_count)
                 (unat context_count)
           | _ \<Rightarrow> Inl InvalidHeader)"

section \<open>Building images\<close>

text \<open>\<open>copy_within(i..j, d)\<close>.\<close>

definition copy_within :: "nat \<Rightarrow> nat \<Rightarrow> nat \<Rightarrow> 'a list \<Rightarrow> 'a list" where
  "copy_within i j d xs = slice_write d (subslice i (j - i) xs) xs"

definition write_update :: "nat \<Rightarrow> nat \<times> context_update \<Rightarrow> u8 list \<Rightarrow> u8 list" where
  "write_update insertion = (\<lambda>(index, u) out.
     let offset = insertion + index * CONTEXT_UPDATE_LEN
     in slice_write (offset + 16) (to_le_bytes (cu_value u))
          (slice_write (offset + 8) (to_le_bytes (cu_key u))
             (slice_write (offset + 4) (replicate 4 0)
                (slice_write offset (to_le_bytes (cu_kind u)) out))))"

definition check_new_update :: "context_update list \<Rightarrow> nat \<Rightarrow> image_error option" where
  "check_new_update us index =
     (case update_validate (us ! index) of
        Some e \<Rightarrow> Some e
      | None \<Rightarrow> if list_ex (same_context_key (us ! index)) (take index us) then Some InvalidContext else None)"

definition attach_context :: "u8 list \<Rightarrow> nat \<Rightarrow> context_update list \<Rightarrow> (image_error + nat) \<times> u8 list" where
  "attach_context out len updates =
     (if len > length out then (Inl InvalidLength, out)
      else case decode (take len out) of
             Inl e \<Rightarrow> (Inl e, out)
           | Inr img \<Rightarrow>
               if si_context img \<noteq> [] \<or> length updates > MAX_CONTEXT_UPDATES then (Inl InvalidContext, out)
               else case find_map (check_new_update updates) [0..<length updates] of
                      Some e \<Rightarrow> (Inl e, out)
                    | None \<Rightarrow>
                        let insertion = len - length (si_stack img);
                            added = length updates * CONTEXT_UPDATE_LEN
                        in case usize_add len added of
                             None \<Rightarrow> (Inl InvalidLength, out)
                           | Some end \<Rightarrow>
                               if end > length out then (Inl BufferTooSmall, out)
                               else (Inr end,
                                     fold (write_update insertion) (enumerate 0 updates)
                                       (slice_write 28 (to_le_bytes (of_nat (length updates) :: u32))
                                          (slice_write 4 (to_le_bytes CONTEXT_VERSION)
                                             (copy_within insertion len (insertion + added) out)))))"

definition mapping_words :: "initial_mapping \<Rightarrow> u64 list" where
  "mapping_words m = [im_address m, im_length m, im_access m, im_options m, im_backing_handle m, im_backing_offset m]"

definition write_mapping :: "nat \<Rightarrow> nat \<times> initial_mapping \<Rightarrow> u8 list \<Rightarrow> u8 list" where
  "write_mapping insertion = (\<lambda>(index, m) out.
     fold (\<lambda>(word, v) out. slice_write (insertion + index * MAPPING_LEN + word * 8) (to_le_bytes v) out)
       (enumerate 0 (mapping_words m)) out)"

definition attach_mappings :: "u8 list \<Rightarrow> nat \<Rightarrow> initial_mapping list \<Rightarrow> (image_error + nat) \<times> u8 list" where
  "attach_mappings out len mappings =
     (if len > length out then (Inl InvalidLength, out)
      else case decode (take len out) of
             Inl e \<Rightarrow> (Inl e, out)
           | Inr img \<Rightarrow>
               if image_mappings img \<noteq> [] \<or> si_context img \<noteq> [] \<or> length mappings > MAX_MAPPINGS
               then (Inl InvalidMapping, out)
               else case find_map (check_mapping mappings) [0..<length mappings] of
                      Some e \<Rightarrow> (Inl e, out)
                    | None \<Rightarrow>
                        let insertion = IMAGE_HEADER_LEN + length (si_relocations img);
                            added = length mappings * MAPPING_LEN
                        in case usize_add len added of
                             None \<Rightarrow> (Inl InvalidLength, out)
                           | Some end \<Rightarrow>
                               if end > length out then (Inl BufferTooSmall, out)
                               else (Inr end,
                                     fold (write_mapping insertion) (enumerate 0 mappings)
                                       (slice_write 24 (to_le_bytes (of_nat (length mappings) :: u32))
                                          (slice_write 4 (to_le_bytes MAPPED_VERSION)
                                             (copy_within insertion len (insertion + added) out)))))"

definition write_relocation :: "nat \<times> relocation \<Rightarrow> u8 list \<Rightarrow> u8 list" where
  "write_relocation = (\<lambda>(index, r) out.
     let offset = IMAGE_HEADER_LEN + index * RELOCATION_LEN
     in slice_write (offset + 4) (to_le_bytes (relocation_kind_raw (rel_kind r)))
          (slice_write offset (to_le_bytes (rel_offset r)) out))"

definition encode :: "u32 \<Rightarrow> u8 list \<Rightarrow> relocation list \<Rightarrow> u8 list \<Rightarrow> (image_error + nat) \<times> u8 list" where
  "encode pointer stack relocations out =
     (if stack = [] \<or> length stack > MAX_STACK_BYTES \<or> length stack mod 8 \<noteq> 0
         \<or> length relocations > MAX_RELOCATIONS \<or> unat pointer \<ge> length stack \<or> pointer AND 7 \<noteq> 0
      then (Inl InvalidLength, out)
      else case Option.bind (usize_add IMAGE_HEADER_LEN (length relocations * RELOCATION_LEN))
                  (\<lambda>v. usize_add v (length stack)) of
             None \<Rightarrow> (Inl InvalidLength, out)
           | Some len \<Rightarrow>
               if length out < len then (Inl BufferTooSmall, out)
               else
                 let out = slice_write 0 (replicate len 0) out;
                     out = slice_write 0 MAGIC out;
                     out = slice_write 4 (to_le_bytes VERSION) out;
                     out = slice_write 6 (to_le_bytes (of_nat IMAGE_HEADER_LEN :: u16)) out;
                     out = slice_write 12 (to_le_bytes pointer) out;
                     out = slice_write 16 (to_le_bytes (of_nat (length stack) :: u32)) out;
                     out = slice_write 20 (to_le_bytes (of_nat (length relocations) :: u32)) out;
                     out = fold write_relocation (enumerate 0 relocations) out;
                     out = slice_write (IMAGE_HEADER_LEN + length relocations * RELOCATION_LEN) stack out
                 in case decode (take len out) of Inl e \<Rightarrow> (Inl e, out) | Inr _ \<Rightarrow> (Inr len, out))"

section \<open>The format\<close>

lemmas image_consts = CONTEXT_UPDATE_LEN_def MAX_CONTEXT_UPDATES_def MAPPING_LEN_def MAX_MAPPINGS_def
  IMAGE_HEADER_LEN_def RELOCATION_LEN_def MAX_STACK_BYTES_def MAX_RELOCATIONS_def

lemma subslice_skip: "length a \<le> i \<Longrightarrow> subslice i n (a @ b) = subslice (i - length a) n b"
  by (simp add: subslice_def)

lemma subslice_front: "length a = n \<Longrightarrow> subslice 0 n (a @ b) = a"
  by (simp add: subslice_def)

lemma subslice_all: "length a = n \<Longrightarrow> subslice 0 n a = a"
  by (simp add: subslice_def)

lemmas record_reads = read_u16_def read_u32_def read_u64_def subslice_skip subslice_front subslice_all from_to_le_bytes

definition image_header :: "u16 \<Rightarrow> u32 \<Rightarrow> u32 \<Rightarrow> u32 \<Rightarrow> u32 \<Rightarrow> u32 \<Rightarrow> u8 list" where
  "image_header version pointer stack_len relocation_count mapping_count context_count =
     MAGIC @ to_le_bytes version @ to_le_bytes (of_nat IMAGE_HEADER_LEN :: u16) @ to_le_bytes (0 :: u32) @
     to_le_bytes pointer @ to_le_bytes stack_len @ to_le_bytes relocation_count @ to_le_bytes mapping_count @
     to_le_bytes context_count"

lemma length_MAGIC [simp]: "length MAGIC = 4"
  by (simp add: MAGIC_def)

lemma length_image_header [simp]: "length (image_header v p s r m c) = 32"
  by (simp add: image_header_def)

lemma header_reads:
  "subslice 0 4 (image_header v p s r m c @ rest) = MAGIC"
  "read_u16 (image_header v p s r m c @ rest) 4 = Some v"
  "read_u16 (image_header v p s r m c @ rest) 6 = Some (of_nat IMAGE_HEADER_LEN)"
  "read_u32 (image_header v p s r m c @ rest) 8 = Some 0"
  "read_u32 (image_header v p s r m c @ rest) 12 = Some p"
  "read_u32 (image_header v p s r m c @ rest) 16 = Some s"
  "read_u32 (image_header v p s r m c @ rest) 20 = Some r"
  "read_u32 (image_header v p s r m c @ rest) 24 = Some m"
  "read_u32 (image_header v p s r m c @ rest) 28 = Some c"
  by (simp_all add: image_header_def record_reads)

lemma decode_header:
  "decode (image_header v p s r m c @ rest) =
     (if v = VERSION \<or> v = MAPPED_VERSION \<or> v = CONTEXT_VERSION
      then decode_lengths (image_header v p s r m c @ rest) p (unat s) (unat r) (unat m) (unat c)
      else Inl InvalidHeader)"
  by (simp add: decode_def header_reads IMAGE_HEADER_LEN_def)

lemma drop_subslice: "drop i xs = subslice i n xs @ drop (i + n) xs"
  unfolding subslice_def add.commute [of i n] drop_drop [symmetric] by (rule append_take_drop_id [symmetric])

lemma read_u16_bytes: "read_u16 xs i = Some v \<Longrightarrow> subslice i 2 xs = to_le_bytes v"
  and read_u32_bytes: "read_u32 xs i = Some w \<Longrightarrow> subslice i 4 xs = to_le_bytes w"
  by (auto simp: read_u16_def read_u32_def to_from_le_bytes subslice_def split: if_splits)

lemma header_split:
  assumes "subslice 0 4 input = MAGIC" and "read_u16 input 4 = Some v" and "read_u16 input 6 = Some (of_nat IMAGE_HEADER_LEN)"
    and "read_u32 input 8 = Some 0" and "read_u32 input 12 = Some p" and "read_u32 input 16 = Some s"
    and "read_u32 input 20 = Some r" and "read_u32 input 24 = Some m" and "read_u32 input 28 = Some c"
  shows "input = image_header v p s r m c @ drop 32 input"
proof -
  have "input = drop 0 input" by simp
  also have "\<dots> = subslice 0 4 input @ subslice 4 2 input @ subslice 6 2 input @ subslice 8 4 input @
      subslice 12 4 input @ subslice 16 4 input @ subslice 20 4 input @ subslice 24 4 input @ subslice 28 4 input @
      drop 32 input"
    using drop_subslice [of 0 input 4] drop_subslice [of 4 input 2] drop_subslice [of 6 input 2]
      drop_subslice [of 8 input 4] drop_subslice [of 12 input 4] drop_subslice [of 16 input 4]
      drop_subslice [of 20 input 4] drop_subslice [of 24 input 4] drop_subslice [of 28 input 4] by simp
  also have "\<dots> = image_header v p s r m c @ drop 32 input"
    using assms by (simp add: image_header_def read_u16_bytes read_u32_bytes)
  finally show ?thesis .
qed

definition image_bytes :: "u16 \<Rightarrow> startup_image \<Rightarrow> u8 list" where
  "image_bytes version img =
     image_header version (si_initial_stack_pointer img) (of_nat (length (si_stack img)))
       (of_nat (length (si_relocations img) div RELOCATION_LEN)) (of_nat (length (si_mappings img) div MAPPING_LEN))
       (of_nat (length (si_context img) div CONTEXT_UPDATE_LEN)) @
     si_relocations img @ si_mappings img @ si_context img @ si_stack img"

definition image_shape :: "u16 \<Rightarrow> startup_image \<Rightarrow> bool" where
  "image_shape version img \<longleftrightarrow>
     (version = VERSION \<and> si_mappings img = [] \<and> si_context img = [] \<or>
      version = MAPPED_VERSION \<and> si_context img = [] \<or> version = CONTEXT_VERSION) \<and>
     si_stack img \<noteq> [] \<and> length (si_stack img) \<le> MAX_STACK_BYTES \<and> 8 dvd length (si_stack img) \<and>
     unat (si_initial_stack_pointer img) < length (si_stack img) \<and> si_initial_stack_pointer img AND 7 = 0 \<and>
     (\<exists>n\<le>MAX_RELOCATIONS. length (si_relocations img) = n * RELOCATION_LEN) \<and>
     (\<exists>n\<le>MAX_MAPPINGS. length (si_mappings img) = n * MAPPING_LEN) \<and>
     (\<exists>n\<le>MAX_CONTEXT_UPDATES. length (si_context img) = n * CONTEXT_UPDATE_LEN)"

definition image_check :: "startup_image \<Rightarrow> image_error option" where
  "image_check img =
     (case find_map (check_relocation (si_relocations img) (si_stack img))
             [0..<length (si_relocations img) div RELOCATION_LEN] of
        Some e \<Rightarrow> Some e
      | None \<Rightarrow>
          (case find_map (check_mapping (image_mappings img)) [0..<length (image_mappings img)] of
             Some e \<Rightarrow> Some e
           | None \<Rightarrow> find_map (check_update (si_context img) (context_updates img)) [0..<length (context_updates img)]))"

lemma sections_split:
  assumes "length rs = rn" and "length ms = mn" and "length cs = cn"
  shows "subslice 32 rn (image_header v p s r m c @ rs @ ms @ cs @ st) = rs"
    and "subslice (32 + rn) mn (image_header v p s r m c @ rs @ ms @ cs @ st) = ms"
    and "subslice (32 + rn + mn) cn (image_header v p s r m c @ rs @ ms @ cs @ st) = cs"
    and "drop (32 + rn + mn + cn) (image_header v p s r m c @ rs @ ms @ cs @ st) = st"
  using assms by (simp_all add: subslice_skip subslice_front)

lemma sections_join:
  assumes "drop 32 input = rest" and "length rest = rn + mn + cn + sn"
  shows "rest = subslice 32 rn input @ subslice (32 + rn) mn input @ subslice (32 + rn + mn) cn input @
    drop (32 + rn + mn + cn) input"
  using assms(1) drop_subslice [of 32 input rn] drop_subslice [of "32 + rn" input mn]
    drop_subslice [of "32 + rn + mn" input cn] by simp

lemma decode_sections_check:
  "length rs = rc * RELOCATION_LEN \<Longrightarrow> length ms = mn \<Longrightarrow> length cs = cn \<Longrightarrow>
   decode_sections (image_header v p s r m c @ rs @ ms @ cs @ st) ptr rc (32 + rc * RELOCATION_LEN)
     (32 + rc * RELOCATION_LEN + mn) (32 + rc * RELOCATION_LEN + mn + cn) =
   (let img = \<lparr>si_initial_stack_pointer = ptr, si_stack = st, si_relocations = rs, si_mappings = ms, si_context = cs\<rparr>
    in case image_check img of None \<Rightarrow> Inr img | Some e \<Rightarrow> Inl e)"
  by (simp add: decode_sections_def image_check_def sections_split Let_def IMAGE_HEADER_LEN_def RELOCATION_LEN_def
      split: option.splits)

lemma unat_of_nat_small: "n < 2 ^ 32 \<Longrightarrow> unat (of_nat n :: u32) = n"
  by (simp add: unat_of_nat take_bit_eq_mod)

lemma decode_image_bytes:
  assumes "image_shape version img"
  shows "decode (image_bytes version img) = (case image_check img of None \<Rightarrow> Inr img | Some e \<Rightarrow> Inl e)"
proof -
  from assms obtain rc mc cc where
    len: "length (si_relocations img) = rc * RELOCATION_LEN" "length (si_mappings img) = mc * MAPPING_LEN"
      "length (si_context img) = cc * CONTEXT_UPDATE_LEN" and
    bound: "rc \<le> MAX_RELOCATIONS" "mc \<le> MAX_MAPPINGS" "cc \<le> MAX_CONTEXT_UPDATES"
    unfolding image_shape_def by blast
  have counts: "unat (of_nat (length (si_stack img)) :: u32) = length (si_stack img)"
    "unat (of_nat rc :: u32) = rc" "unat (of_nat mc :: u32) = mc" "unat (of_nat cc :: u32) = cc"
    using assms bound by (simp_all add: unat_of_nat_small image_shape_def image_consts)
  have divs: "rc * RELOCATION_LEN div RELOCATION_LEN = rc" "mc * MAPPING_LEN div MAPPING_LEN = mc"
    "cc * CONTEXT_UPDATE_LEN div CONTEXT_UPDATE_LEN = cc" by (simp_all add: image_consts)
  define bs where "bs = image_bytes version img"
  have bs: "bs = image_header version (si_initial_stack_pointer img) (of_nat (length (si_stack img)))
       (of_nat rc) (of_nat mc) (of_nat cc) @ si_relocations img @ si_mappings img @ si_context img @ si_stack img"
    by (simp add: bs_def image_bytes_def len divs)
  have ver: "version = VERSION \<and> mc = 0 \<and> cc = 0 \<or> version = MAPPED_VERSION \<and> cc = 0 \<or> version = CONTEXT_VERSION"
    using assms len by (auto simp: image_shape_def image_consts)
  have "decode bs = decode_lengths bs (si_initial_stack_pointer img) (length (si_stack img)) rc mc cc"
    unfolding bs decode_header counts using ver by auto
  also have "\<dots> = decode_sections bs (si_initial_stack_pointer img) rc (32 + rc * RELOCATION_LEN)
      (32 + rc * RELOCATION_LEN + mc * MAPPING_LEN) (32 + rc * RELOCATION_LEN + mc * MAPPING_LEN + cc * CONTEXT_UPDATE_LEN)"
  proof -
    have reads: "read_u16 bs 4 = Some version" by (simp add: bs header_reads)
    have "length bs = 32 + rc * RELOCATION_LEN + mc * MAPPING_LEN + cc * CONTEXT_UPDATE_LEN + length (si_stack img)"
      by (simp add: bs len)
    moreover have "length (si_stack img) \<le> 4096" using assms by (simp add: image_shape_def image_consts)
    ultimately show ?thesis
      using assms bound ver unfolding decode_lengths_def reads
      by (auto simp: image_shape_def usize_add_def image_consts VERSION_def MAPPED_VERSION_def CONTEXT_VERSION_def)
  qed
  also have "\<dots> = (case image_check img of None \<Rightarrow> Inr img | Some e \<Rightarrow> Inl e)"
    unfolding bs by (subst decode_sections_check [OF len]) (cases img, auto simp: Let_def split: option.split)
  finally show ?thesis by (simp add: bs_def)
qed

lemma decode_lengths_Inr:
  assumes "decode_lengths input p sl rc mc cc = Inr img" and "read_u16 input 4 = Some v"
  shows "cc \<le> MAX_CONTEXT_UPDATES \<and> (v \<noteq> CONTEXT_VERSION \<longrightarrow> cc = 0) \<and> mc \<le> MAX_MAPPINGS \<and> (v = VERSION \<longrightarrow> mc = 0) \<and>
    sl \<noteq> 0 \<and> sl \<le> MAX_STACK_BYTES \<and> 8 dvd sl \<and> rc \<le> MAX_RELOCATIONS \<and> unat p < sl \<and> p AND 7 = 0 \<and>
    length input = 32 + rc * RELOCATION_LEN + mc * MAPPING_LEN + cc * CONTEXT_UPDATE_LEN + sl \<and>
    decode_sections input p rc (32 + rc * RELOCATION_LEN) (32 + rc * RELOCATION_LEN + mc * MAPPING_LEN)
      (32 + rc * RELOCATION_LEN + mc * MAPPING_LEN + cc * CONTEXT_UPDATE_LEN) = Inr img"
  using assms
  by (auto simp: decode_lengths_def usize_add_def IMAGE_HEADER_LEN_def dvd_eq_mod_eq_0 split: if_splits option.splits)

lemma decode_Inr_lengths:
  assumes "decode input = Inr img"
  obtains v p s r m c where "input = image_header v p s r m c @ drop 32 input"
    "v = VERSION \<or> v = MAPPED_VERSION \<or> v = CONTEXT_VERSION"
    "decode_lengths input p (unat s) (unat r) (unat m) (unat c) = Inr img"
proof -
  from assms obtain v p s r m c where
    "subslice 0 4 input = MAGIC" "read_u16 input 4 = Some v" "read_u16 input 6 = Some (of_nat IMAGE_HEADER_LEN)"
    "read_u32 input 8 = Some 0" "read_u32 input 12 = Some p" "read_u32 input 16 = Some s"
    "read_u32 input 20 = Some r" "read_u32 input 24 = Some m" "read_u32 input 28 = Some c"
    "v = VERSION \<or> v = MAPPED_VERSION \<or> v = CONTEXT_VERSION"
    "decode_lengths input p (unat s) (unat r) (unat m) (unat c) = Inr img"
    by (auto simp: decode_def split: if_splits option.splits)
  then show ?thesis using that header_split by blast
qed

lemma decode_Inr:
  assumes "decode input = Inr img"
  shows "\<exists>version. image_shape version img \<and> input = image_bytes version img \<and> image_check img = None"
proof -
  from decode_Inr_lengths [OF assms] obtain v p s r m c where
    hd: "input = image_header v p s r m c @ drop 32 input" and
    v: "v = VERSION \<or> v = MAPPED_VERSION \<or> v = CONTEXT_VERSION" and
    lens: "decode_lengths input p (unat s) (unat r) (unat m) (unat c) = Inr img" .
  have ver: "read_u16 input 4 = Some v" by (subst hd) (rule header_reads(2))
  note dl = decode_lengths_Inr [OF lens ver]
  define rn where "rn = unat r * RELOCATION_LEN"
  define mn where "mn = unat m * MAPPING_LEN"
  define cn where "cn = unat c * CONTEXT_UPDATE_LEN"
  define rs where "rs = subslice 32 rn input"
  define ms where "ms = subslice (32 + rn) mn input"
  define cs where "cs = subslice (32 + rn + mn) cn input"
  define st where "st = drop (32 + rn + mn + cn) input"
  have len: "length rs = rn" "length ms = mn" "length cs = cn" "length st = unat s"
    using dl by (simp_all add: rs_def ms_def cs_def st_def subslice_def rn_def mn_def cn_def)
  have input: "input = image_header v p s r m c @ rs @ ms @ cs @ st"
    using hd sections_join [OF refl, of input rn mn cn "unat s"] dl
    by (simp add: rs_def ms_def cs_def st_def rn_def mn_def cn_def)
  have "decode_sections input p (unat r) (32 + rn) (32 + rn + mn) (32 + rn + mn + cn) = Inr img"
    using dl by (simp add: rn_def mn_def cn_def)
  then have img: "img = \<lparr>si_initial_stack_pointer = p, si_stack = st, si_relocations = rs, si_mappings = ms, si_context = cs\<rparr>"
    and check: "image_check img = None"
    using decode_sections_check [of rs "unat r" ms mn cs cn v p s r m c st p] len
    unfolding input rn_def by (auto simp: Let_def split: option.splits)
  have "image_shape v img"
    using dl v len unfolding image_shape_def img rn_def mn_def cn_def
    by (auto simp: VERSION_def MAPPED_VERSION_def CONTEXT_VERSION_def)
  moreover have "input = image_bytes v img"
    using input len by (simp add: image_bytes_def img rn_def mn_def cn_def image_consts)
  ultimately show ?thesis using check by blast
qed

section \<open>Writing records\<close>

lemma slice_write_skip: "length pre \<le> i \<Longrightarrow> slice_write i src (pre @ rest) = pre @ slice_write (i - length pre) src rest"
  by (simp add: slice_write_def)

lemma slice_write_front: "slice_write 0 src rest = src @ drop (length src) rest"
  by (simp add: slice_write_def)

lemmas slice_writes = slice_write_skip slice_write_front

lemma header_writes:
  "slice_write 4 (to_le_bytes v') (image_header v p s r m c @ rest) = image_header v' p s r m c @ rest"
  "slice_write 24 (to_le_bytes m') (image_header v p s r m c @ rest) = image_header v p s r m' c @ rest"
  "slice_write 28 (to_le_bytes c') (image_header v p s r m c @ rest) = image_header v p s r m c' @ rest"
  by (simp_all add: image_header_def slice_writes)

definition update_bytes :: "context_update \<Rightarrow> u8 list" where
  "update_bytes u = to_le_bytes (cu_kind u) @ to_le_bytes (0 :: u32) @ to_le_bytes (cu_key u) @ to_le_bytes (cu_value u)"

definition mapping_bytes :: "initial_mapping \<Rightarrow> u8 list" where
  "mapping_bytes m = concat (map to_le_bytes (mapping_words m))"

definition relocation_bytes :: "relocation \<Rightarrow> u8 list" where
  "relocation_bytes r = to_le_bytes (rel_offset r) @ to_le_bytes (relocation_kind_raw (rel_kind r)) @ [0, 0]"

lemma record_lengths [simp]:
  "length (update_bytes u) = 24" "length (mapping_bytes m) = 48" "length (relocation_bytes r) = 8"
  by (simp_all add: update_bytes_def mapping_bytes_def mapping_words_def relocation_bytes_def)

lemma zero_u32_bytes: "to_le_bytes (0 :: u32) = replicate 4 0"
  by (simp add: to_le_bytes_def map_replicate_const)

lemma write_update_at:
  assumes "length pre = insertion + index * CONTEXT_UPDATE_LEN" and "length old = 24"
  shows "write_update insertion (index, u) (pre @ old @ post) = pre @ update_bytes u @ post"
  using assms(2)
  by (simp add: write_update_def Let_def assms(1) [symmetric] slice_writes update_bytes_def zero_u32_bytes)

lemma write_mapping_at:
  assumes "length pre = insertion + index * MAPPING_LEN" and "length old = 48"
  shows "write_mapping insertion (index, m) (pre @ old @ post) = pre @ mapping_bytes m @ post"
  using assms(2)
  by (simp add: write_mapping_def assms(1) [symmetric] slice_writes mapping_bytes_def mapping_words_def)

lemma write_relocation_at:
  assumes "length pre = IMAGE_HEADER_LEN + index * RELOCATION_LEN"
  shows "write_relocation (index, r) (pre @ replicate 8 0 @ post) = pre @ relocation_bytes r @ post"
  by (simp add: write_relocation_def Let_def assms [symmetric] slice_writes relocation_bytes_def numeral_2_eq_2)

text \<open>Writing consecutive records over an area of their total size.\<close>

lemma fold_records:
  assumes one: "\<And>index x pre old post. length pre = base + index * n \<Longrightarrow> length old = n \<Longrightarrow>
      wr (index, x) (pre @ old @ post) = pre @ enc x @ post"
    and len: "\<And>x. length (enc x) = n"
    and pre: "length pre = base + i * n" and old: "length old = length xs * n"
  shows "fold wr (enumerate i xs) (pre @ old @ post) = pre @ concat (map enc xs) @ post"
  using pre old
proof (induction xs arbitrary: i pre old)
  case (Cons x xs)
  have len_old: "length (take n old) = n" "length (drop n old) = length xs * n" using Cons.prems by simp_all
  have "wr (i, x) (pre @ old @ post) = wr (i, x) (pre @ take n old @ (drop n old @ post))"
    by (metis append.assoc append_take_drop_id)
  also have "\<dots> = pre @ enc x @ drop n old @ post" using Cons.prems(1) len_old(1) by (rule one)
  finally have "fold wr (enumerate i (x # xs)) (pre @ old @ post) =
      fold wr (enumerate (Suc i) xs) ((pre @ enc x) @ drop n old @ post)" by simp
  also have "\<dots> = (pre @ enc x) @ concat (map enc xs) @ post"
    using Cons.prems(1) len_old(2) by (intro Cons.IH) (simp_all add: len)
  finally show ?case by simp
qed simp

lemma write_updates:
  "length pre = insertion \<Longrightarrow> length old = length us * CONTEXT_UPDATE_LEN \<Longrightarrow>
   fold (write_update insertion) (enumerate 0 us) (pre @ old @ post) = pre @ concat (map update_bytes us) @ post"
  by (rule fold_records [where n = CONTEXT_UPDATE_LEN and base = insertion])
    (simp_all add: write_update_at CONTEXT_UPDATE_LEN_def)

lemma write_mappings:
  "length pre = insertion \<Longrightarrow> length old = length ms * MAPPING_LEN \<Longrightarrow>
   fold (write_mapping insertion) (enumerate 0 ms) (pre @ old @ post) = pre @ concat (map mapping_bytes ms) @ post"
  by (rule fold_records [where n = MAPPING_LEN and base = insertion])
    (simp_all add: write_mapping_at MAPPING_LEN_def)

lemma write_relocations:
  "length pre = IMAGE_HEADER_LEN + i * RELOCATION_LEN \<Longrightarrow>
   fold write_relocation (enumerate i rs) (pre @ replicate (length rs * 8) 0 @ post) =
     pre @ concat (map relocation_bytes rs) @ post"
proof (induction rs arbitrary: i pre)
  case (Cons r rs)
  have "replicate (length (r # rs) * 8) (0 :: u8) = replicate 8 0 @ replicate (length rs * 8) 0"
    by (simp flip: replicate_add)
  then have "fold write_relocation (enumerate i (r # rs)) (pre @ replicate (length (r # rs) * 8) 0 @ post) =
      fold write_relocation (enumerate (Suc i) rs)
        ((pre @ relocation_bytes r) @ replicate (length rs * 8) 0 @ post)"
    using write_relocation_at [OF Cons.prems, of r "replicate (length rs * 8) 0 @ post"] by simp
  also have "\<dots> = (pre @ relocation_bytes r) @ concat (map relocation_bytes rs) @ post"
    using Cons.prems by (intro Cons.IH) (simp add: RELOCATION_LEN_def)
  finally show ?case by simp
qed simp

subsection \<open>Reading them back\<close>

lemma chunks_exact_concat: "0 < n \<Longrightarrow> \<forall>b\<in>set bs. length b = n \<Longrightarrow> chunks_exact n (concat bs) = bs"
proof (induction bs)
  case Nil
  then show ?case by (subst chunks_exact.simps) simp
next
  case (Cons b bs)
  then show ?case by (subst chunks_exact.simps) simp
qed

lemma context_record_bytes: "context_record (update_bytes u) = u"
  by (simp add: context_record_def update_bytes_def record_reads)

lemma mapping_record_bytes: "mapping_record (mapping_bytes m) = m"
  by (simp add: mapping_record_def mapping_bytes_def mapping_words_def record_reads)

lemma relocation_record_bytes: "relocation_record (relocation_bytes r) = Some r"
proof -
  have "relocation_kind_from_raw (relocation_kind_raw k) = Some k" for k
    by (cases k) (simp_all add: relocation_kind_from_raw_def)
  then show ?thesis by (simp add: relocation_record_def relocation_bytes_def record_reads)
qed

lemma updates_read_back: "map context_record (chunks_exact CONTEXT_UPDATE_LEN (concat (map update_bytes us))) = us"
  by (subst chunks_exact_concat) (auto simp: CONTEXT_UPDATE_LEN_def context_record_bytes comp_def)

lemma mappings_read_back: "map mapping_record (chunks_exact MAPPING_LEN (concat (map mapping_bytes ms))) = ms"
  by (subst chunks_exact_concat) (auto simp: MAPPING_LEN_def mapping_record_bytes comp_def)

lemma relocations_read_back:
  "length pre = offset \<Longrightarrow> relocations_from (pre @ concat (map relocation_bytes rs)) offset = rs"
proof (induction rs arbitrary: pre offset)
  case Nil
  then show ?case by (subst relocations_from.simps) (simp add: RELOCATION_LEN_def)
next
  case (Cons r rs)
  have "relocations_from ((pre @ relocation_bytes r) @ concat (map relocation_bytes rs)) (offset + RELOCATION_LEN) = rs"
    using Cons.prems by (intro Cons.IH) (simp add: RELOCATION_LEN_def)
  then show ?case
    using Cons.prems
    by (subst relocations_from.simps) (simp add: RELOCATION_LEN_def subslice_skip subslice_front relocation_record_bytes)
qed

section \<open>What the builders produce\<close>

definition encoded_image :: "u32 \<Rightarrow> u8 list \<Rightarrow> relocation list \<Rightarrow> startup_image" where
  "encoded_image pointer stack relocations =
     \<lparr>si_initial_stack_pointer = pointer, si_stack = stack,
      si_relocations = concat (map relocation_bytes relocations), si_mappings = [], si_context = []\<rparr>"

lemma length_concat_records [simp]:
  "length (concat (map relocation_bytes rs)) = length rs * 8"
  "length (concat (map mapping_bytes ms)) = length ms * 48"
  "length (concat (map update_bytes us)) = length us * 24"
  using length_concat_blocks [of "map relocation_bytes rs" 8] length_concat_blocks [of "map mapping_bytes ms" 48]
    length_concat_blocks [of "map update_bytes us" 24] by auto

lemma header_from_zeros:
  "slice_write 20 (to_le_bytes r) (slice_write 16 (to_le_bytes s) (slice_write 12 (to_le_bytes p)
     (slice_write 6 (to_le_bytes (of_nat IMAGE_HEADER_LEN :: u16)) (slice_write 4 (to_le_bytes v)
        (slice_write 0 MAGIC (replicate 32 0 @ rest)))))) = image_header v p s r 0 0 @ rest"
proof -
  have "replicate 32 (0 :: u8) = replicate 4 0 @ replicate 2 0 @ replicate 2 0 @ replicate 4 0 @ replicate 4 0 @
      replicate 4 0 @ replicate 4 0 @ replicate 4 0 @ replicate 4 0"
    by (simp flip: replicate_add)
  then show ?thesis
    by (simp add: slice_writes image_header_def zero_u32_bytes)
qed

lemma encode_writes:
  assumes "len = 32 + length rs * 8 + length stack" and "len \<le> length out"
  shows "slice_write (IMAGE_HEADER_LEN + length rs * RELOCATION_LEN) stack
      (fold write_relocation (enumerate 0 rs)
        (slice_write 20 (to_le_bytes (of_nat (length rs) :: u32)) (slice_write 16 (to_le_bytes (of_nat (length stack) :: u32))
          (slice_write 12 (to_le_bytes pointer) (slice_write 6 (to_le_bytes (of_nat IMAGE_HEADER_LEN :: u16))
            (slice_write 4 (to_le_bytes VERSION) (slice_write 0 MAGIC (slice_write 0 (replicate len 0) out)))))))) =
    image_bytes VERSION (encoded_image pointer stack rs) @ drop len out"
proof -
  have zeros: "slice_write 0 (replicate len 0) out =
      replicate 32 0 @ replicate (length rs * 8) 0 @ (replicate (length stack) 0 @ drop len out)"
    by (simp add: slice_write_front assms(1) replicate_add add.assoc)
  show ?thesis
    unfolding zeros header_from_zeros
    by (subst write_relocations)
      (simp_all add: IMAGE_HEADER_LEN_def RELOCATION_LEN_def slice_writes image_bytes_def encoded_image_def assms(1))
qed

lemma encode_Inr:
  assumes "encode pointer stack rs out = (Inr len, out')"
  shows "out' = image_bytes VERSION (encoded_image pointer stack rs) @ drop len out"
    and "len = length (image_bytes VERSION (encoded_image pointer stack rs))"
    and "decode (take len out') = Inr (encoded_image pointer stack rs)"
proof -
  let ?img = "encoded_image pointer stack rs"
  have args: "stack \<noteq> []" "length stack \<le> MAX_STACK_BYTES" "length stack mod 8 = 0"
    "length rs \<le> MAX_RELOCATIONS" "unat pointer < length stack" "pointer AND 7 = 0"
    using assms by (auto simp: encode_def split: if_splits)
  then have len: "len = 32 + length rs * 8 + length stack" and fits: "len \<le> length out"
    using assms by (auto simp: encode_def usize_add_def image_consts Let_def split: if_splits sum.splits)
  have eq: "encode pointer stack rs out =
      (let out' = image_bytes VERSION ?img @ drop len out
       in case decode (take len out') of Inl e \<Rightarrow> (Inl e, out') | Inr _ \<Rightarrow> (Inr len, out'))"
  proof -
    have guard: "\<not> (stack = [] \<or> length stack > MAX_STACK_BYTES \<or> length stack mod 8 \<noteq> 0
        \<or> length rs > MAX_RELOCATIONS \<or> unat pointer \<ge> length stack \<or> pointer AND 7 \<noteq> 0)" using args by auto
    have sum: "Option.bind (usize_add IMAGE_HEADER_LEN (length rs * RELOCATION_LEN)) (\<lambda>v. usize_add v (length stack)) = Some len"
      using args by (simp add: usize_add_def image_consts len)
    have room: "\<not> length out < len" using fits by simp
    show ?thesis
      unfolding encode_def by (simp only: guard sum room if_False option.case Let_def encode_writes [OF len fits])
  qed
  then show out: "out' = image_bytes VERSION ?img @ drop len out"
    using assms by (auto simp: Let_def split: sum.splits)
  show lb: "len = length (image_bytes VERSION ?img)"
    by (simp add: len image_bytes_def encoded_image_def)
  have shape: "image_shape VERSION ?img"
    using args by (auto simp: image_shape_def encoded_image_def image_consts VERSION_def)
  have "\<exists>img. decode (take len out') = Inr img"
    using assms eq unfolding out by (auto simp: Let_def split: sum.splits)
  then show "decode (take len out') = Inr ?img"
    unfolding out using lb decode_image_bytes [OF shape] by (auto split: option.splits)
qed

lemma copy_within_gap:
  assumes "out = A @ B @ C" and "added \<le> length C" and "insertion = length A" and "len = length A + length B"
  shows "\<exists>old. length old = added \<and> copy_within insertion len (insertion + added) out = A @ old @ B @ drop added C"
  using assms
  by (intro exI [of _ "take added (B @ C)"]) (simp add: copy_within_def subslice_def slice_write_def)

lemma chunks_exact_empty: "0 < n \<Longrightarrow> length xs = k * n \<Longrightarrow> chunks_exact n xs = [] \<longleftrightarrow> xs = []"
  by (subst chunks_exact.simps) (cases k; auto)

lemma image_mappings_empty: "image_shape version img \<Longrightarrow> image_mappings img = [] \<longleftrightarrow> si_mappings img = []"
  unfolding image_mappings_def image_shape_def map_is_Nil_conv
  by (elim conjE exE) (rule chunks_exact_empty, simp_all add: MAPPING_LEN_def)

text \<open>What an extension by mappings or by context updates keeps.\<close>

definition with_mappings :: "startup_image \<Rightarrow> initial_mapping list \<Rightarrow> startup_image" where
  "with_mappings img ms = img\<lparr>si_mappings := concat (map mapping_bytes ms)\<rparr>"

definition with_context :: "startup_image \<Rightarrow> context_update list \<Rightarrow> startup_image" where
  "with_context img us = img\<lparr>si_context := concat (map update_bytes us)\<rparr>"

lemma with_mappings_reads: "image_mappings (with_mappings img ms) = ms"
  and with_context_reads: "context_updates (with_context img us) = us"
  by (simp_all add: image_mappings_def context_updates_def with_mappings_def with_context_def
      mappings_read_back updates_read_back)

lemma with_mappings_shape:
  "image_shape v img \<Longrightarrow> si_context img = [] \<Longrightarrow> length ms \<le> MAX_MAPPINGS \<Longrightarrow> image_shape MAPPED_VERSION (with_mappings img ms)"
  by (auto simp: image_shape_def with_mappings_def MAPPING_LEN_def)

lemma with_context_shape:
  "image_shape v img \<Longrightarrow> length us \<le> MAX_CONTEXT_UPDATES \<Longrightarrow> image_shape CONTEXT_VERSION (with_context img us)"
  by (auto simp: image_shape_def with_context_def CONTEXT_UPDATE_LEN_def)

lemma image_check_None:
  "image_check img = None \<longleftrightarrow>
     find_map (check_relocation (si_relocations img) (si_stack img)) [0..<length (si_relocations img) div RELOCATION_LEN] = None \<and>
     find_map (check_mapping (image_mappings img)) [0..<length (image_mappings img)] = None \<and>
     find_map (check_update (si_context img) (context_updates img)) [0..<length (context_updates img)] = None"
  by (auto simp: image_check_def split: option.splits)

lemma with_mappings_check:
  assumes "image_check img = None" and "si_context img = []"
    and "find_map (check_mapping ms) [0..<length ms] = None"
  shows "image_check (with_mappings img ms) = None"
proof -
  have "context_updates (with_mappings img ms) = []"
    using assms(2) by (subst context_updates_def, subst chunks_exact.simps) (simp add: with_mappings_def CONTEXT_UPDATE_LEN_def)
  then show ?thesis
    using assms(1,3) unfolding image_check_None with_mappings_reads by (simp add: with_mappings_def)
qed

lemma update_padding:
  "i < length us \<Longrightarrow> read_u32 (concat (map update_bytes us)) (i * CONTEXT_UPDATE_LEN + 4) = Some 0"
proof -
  assume i: "i < length us"
  have "drop (i * 24 + 4) (concat (map update_bytes us)) =
      drop 4 (map update_bytes us ! i) @ concat (drop (Suc i) (map update_bytes us))"
    using i by (intro concat_block) auto
  also have "drop 4 (map update_bytes us ! i) = to_le_bytes (0 :: u32) @ to_le_bytes (cu_key (us ! i)) @ to_le_bytes (cu_value (us ! i))"
    using i by (simp add: update_bytes_def)
  finally have "subslice (i * 24 + 4) 4 (concat (map update_bytes us)) = to_le_bytes (0 :: u32)"
    by (simp add: subslice_def)
  moreover have "i * 24 + 4 + 4 \<le> length us * 24" using i by simp
  ultimately show ?thesis by (simp add: read_u32_def CONTEXT_UPDATE_LEN_def from_to_le_bytes)
qed

lemma with_context_check:
  assumes "image_check img = None" and "find_map (check_new_update us) [0..<length us] = None"
  shows "image_check (with_context img us) = None"
proof -
  have maps: "image_mappings (with_context img us) = image_mappings img"
    by (simp add: image_mappings_def with_context_def)
  have "check_update (si_context (with_context img us)) us i = check_new_update us i" if "i < length us" for i
    using update_padding [OF that] by (simp add: check_update_def check_new_update_def with_context_def split: option.split)
  then have "find_map (check_update (si_context (with_context img us)) us) [0..<length us] = None"
    using assms(2) by (auto simp: find_map_None_iff)
  then show ?thesis
    using assms(1) unfolding image_check_None with_context_reads maps by (simp add: with_context_def)
qed

lemma decode_extended:
  "image_shape v img \<Longrightarrow> image_check img = None \<Longrightarrow> decode (image_bytes v img) = Inr img"
  by (simp add: decode_image_bytes)

lemma attach_mappings_run:
  assumes "attach_mappings out len ms = (Inr end, out')"
  shows "\<exists>img. decode (take len out) = Inr img \<and> image_mappings img = [] \<and> si_context img = [] \<and>
    length ms \<le> MAX_MAPPINGS \<and> find_map (check_mapping ms) [0..<length ms] = None \<and>
    len \<le> length out \<and> end = len + length ms * MAPPING_LEN \<and> end \<le> length out \<and>
    out' = fold (write_mapping (IMAGE_HEADER_LEN + length (si_relocations img))) (enumerate 0 ms)
       (slice_write 24 (to_le_bytes (of_nat (length ms) :: u32)) (slice_write 4 (to_le_bytes MAPPED_VERSION)
          (copy_within (IMAGE_HEADER_LEN + length (si_relocations img)) len
             (IMAGE_HEADER_LEN + length (si_relocations img) + length ms * MAPPING_LEN) out)))"
proof -
  have len: "\<not> len > length out" using assms by (auto simp: attach_mappings_def)
  obtain img where dec: "decode (take len out) = Inr img"
    using assms len by (cases "decode (take len out)") (auto simp: attach_mappings_def)
  have guard: "\<not> (image_mappings img \<noteq> [] \<or> si_context img \<noteq> [] \<or> length ms > MAX_MAPPINGS)"
    using assms len dec by (intro notI) (simp add: attach_mappings_def)
  have checks: "find_map (check_mapping ms) [0..<length ms] = None"
    using assms len dec guard by (cases "find_map (check_mapping ms) [0..<length ms]") (simp_all add: attach_mappings_def)
  note run = assms [unfolded attach_mappings_def if_not_P [OF len] dec sum.case if_not_P [OF guard] checks option.case Let_def]
  have add: "usize_add len (length ms * MAPPING_LEN) = Some (len + length ms * MAPPING_LEN)"
    using run by (cases "usize_add len (length ms * MAPPING_LEN)") (auto simp: usize_add_def split: if_splits)
  note run = run [unfolded add option.case]
  have fits: "\<not> len + length ms * MAPPING_LEN > length out" using run by auto
  note run = run [unfolded if_not_P [OF fits]]
  show ?thesis using dec guard checks len fits run by (intro exI [of _ img]) simp
qed

lemma gap_after:
  assumes "take len out = A @ B" and "len + added \<le> length out" and "insertion = length A"
  obtains old where "length old = added" and "copy_within insertion len (insertion + added) out = A @ old @ B @ drop (len + added) out"
proof -
  have "len \<le> length out" using assms(2) by simp
  then have len: "len = length A + length B" using arg_cong [OF assms(1), of length] by simp
  have out: "out = A @ B @ drop len out" using assms(1) by (metis append.assoc append_take_drop_id)
  have "added \<le> length (drop len out)" using assms(2) by simp
  from copy_within_gap [OF out this assms(3) len] that show ?thesis by (auto simp: add.commute)
qed

lemma attach_mappings_Inr:
  assumes "attach_mappings out len ms = (Inr end, out')"
  shows "\<exists>img. decode (take len out) = Inr img \<and> decode (take end out') = Inr (with_mappings img ms) \<and>
    drop end out' = drop end out \<and> end \<le> length out"
proof -
  obtain img where dec: "decode (take len out) = Inr img"
    and empty: "image_mappings img = []" "si_context img = []" and count: "length ms \<le> MAX_MAPPINGS"
    and checks: "find_map (check_mapping ms) [0..<length ms] = None"
    and len: "len \<le> length out" and fit: "end = len + length ms * MAPPING_LEN" "end \<le> length out"
    and out': "out' = fold (write_mapping (IMAGE_HEADER_LEN + length (si_relocations img))) (enumerate 0 ms)
       (slice_write 24 (to_le_bytes (of_nat (length ms) :: u32)) (slice_write 4 (to_le_bytes MAPPED_VERSION)
          (copy_within (IMAGE_HEADER_LEN + length (si_relocations img)) len
             (IMAGE_HEADER_LEN + length (si_relocations img) + length ms * MAPPING_LEN) out)))"
    using attach_mappings_run [OF assms] by (elim exE conjE) (rule that)
  from decode_Inr [OF dec] obtain v where shape: "image_shape v img" and bytes: "take len out = image_bytes v img"
    and ok: "image_check img = None" by blast
  have maps: "si_mappings img = []" using empty(1) image_mappings_empty [OF shape] by simp
  define H where "H = (\<lambda>v m. image_header v (si_initial_stack_pointer img) (of_nat (length (si_stack img)))
     (of_nat (length (si_relocations img) div RELOCATION_LEN)) m 0)"
  have parts: "take len out = (H v 0 @ si_relocations img) @ si_stack img"
    using bytes maps empty(2) by (simp add: image_bytes_def H_def)
  obtain old where old: "length old = length ms * MAPPING_LEN" and gap:
    "copy_within (IMAGE_HEADER_LEN + length (si_relocations img)) len
       (IMAGE_HEADER_LEN + length (si_relocations img) + length ms * MAPPING_LEN) out =
     (H v 0 @ si_relocations img) @ old @ si_stack img @ drop (len + length ms * MAPPING_LEN) out"
    using gap_after [OF parts, of "length ms * MAPPING_LEN" "IMAGE_HEADER_LEN + length (si_relocations img)"] fit
    by (auto simp: H_def IMAGE_HEADER_LEN_def)
  let ?new = "image_bytes MAPPED_VERSION (with_mappings img ms)"
  have new: "?new = (H MAPPED_VERSION (of_nat (length ms)) @ si_relocations img) @ concat (map mapping_bytes ms) @ si_stack img"
    using empty(2) by (simp add: image_bytes_def with_mappings_def H_def MAPPING_LEN_def)
  have "out' = fold (write_mapping (IMAGE_HEADER_LEN + length (si_relocations img))) (enumerate 0 ms)
      ((H MAPPED_VERSION (of_nat (length ms)) @ si_relocations img) @ old @ (si_stack img @ drop end out))"
    unfolding out' gap fit(1) by (simp add: H_def header_writes)
  also have "\<dots> = (H MAPPED_VERSION (of_nat (length ms)) @ si_relocations img) @ concat (map mapping_bytes ms) @
      si_stack img @ drop end out"
    using old by (intro write_mappings) (simp_all add: H_def IMAGE_HEADER_LEN_def)
  finally have final: "out' = ?new @ drop end out" unfolding new by simp
  have endlen: "end = length ?new"
    using arg_cong [OF parts, of length] len by (simp add: new H_def fit(1) MAPPING_LEN_def)
  have "decode (take end out') = Inr (with_mappings img ms)"
    using decode_extended [OF with_mappings_shape [OF shape empty(2) count] with_mappings_check [OF ok empty(2) checks]]
    by (simp add: final endlen)
  then show ?thesis using dec final endlen fit(2) by (intro exI [of _ img]) simp
qed

lemma attach_context_run:
  assumes "attach_context out len us = (Inr end, out')"
  shows "\<exists>img. decode (take len out) = Inr img \<and> si_context img = [] \<and> length us \<le> MAX_CONTEXT_UPDATES \<and>
    find_map (check_new_update us) [0..<length us] = None \<and>
    len \<le> length out \<and> end = len + length us * CONTEXT_UPDATE_LEN \<and> end \<le> length out \<and>
    out' = fold (write_update (len - length (si_stack img))) (enumerate 0 us)
       (slice_write 28 (to_le_bytes (of_nat (length us) :: u32)) (slice_write 4 (to_le_bytes CONTEXT_VERSION)
          (copy_within (len - length (si_stack img)) len
             (len - length (si_stack img) + length us * CONTEXT_UPDATE_LEN) out)))"
proof -
  have len: "\<not> len > length out" using assms by (auto simp: attach_context_def)
  obtain img where dec: "decode (take len out) = Inr img"
    using assms len by (cases "decode (take len out)") (auto simp: attach_context_def)
  have guard: "\<not> (si_context img \<noteq> [] \<or> length us > MAX_CONTEXT_UPDATES)"
    using assms len dec by (intro notI) (simp add: attach_context_def)
  have checks: "find_map (check_new_update us) [0..<length us] = None"
    using assms len dec guard by (cases "find_map (check_new_update us) [0..<length us]") (simp_all add: attach_context_def)
  note run = assms [unfolded attach_context_def if_not_P [OF len] dec sum.case if_not_P [OF guard] checks option.case Let_def]
  have add: "usize_add len (length us * CONTEXT_UPDATE_LEN) = Some (len + length us * CONTEXT_UPDATE_LEN)"
    using run by (cases "usize_add len (length us * CONTEXT_UPDATE_LEN)") (auto simp: usize_add_def split: if_splits)
  note run = run [unfolded add option.case]
  have fits: "\<not> len + length us * CONTEXT_UPDATE_LEN > length out" using run by auto
  note run = run [unfolded if_not_P [OF fits]]
  show ?thesis using dec guard checks len fits run by (intro exI [of _ img]) simp
qed

lemma attach_context_Inr:
  assumes "attach_context out len us = (Inr end, out')"
  shows "\<exists>img. decode (take len out) = Inr img \<and> decode (take end out') = Inr (with_context img us) \<and>
    drop end out' = drop end out \<and> end \<le> length out"
proof -
  obtain img where dec: "decode (take len out) = Inr img"
    and empty: "si_context img = []" and count: "length us \<le> MAX_CONTEXT_UPDATES"
    and checks: "find_map (check_new_update us) [0..<length us] = None"
    and len: "len \<le> length out" and fit: "end = len + length us * CONTEXT_UPDATE_LEN" "end \<le> length out"
    and out': "out' = fold (write_update (len - length (si_stack img))) (enumerate 0 us)
       (slice_write 28 (to_le_bytes (of_nat (length us) :: u32)) (slice_write 4 (to_le_bytes CONTEXT_VERSION)
          (copy_within (len - length (si_stack img)) len
             (len - length (si_stack img) + length us * CONTEXT_UPDATE_LEN) out)))"
    using attach_context_run [OF assms] by (elim exE conjE) (rule that)
  from decode_Inr [OF dec] obtain v where shape: "image_shape v img" and bytes: "take len out = image_bytes v img"
    and ok: "image_check img = None" by blast
  define H where "H = (\<lambda>v c. image_header v (si_initial_stack_pointer img) (of_nat (length (si_stack img)))
     (of_nat (length (si_relocations img) div RELOCATION_LEN)) (of_nat (length (si_mappings img) div MAPPING_LEN)) c)"
  let ?body = "si_relocations img @ si_mappings img"
  have parts: "take len out = (H v 0 @ ?body) @ si_stack img"
    using bytes empty by (simp add: image_bytes_def H_def)
  have ins: "len - length (si_stack img) = length (H v 0 @ ?body)"
    using arg_cong [OF parts, of length] len by simp
  obtain old where old: "length old = length us * CONTEXT_UPDATE_LEN" and gap:
    "copy_within (len - length (si_stack img)) len (len - length (si_stack img) + length us * CONTEXT_UPDATE_LEN) out =
     (H v 0 @ ?body) @ old @ si_stack img @ drop (len + length us * CONTEXT_UPDATE_LEN) out"
    using gap_after [OF parts, of "length us * CONTEXT_UPDATE_LEN" "len - length (si_stack img)"] fit ins by auto
  let ?new = "image_bytes CONTEXT_VERSION (with_context img us)"
  have new: "?new = (H CONTEXT_VERSION (of_nat (length us)) @ ?body) @ concat (map update_bytes us) @ si_stack img"
    by (simp add: image_bytes_def with_context_def H_def CONTEXT_UPDATE_LEN_def)
  have "out' = fold (write_update (len - length (si_stack img))) (enumerate 0 us)
      ((H CONTEXT_VERSION (of_nat (length us)) @ ?body) @ old @ (si_stack img @ drop end out))"
    unfolding out' gap fit(1) by (simp add: H_def header_writes)
  also have "\<dots> = (H CONTEXT_VERSION (of_nat (length us)) @ ?body) @ concat (map update_bytes us) @
      si_stack img @ drop end out"
    using old ins by (intro write_updates) (simp_all add: H_def)
  finally have final: "out' = ?new @ drop end out" unfolding new by simp
  have endlen: "end = length ?new"
    using arg_cong [OF parts, of length] len by (simp add: new H_def fit(1) CONTEXT_UPDATE_LEN_def)
  have "decode (take end out') = Inr (with_context img us)"
    using decode_extended [OF with_context_shape [OF shape count] with_context_check [OF ok checks]]
    by (simp add: final endlen)
  then show ?thesis using dec final endlen fit(2) by (intro exI [of _ img]) simp
qed

lemma attach_mappings_Inl: "attach_mappings out len ms = (Inl e, out') \<Longrightarrow> out' = out"
  and attach_context_Inl: "attach_context out len us = (Inl e', out'') \<Longrightarrow> out'' = out"
  by (auto simp: attach_mappings_def attach_context_def Let_def split: if_splits sum.splits option.splits)

section \<open>What a decoded image guarantees\<close>

definition relocation_ok :: "u8 list \<Rightarrow> relocation \<Rightarrow> bool" where
  "relocation_ok stack r \<longleftrightarrow> 8 dvd unat (rel_offset r) \<and> unat (rel_offset r) + 8 \<le> length stack \<and>
     (rel_kind r = StackAddress \<longrightarrow>
        unat (from_le_bytes (subslice (unat (rel_offset r)) 8 stack) :: u64) < length stack)"

definition mapping_ok :: "initial_mapping \<Rightarrow> bool" where
  "mapping_ok m \<longleftrightarrow> 0 < unat (im_address m) \<and> 4096 dvd unat (im_address m) \<and> 0 < unat (im_length m) \<and>
     4096 dvd unat (im_length m) \<and> unat (im_address m) + unat (im_length m) \<le> 2 ^ 47 \<and>
     \<not> (bit (im_access m) 1 \<and> bit (im_access m) 2)"

definition mapping_range :: "initial_mapping \<Rightarrow> nat set" where
  "mapping_range m = {unat (im_address m) ..< unat (im_address m) + unat (im_length m)}"

lemma eight_mask: "(x :: u32) AND 7 = 0 \<longleftrightarrow> 8 dvd unat x"
proof -
  have "(7 :: u32) = mask 3" by (simp add: mask_eq_exp_minus_1)
  then show ?thesis using and_mask_dvd_nat [of 3 x] by simp
qed

lemma check_relocation_None:
  assumes "check_relocation rs stack i = None"
  shows "\<exists>r. relocation_at rs i = Some r \<and> relocation_ok stack r \<and>
    (\<forall>j<i. \<forall>r'. relocation_at rs j = Some r' \<longrightarrow> rel_offset r' \<noteq> rel_offset r)"
proof -
  obtain r where r: "relocation_at rs i = Some r" using assms by (cases "relocation_at rs i") (auto simp: check_relocation_def)
  let ?low = "rel_offset r AND 7 \<noteq> 0 \<or> unat (rel_offset r) + 8 > length stack"
    and ?wild = "rel_kind r = StackAddress \<and>
      (case read_u64 stack (unat (rel_offset r)) of None \<Rightarrow> True | Some target \<Rightarrow> unat target \<ge> length stack)"
    and ?dup = "list_ex (\<lambda>previous. case relocation_at rs previous of
      None \<Rightarrow> False | Some item \<Rightarrow> rel_offset item = rel_offset r) [0..<i]"
  have "(if ?low then Some InvalidRelocation else if ?wild then Some InvalidRelocation
      else if ?dup then Some DuplicateRelocation else None) = None"
    using assms unfolding check_relocation_def r option.case Let_def .
  then have bounds: "\<not> ?low" and target: "\<not> ?wild" and dup: "\<not> ?dup"
    by (metis option.distinct(1))+
  have "relocation_ok stack r"
    using bounds target by (auto simp: relocation_ok_def read_u64_def eight_mask)
  moreover have "rel_offset r' \<noteq> rel_offset r" if "j < i" "relocation_at rs j = Some r'" for j r'
    using dup that by (force simp: list_ex_iff)
  ultimately show ?thesis using r by blast
qed

lemma relocations_from_at:
  assumes "\<forall>i. offset div RELOCATION_LEN \<le> i \<and> i < n \<longrightarrow> relocation_at bs i = Some (f i)"
    and "length bs = n * RELOCATION_LEN" and "8 dvd offset"
  shows "relocations_from bs offset = map f [offset div RELOCATION_LEN..<n]"
  using assms
proof (induction "length bs - offset" arbitrary: offset rule: less_induct)
  case less
  show ?case
  proof (cases "offset + RELOCATION_LEN \<le> length bs")
    case False
    then have "n \<le> offset div RELOCATION_LEN" using less.prems(2,3) by (auto simp: RELOCATION_LEN_def)
    then show ?thesis using False by (subst relocations_from.simps) simp
  next
    case True
    let ?i = "offset div RELOCATION_LEN"
    have i: "?i < n" "?i * RELOCATION_LEN = offset" "(offset + RELOCATION_LEN) div RELOCATION_LEN = Suc ?i"
      using True less.prems(2,3) by (auto simp: RELOCATION_LEN_def)
    then have "relocation_record (subslice offset RELOCATION_LEN bs) = Some (f ?i)"
      using less.prems(1) True by (force simp: relocation_at_def Let_def)
    moreover have "relocations_from bs (offset + RELOCATION_LEN) = map f [Suc ?i..<n]"
      using less.hyps [of "offset + RELOCATION_LEN"] less.prems True i by (simp add: RELOCATION_LEN_def)
    ultimately show ?thesis using True i by (subst relocations_from.simps) (simp add: upt_conv_Cons)
  qed
qed

lemma checked_relocations:
  assumes "image_shape v img" and "image_check img = None"
  shows "(\<forall>r\<in>set (image_relocations img). relocation_ok (si_stack img) r) \<and> distinct (map rel_offset (image_relocations img)) \<and>
    length (image_relocations img) = length (si_relocations img) div RELOCATION_LEN"
proof -
  from assms(1) obtain n where n: "length (si_relocations img) = n * RELOCATION_LEN" by (auto simp: image_shape_def)
  then have div: "length (si_relocations img) div RELOCATION_LEN = n" by (simp add: RELOCATION_LEN_def)
  have none: "check_relocation (si_relocations img) (si_stack img) i = None" if "i < n" for i
    using assms(2) that unfolding image_check_None find_map_None_iff div by simp
  define f where "f = (\<lambda>i. the (relocation_at (si_relocations img) i))"
  have f: "relocation_at (si_relocations img) i = Some (f i)" "relocation_ok (si_stack img) (f i)"
    "\<forall>j<i. rel_offset (f j) \<noteq> rel_offset (f i)" if "i < n" for i
    using check_relocation_None [OF none [OF that]] check_relocation_None [OF none] that
    unfolding f_def by (metis less_trans option.sel)+
  have "image_relocations img = map f [0..<n]"
    unfolding image_relocations_def using relocations_from_at [of 0 n "si_relocations img" f] f(1) n by simp
  moreover have "inj_on (\<lambda>i. rel_offset (f i)) {0..<n}"
    by (rule inj_onI) (metis f(3) atLeastLessThan_iff linorder_neqE_nat)
  ultimately show ?thesis using f(2) div by (auto simp: distinct_map comp_def)
qed

lemma mapping_validate_None: "mapping_validate m = None \<Longrightarrow> mapping_ok m"
proof -
  assume v: "mapping_validate m = None"
  have "\<not> (bit (im_access m) 1 \<and> bit (im_access m) 2)"
  proof
    assume b: "bit (im_access m) 1 \<and> bit (im_access m) 2"
    have six: "MEMORY_ACCESS_WRITE OR MEMORY_ACCESS_EXECUTE = 6"
      by (simp add: MEMORY_ACCESS_WRITE_def MEMORY_ACCESS_EXECUTE_def)
    have "im_access m AND 6 = 6"
    proof (rule bit_word_eqI)
      fix n assume "n < LENGTH(64)"
      have "bit (6 :: u64) n \<longleftrightarrow> n = 1 \<or> n = 2" by (simp add: bit_numeral_rec bit_1_iff split: nat.split) auto
      then show "bit (im_access m AND 6) n = bit (6 :: u64) n" using b by (auto simp: bit_and_iff)
    qed
    then show False using v six by (simp add: mapping_validate_def split: if_splits)
  qed
  moreover have "unat (push_bit 47 1 :: u64) = 2 ^ 47" by simp
  ultimately show ?thesis
    using v by (auto simp: mapping_validate_def mapping_ok_def page_offset_zero_iff checked_add_def unat_gt_0
        word_less_nat_alt not_less unat_add_checked split: if_splits)
qed

lemma mappings_overlap_iff:
  assumes "mapping_ok a" and "mapping_ok b"
  shows "mappings_overlap a b \<longleftrightarrow> mapping_range a \<inter> mapping_range b \<noteq> {}"
proof -
  have small: "unat (im_address m) + unat (im_length m) < 2 ^ 64" if "mapping_ok m" for m
    using that by (simp add: mapping_ok_def)
  have "mappings_overlap a b \<longleftrightarrow> unat (im_address a) < unat (im_address b) + unat (im_length b) \<and>
      unat (im_address b) < unat (im_address a) + unat (im_length a)"
    using small [OF assms(1)] small [OF assms(2)] by (simp add: mappings_overlap_def word_less_nat_alt unat_add_checked)
  also have "\<dots> \<longleftrightarrow> max (unat (im_address a)) (unat (im_address b)) \<in> mapping_range a \<inter> mapping_range b"
    using assms by (auto simp: mapping_range_def mapping_ok_def)
  also have "\<dots> \<longleftrightarrow> mapping_range a \<inter> mapping_range b \<noteq> {}"
    by (auto simp: mapping_range_def)
  finally show ?thesis .
qed

lemma check_mapping_None:
  "check_mapping ms i = None \<longleftrightarrow> mapping_validate (ms ! i) = None \<and> \<not> list_ex (mappings_overlap (ms ! i)) (take i ms)"
  by (auto simp: check_mapping_def split: option.splits)

lemma check_update_None:
  "check_update cs us i = None \<Longrightarrow> update_validate (us ! i) = None \<and> \<not> list_ex (same_context_key (us ! i)) (take i us)"
  by (auto simp: check_update_def split: option.splits if_splits)

lemma checked_mappings:
  assumes "find_map (check_mapping ms) [0..<length ms] = None"
  shows "(\<forall>m\<in>set ms. mapping_ok m) \<and>
    (\<forall>i j. i < j \<and> j < length ms \<longrightarrow> mapping_range (ms ! i) \<inter> mapping_range (ms ! j) = {})"
proof -
  have none: "check_mapping ms i = None" if "i < length ms" for i using assms that by (simp add: find_map_None_iff)
  then have ok: "mapping_ok (ms ! i)" and apart: "\<not> list_ex (mappings_overlap (ms ! i)) (take i ms)" if "i < length ms" for i
    using none [OF that] unfolding check_mapping_None by (auto intro: mapping_validate_None)
  have "mapping_range (ms ! i) \<inter> mapping_range (ms ! j) = {}" if "i < j" "j < length ms" for i j
  proof -
    have "ms ! i \<in> set (take j ms)" using that by (auto simp: in_set_conv_nth intro!: exI [of _ i])
    then have "\<not> mappings_overlap (ms ! j) (ms ! i)" using apart [OF that(2)] by (auto simp: list_ex_iff)
    then show ?thesis using mappings_overlap_iff [OF ok ok, of j i] that by auto
  qed
  then show ?thesis using ok by (auto simp: in_set_conv_nth)
qed

lemma checked_updates:
  assumes "find_map (check_update cs us) [0..<length us] = None"
  shows "(\<forall>u\<in>set us. update_validate u = None) \<and> distinct (map (\<lambda>u. (update_is_handle u, cu_key u)) us)"
proof -
  have none: "check_update cs us i = None" if "i < length us" for i using assms that by (simp add: find_map_None_iff)
  then have ok: "update_validate (us ! i) = None" and fresh: "\<not> list_ex (same_context_key (us ! i)) (take i us)"
    if "i < length us" for i
    using check_update_None [OF none [OF that]] by auto
  have "(update_is_handle (us ! i), cu_key (us ! i)) \<noteq> (update_is_handle (us ! j), cu_key (us ! j))"
    if "i < j" "j < length us" for i j
  proof -
    have "us ! i \<in> set (take j us)" using that by (auto simp: in_set_conv_nth intro!: exI [of _ i])
    then show ?thesis using fresh [OF that(2)] by (auto simp: list_ex_iff same_context_key_def)
  qed
  then have "distinct (map (\<lambda>u. (update_is_handle u, cu_key u)) us)"
    by (auto simp: distinct_conv_nth) (metis linorder_neqE_nat)+
  then show ?thesis using ok by (auto simp: in_set_conv_nth)
qed

section \<open>When the builders succeed\<close>

lemma encode_succeeds:
  assumes "image_shape VERSION (encoded_image pointer stack rs)" and "image_check (encoded_image pointer stack rs) = None"
    and "32 + length rs * 8 + length stack \<le> length out"
  shows "\<exists>len out'. encode pointer stack rs out = (Inr len, out')"
proof -
  let ?img = "encoded_image pointer stack rs"
  let ?len = "32 + length rs * 8 + length stack"
  have args: "stack \<noteq> []" "length stack \<le> MAX_STACK_BYTES" "length stack mod 8 = 0" "length rs \<le> MAX_RELOCATIONS"
    "unat pointer < length stack" "pointer AND 7 = 0"
    using assms(1) by (auto simp: image_shape_def encoded_image_def RELOCATION_LEN_def)
  have guard: "\<not> (stack = [] \<or> length stack > MAX_STACK_BYTES \<or> length stack mod 8 \<noteq> 0
      \<or> length rs > MAX_RELOCATIONS \<or> unat pointer \<ge> length stack \<or> pointer AND 7 \<noteq> 0)" using args by auto
  have sum: "Option.bind (usize_add IMAGE_HEADER_LEN (length rs * RELOCATION_LEN)) (\<lambda>v. usize_add v (length stack)) = Some ?len"
    using args by (simp add: usize_add_def image_consts)
  have room: "\<not> length out < ?len" using assms(3) by simp
  have "decode (take ?len (image_bytes VERSION ?img @ drop ?len out)) = Inr ?img"
    using decode_extended [OF assms(1,2)] by (simp add: image_bytes_def encoded_image_def)
  then show ?thesis
    unfolding encode_def
    by (simp only: guard sum room if_False option.case Let_def encode_writes [OF refl assms(3)] sum.case) blast
qed

lemma attach_mappings_succeeds:
  assumes "decode (take len out) = Inr img" and "image_mappings img = []" and "si_context img = []"
    and "length ms \<le> MAX_MAPPINGS" and "find_map (check_mapping ms) [0..<length ms] = None"
    and "len + length ms * MAPPING_LEN \<le> length out" and "length out < 2 ^ 64"
  shows "\<exists>end out'. attach_mappings out len ms = (Inr end, out')"
  using assms by (simp add: attach_mappings_def usize_add_def Let_def)

lemma attach_context_succeeds:
  assumes "decode (take len out) = Inr img" and "si_context img = []"
    and "length us \<le> MAX_CONTEXT_UPDATES" and "find_map (check_new_update us) [0..<length us] = None"
    and "len + length us * CONTEXT_UPDATE_LEN \<le> length out" and "length out < 2 ^ 64"
  shows "\<exists>end out'. attach_context out len us = (Inr end, out')"
  using assms by (simp add: attach_context_def usize_add_def Let_def)

lemma length_encode: "encode pointer stack rs out = (Inr len, out') \<Longrightarrow> length out' = length out \<and> len = 32 + length rs * 8 + length stack"
proof -
  assume run: "encode pointer stack rs out = (Inr len, out')"
  have "len = 32 + length rs * 8 + length stack" using encode_Inr(2) [OF run] by (simp add: image_bytes_def encoded_image_def)
  moreover from this have "len \<le> length out"
    using run by (auto simp: encode_def usize_add_def image_consts Let_def split: if_splits sum.splits)
  ultimately show ?thesis using encode_Inr(1,2) [OF run] by simp
qed

section \<open>Properties\<close>

definition demo_relocation :: relocation where
  "demo_relocation = \<lparr>rel_offset = 8, rel_kind = ElfEntry\<rparr>"

definition demo_mapping :: initial_mapping where
  "demo_mapping = \<lparr>im_address = 0x10000, im_length = 0x2000, im_access = 3, im_options = 0, im_backing_handle = 0,
     im_backing_offset = 0\<rparr>"

definition demo_update :: context_update where
  "demo_update = \<lparr>cu_kind = SET_VALUE, cu_key = 7, cu_value = 9\<rparr>"

abbreviation demo_image :: startup_image where
  "demo_image \<equiv> encoded_image 8 (replicate 16 0) [demo_relocation]"

lemma demo_image_shape: "image_shape VERSION demo_image"
  by (auto simp: image_shape_def encoded_image_def image_consts dvd_def)

lemma no_records: "chunks_exact 48 [] = []" "chunks_exact 24 [] = []"
  by (simp_all add: chunks_exact.simps)

lemma demo_image_check: "image_check demo_image = None"
proof -
  have at: "relocation_at (relocation_bytes demo_relocation) 0 = Some demo_relocation"
    by (simp add: relocation_at_def RELOCATION_LEN_def subslice_all relocation_record_bytes)
  have "check_relocation (relocation_bytes demo_relocation) (replicate 16 0) 0 = None"
    unfolding check_relocation_def at by (simp add: demo_relocation_def)
  then show ?thesis
    unfolding image_check_None
    by (simp add: encoded_image_def image_mappings_def context_updates_def image_consts no_records)
qed

text \<open>C14: a process image that decodes is safe to apply. Every relocation patches an aligned word inside the
  stack, no word twice, and a relocated stack address points into the stack; every mapping is a non-empty
  page-aligned range of the lower half, never both writable and executable, and no two mappings overlap;
  the launch-context updates are valid and no key is updated twice.\<close>

theorem decoded_image_safe:
  assumes "decode bytes = Inr img"
  shows "unat (si_initial_stack_pointer img) < length (si_stack img) \<and>
    (\<forall>r\<in>set (image_relocations img). relocation_ok (si_stack img) r) \<and>
    distinct (map rel_offset (image_relocations img)) \<and>
    (\<forall>m\<in>set (image_mappings img). mapping_ok m) \<and>
    (\<forall>i j. i < j \<and> j < length (image_mappings img) \<longrightarrow>
       mapping_range (image_mappings img ! i) \<inter> mapping_range (image_mappings img ! j) = {}) \<and>
    (\<forall>u\<in>set (context_updates img). update_validate u = None) \<and>
    distinct (map (\<lambda>u. (update_is_handle u, cu_key u)) (context_updates img))"
proof -
  from decode_Inr [OF assms] obtain v where shape: "image_shape v img" and ok: "image_check img = None" by blast
  then show ?thesis
    using checked_relocations [OF shape ok] checked_mappings checked_updates
    unfolding image_check_None by (auto simp: image_shape_def)
qed

theorem decoded_image_safe_witness:
  "relocation_ok (replicate 16 0) demo_relocation \<and> distinct (map rel_offset [demo_relocation])"
proof -
  have "decode (image_bytes VERSION demo_image) = Inr demo_image"
    by (rule decode_extended [OF demo_image_shape demo_image_check])
  moreover have "image_relocations demo_image = [demo_relocation]"
    using relocations_read_back [of "[]" 0 "[demo_relocation]"] by (simp add: image_relocations_def encoded_image_def)
  ultimately show ?thesis using decoded_image_safe [of "image_bytes VERSION demo_image" demo_image]
    by (simp add: encoded_image_def)
qed

text \<open>C16: building and reading an image are inverse. An image that is encoded, extended by mappings and then
  by context updates decodes to exactly the stack pointer, stack bytes, relocations, mappings and updates it
  was built from.\<close>

theorem image_roundtrip:
  assumes "encode pointer stack rs out0 = (Inr n1, out1)" and "attach_mappings out1 n1 ms = (Inr n2, out2)"
    and "attach_context out2 n2 us = (Inr n3, out3)"
  shows "\<exists>img. decode (take n3 out3) = Inr img \<and> si_initial_stack_pointer img = pointer \<and> si_stack img = stack \<and>
    image_relocations img = rs \<and> image_mappings img = ms \<and> context_updates img = us"
proof -
  have d1: "decode (take n1 out1) = Inr (encoded_image pointer stack rs)" by (rule encode_Inr(3) [OF assms(1)])
  have d2: "decode (take n2 out2) = Inr (with_mappings (encoded_image pointer stack rs) ms)"
    using attach_mappings_Inr [OF assms(2)] d1 by auto
  let ?img = "with_context (with_mappings (encoded_image pointer stack rs) ms) us"
  have "decode (take n3 out3) = Inr ?img" using attach_context_Inr [OF assms(3)] d2 by auto
  moreover have "image_mappings ?img = ms"
    using with_mappings_reads [of "encoded_image pointer stack rs" ms] by (simp add: with_context_def image_mappings_def)
  moreover have "image_relocations ?img = rs"
    using relocations_read_back [of "[]" 0 rs]
    by (simp add: image_relocations_def with_context_def with_mappings_def encoded_image_def)
  ultimately show ?thesis
    by (intro exI [of _ ?img]) (simp add: with_context_reads, simp add: with_context_def with_mappings_def encoded_image_def)
qed

theorem image_roundtrip_witness:
  "\<exists>n out img. decode (take n out) = Inr img \<and> si_initial_stack_pointer img = 8 \<and> si_stack img = replicate 16 0 \<and>
    image_relocations img = [demo_relocation] \<and> image_mappings img = [demo_mapping] \<and> context_updates img = [demo_update]"
proof -
  obtain n1 out1 where e: "encode 8 (replicate 16 0) [demo_relocation] (replicate 200 0) = (Inr n1, out1)"
    using encode_succeeds [OF demo_image_shape demo_image_check, of "replicate 200 0"] by auto
  note d1 = encode_Inr(3) [OF e]
  have len: "length out1 = 200" "n1 = 56" using length_encode [OF e] by simp_all
  have maps: "find_map (check_mapping [demo_mapping]) [0..<length [demo_mapping]] = None"
    by (simp add: check_mapping_def mapping_validate_def demo_mapping_def checked_add_def MEMORY_ACCESS_WRITE_def
        MEMORY_ACCESS_EXECUTE_def MEMORY_ACCESS_ALL_def MEMORY_MAP_SHARED_def)
  obtain n2 out2 where m: "attach_mappings out1 n1 [demo_mapping] = (Inr n2, out2)"
    using attach_mappings_succeeds [OF d1 _ _ _ maps] len
    by (auto simp: encoded_image_def image_mappings_def no_records image_consts)
  from attach_mappings_Inr [OF m] d1 have d2: "decode (take n2 out2) = Inr (with_mappings demo_image [demo_mapping])"
    and end2: "drop n2 out2 = drop n2 out1" "n2 \<le> length out1" by auto
  have n2: "n2 = 104" using attach_mappings_run [OF m] len by (auto simp: image_consts)
  have "length out2 - n2 = length out1 - n2" by (metis end2(1) length_drop)
  then have "length out2 = 200" using n2 len by simp
  moreover have ups: "find_map (check_new_update [demo_update]) [0..<length [demo_update]] = None"
    by (simp add: check_new_update_def update_validate_def demo_update_def SET_VALUE_def SET_HANDLE_def)
  ultimately obtain n3 out3 where c: "attach_context out2 n2 [demo_update] = (Inr n3, out3)"
    using attach_context_succeeds [OF d2 _ _ ups] n2 by (auto simp: with_mappings_def encoded_image_def image_consts)
  from image_roundtrip [OF e m c] show ?thesis by blast
qed

text \<open>C38: a failed extension leaves the image intact: whatever error \<open>attach_mappings\<close> or
  \<open>attach_context\<close> reports, not one byte of the buffer has changed.\<close>

theorem failed_attach_intact:
  "(\<forall>e out'. attach_mappings out len ms = (Inl e, out') \<longrightarrow> out' = out) \<and>
   (\<forall>e out'. attach_context out len us = (Inl e, out') \<longrightarrow> out' = out)"
  using attach_mappings_Inl attach_context_Inl by blast

theorem failed_attach_intact_witness:
  "attach_context [0, 1] 1 [demo_update] = (Inl BufferTooSmall, [0, 1])"
proof -
  have "fst (attach_context [0, 1] 1 [demo_update]) = Inl BufferTooSmall"
    by (simp add: attach_context_def decode_def IMAGE_HEADER_LEN_def)
  then show ?thesis using failed_attach_intact [of "[0, 1]" 1 "[]" "[demo_update]"] by (metis prod.collapse)
qed

end
