(* ===== verification/Launch_Context.thy ===== *)
theory Launch_Context
  imports Handle_Table Process_Image
begin

text \<open>
  The launch context of a process, \<^verbatim>\<open>src/task/launch_context.rs\<close>: two small sorted vectors that
  map opaque keys to object handles and to values, and \<open>patched\<close>, which prepares the context of
  the next process image off to the side. The capacity of a vector is part of its state: storage that
  was reserved is there when an entry is inserted, whatever the allocator answers then. Composed with
  the decoder of process images, the commit of a decoded image's updates never needs memory.
\<close>

definition PROCESS_MAX_INHERITED_HANDLES :: nat where "PROCESS_MAX_INHERITED_HANDLES = 256"
definition PROCESS_MAX_INHERITED_VALUES :: nat where "PROCESS_MAX_INHERITED_VALUES = 256"

record 'a entries =
  en_items :: "(u64 \<times> 'a) list"
  en_capacity :: nat

definition entries_new :: "'a entries" where
  "entries_new = \<lparr>en_items = [], en_capacity = 0\<rparr>"

definition entries_len :: "'a entries \<Rightarrow> nat" where
  "entries_len e = length (en_items e)"

definition entries_index :: "u64 \<Rightarrow> 'a entries \<Rightarrow> nat + nat" where
  "entries_index key e = binary_search_by_key fst key (en_items e)"

definition entries_get :: "u64 \<Rightarrow> 'a entries \<Rightarrow> 'a option" where
  "entries_get key e = (case entries_index key e of Inr i \<Rightarrow> Some (snd (en_items e ! i)) | Inl _ \<Rightarrow> None)"

definition entries_contains_key :: "u64 \<Rightarrow> 'a entries \<Rightarrow> bool" where
  "entries_contains_key key e \<longleftrightarrow> (case entries_index key e of Inr _ \<Rightarrow> True | Inl _ \<Rightarrow> False)"

text \<open>\<open>try_reserve(1)\<close> asks the allocator (\<open>grow\<close>) only when the capacity is used up.\<close>

definition entries_insert :: "bool \<Rightarrow> u64 \<Rightarrow> 'a \<Rightarrow> 'a entries \<Rightarrow> bool \<times> 'a entries" where
  "entries_insert grow key v e =
     (case entries_index key e of
        Inr i \<Rightarrow> (True, e\<lparr>en_items := (en_items e)[i := (fst (en_items e ! i), v)]\<rparr>)
      | Inl i \<Rightarrow>
          if \<not> (entries_len e < en_capacity e \<or> grow) then (False, e)
          else (True, e\<lparr>en_items := vec_insert i (key, v) (en_items e),
                        en_capacity := max (en_capacity e) (entries_len e + 1)\<rparr>))"

definition entries_remove :: "u64 \<Rightarrow> 'a entries \<Rightarrow> 'a option \<times> 'a entries" where
  "entries_remove key e =
     (case entries_index key e of
        Inr i \<Rightarrow> (Some (snd (en_items e ! i)), e\<lparr>en_items := vec_remove i (en_items e)\<rparr>)
      | Inl _ \<Rightarrow> (None, e))"

definition entries_retain :: "(u64 \<Rightarrow> 'a \<Rightarrow> bool) \<Rightarrow> 'a entries \<Rightarrow> 'a entries" where
  "entries_retain keep e = e\<lparr>en_items := filter (\<lambda>(key, v). keep key v) (en_items e)\<rparr>"

definition entries_values :: "'a entries \<Rightarrow> 'a list" where
  "entries_values e = map snd (en_items e)"

definition entries_try_copy :: "bool \<Rightarrow> nat \<Rightarrow> 'a entries \<Rightarrow> status_error + 'a entries" where
  "entries_try_copy mem capacity e =
     (if max capacity (entries_len e) \<noteq> 0 \<and> \<not> mem then Inl ResourceUnavailable
      else Inr \<lparr>en_items = en_items e, en_capacity = max capacity (entries_len e)\<rparr>)"

section \<open>The launch context\<close>

record launch_context =
  lc_handles :: "object_handle entries"
  lc_values :: "u64 entries"

definition lc_new :: launch_context where
  "lc_new = \<lparr>lc_handles = entries_new, lc_values = entries_new\<rparr>"

definition lc_get :: "u64 \<Rightarrow> launch_context \<Rightarrow> object_handle option" where
  "lc_get key c = entries_get key (lc_handles c)"

definition lc_install :: "bool \<Rightarrow> u64 \<Rightarrow> object_handle \<Rightarrow> launch_context \<Rightarrow> (status_error + unit) \<times> launch_context" where
  "lc_install grow key h c =
     (if entries_contains_key key (lc_handles c) then (Inl AlreadyExists, c)
      else if entries_len (lc_handles c) \<ge> PROCESS_MAX_INHERITED_HANDLES then (Inl ResourceUnavailable, c)
      else case entries_insert grow key h (lc_handles c) of
             (True, e) \<Rightarrow> (Inr (), c\<lparr>lc_handles := e\<rparr>)
           | (False, e) \<Rightarrow> (Inl ResourceUnavailable, c\<lparr>lc_handles := e\<rparr>))"

definition lc_set :: "bool \<Rightarrow> u64 \<Rightarrow> object_handle \<Rightarrow> launch_context \<Rightarrow> bool \<times> launch_context" where
  "lc_set grow key h c =
     (if entries_len (lc_handles c) \<ge> PROCESS_MAX_INHERITED_HANDLES \<and> \<not> entries_contains_key key (lc_handles c)
      then (False, c)
      else map_prod id (\<lambda>e. c\<lparr>lc_handles := e\<rparr>) (entries_insert grow key h (lc_handles c)))"

definition lc_take :: "u64 \<Rightarrow> launch_context \<Rightarrow> object_handle option \<times> launch_context" where
  "lc_take key c = map_prod id (\<lambda>e. c\<lparr>lc_handles := e\<rparr>) (entries_remove key (lc_handles c))"

definition lc_remove_handle :: "object_handle \<Rightarrow> launch_context \<Rightarrow> launch_context" where
  "lc_remove_handle h c = c\<lparr>lc_handles := entries_retain (\<lambda>_ inherited. inherited \<noteq> h) (lc_handles c)\<rparr>"

definition lc_references_handle :: "object_handle \<Rightarrow> launch_context \<Rightarrow> bool" where
  "lc_references_handle h c \<longleftrightarrow> list_ex (\<lambda>inherited. inherited = h) (entries_values (lc_handles c))"

definition lc_value :: "u64 \<Rightarrow> launch_context \<Rightarrow> u64 option" where
  "lc_value key c = entries_get key (lc_values c)"

definition lc_install_value :: "bool \<Rightarrow> u64 \<Rightarrow> u64 \<Rightarrow> launch_context \<Rightarrow> (status_error + unit) \<times> launch_context" where
  "lc_install_value grow key v c =
     (if entries_contains_key key (lc_values c) then (Inl AlreadyExists, c)
      else if entries_len (lc_values c) \<ge> PROCESS_MAX_INHERITED_VALUES then (Inl ResourceUnavailable, c)
      else case entries_insert grow key v (lc_values c) of
             (True, e) \<Rightarrow> (Inr (), c\<lparr>lc_values := e\<rparr>)
           | (False, e) \<Rightarrow> (Inl ResourceUnavailable, c\<lparr>lc_values := e\<rparr>))"

definition lc_set_value :: "bool \<Rightarrow> u64 \<Rightarrow> u64 \<Rightarrow> launch_context \<Rightarrow> bool \<times> launch_context" where
  "lc_set_value grow key v c =
     (if entries_len (lc_values c) \<ge> PROCESS_MAX_INHERITED_VALUES \<and> \<not> entries_contains_key key (lc_values c)
      then (False, c)
      else map_prod id (\<lambda>e. c\<lparr>lc_values := e\<rparr>) (entries_insert grow key v (lc_values c)))"

definition lc_remove_value :: "u64 \<Rightarrow> launch_context \<Rightarrow> u64 option \<times> launch_context" where
  "lc_remove_value key c = map_prod id (\<lambda>e. c\<lparr>lc_values := e\<rparr>) (entries_remove key (lc_values c))"

subsection \<open>Preparing the next context\<close>

text \<open>\<open>u32::try_from(value).ok().and_then(ObjectHandle::from_raw)\<close>.\<close>

definition handle_from_u64 :: "u64 \<Rightarrow> object_handle option" where
  "handle_from_u64 v = (if unat v < 2 ^ 32 then object_handle_from_raw (ucast v) else None)"

text \<open>The counting loop, over the updates that are left.\<close>

fun patch_counts ::
  "(object_handle \<Rightarrow> bool) \<Rightarrow> launch_context \<Rightarrow> context_update list \<Rightarrow> nat \<times> nat \<Rightarrow> status_error + nat \<times> nat" where
  "patch_counts valid_handle c [] counts = Inr counts"
| "patch_counts valid_handle c (u # us) (handles, values) =
     (if cu_kind u = SET_HANDLE then
        case handle_from_u64 (cu_value u) of
          None \<Rightarrow> Inl InvalidArgument
        | Some h \<Rightarrow>
            if \<not> valid_handle h then Inl InvalidArgument
            else patch_counts valid_handle c us
                   (handles + of_bool (\<not> entries_contains_key (cu_key u) (lc_handles c)), values)
      else if cu_kind u = REMOVE_HANDLE then
        if handles < of_bool (entries_contains_key (cu_key u) (lc_handles c)) then Inl InvalidArgument
        else patch_counts valid_handle c us (handles - of_bool (entries_contains_key (cu_key u) (lc_handles c)), values)
      else if cu_kind u = SET_VALUE then
        patch_counts valid_handle c us
          (handles, values + of_bool (\<not> entries_contains_key (cu_key u) (lc_values c)))
      else if cu_kind u = REMOVE_VALUE then
        if values < of_bool (entries_contains_key (cu_key u) (lc_values c)) then Inl InvalidArgument
        else patch_counts valid_handle c us (handles, values - of_bool (entries_contains_key (cu_key u) (lc_values c)))
      else Inl InvalidArgument)"

definition patch_remove :: "context_update \<Rightarrow> launch_context \<Rightarrow> launch_context" where
  "patch_remove u prepared =
     (if cu_kind u = REMOVE_HANDLE then snd (lc_take (cu_key u) prepared)
      else if cu_kind u = REMOVE_VALUE then snd (lc_remove_value (cu_key u) prepared)
      else prepared)"

fun patch_install :: "(context_update \<Rightarrow> bool) \<Rightarrow> context_update list \<Rightarrow> launch_context \<Rightarrow> status_error + launch_context" where
  "patch_install grow [] prepared = Inr prepared"
| "patch_install grow (u # us) prepared =
     (if cu_kind u = SET_HANDLE then
        case object_handle_from_raw (ucast (cu_value u)) of
          None \<Rightarrow> Inl InvalidArgument
        | Some h \<Rightarrow>
            (case lc_set (grow u) (cu_key u) h prepared of
               (False, _) \<Rightarrow> Inl ResourceUnavailable
             | (True, prepared) \<Rightarrow> patch_install grow us prepared)
      else if cu_kind u = SET_VALUE then
        case lc_set_value (grow u) (cu_key u) (cu_value u) prepared of
          (False, _) \<Rightarrow> Inl ResourceUnavailable
        | (True, prepared) \<Rightarrow> patch_install grow us prepared
      else patch_install grow us prepared)"

definition lc_patched ::
  "bool \<Rightarrow> bool \<Rightarrow> (context_update \<Rightarrow> bool) \<Rightarrow> context_update list \<Rightarrow> (object_handle \<Rightarrow> bool) \<Rightarrow> launch_context
     \<Rightarrow> status_error + launch_context" where
  "lc_patched mem_handles mem_values grow updates valid_handle c =
     (case patch_counts valid_handle c updates (entries_len (lc_handles c), entries_len (lc_values c)) of
        Inl e \<Rightarrow> Inl e
      | Inr (handles, values) \<Rightarrow>
          if handles > PROCESS_MAX_INHERITED_HANDLES \<or> values > PROCESS_MAX_INHERITED_VALUES
          then Inl ResourceUnavailable
          else case entries_try_copy mem_handles handles (lc_handles c) of
                 Inl e \<Rightarrow> Inl e
               | Inr hs \<Rightarrow>
                   (case entries_try_copy mem_values values (lc_values c) of
                      Inl e \<Rightarrow> Inl e
                    | Inr vs \<Rightarrow>
                        patch_install grow updates
                          (fold patch_remove updates \<lparr>lc_handles = hs, lc_values = vs\<rparr>)))"

section \<open>Entries as a map\<close>

definition entries_map :: "'a entries \<Rightarrow> u64 \<rightharpoonup> 'a" where
  "entries_map e = map_of (en_items e)"

definition entries_ok :: "'a entries \<Rightarrow> bool" where
  "entries_ok e \<longleftrightarrow> keys_sorted (en_items e) \<and> length (en_items e) \<le> en_capacity e"

lemma entries_new_ok: "entries_ok entries_new"
  by (simp add: entries_ok_def entries_new_def)

lemma entries_get_map: "entries_ok e \<Longrightarrow> entries_get key e = entries_map e key"
  unfolding entries_get_def entries_index_def entries_map_def by (rule search_lookup) (simp add: entries_ok_def)

lemma entries_contains_map: "entries_ok e \<Longrightarrow> entries_contains_key key e \<longleftrightarrow> key \<in> dom (entries_map e)"
  using entries_get_map [of e key]
  by (cases "entries_index key e") (auto simp: entries_contains_key_def entries_get_def intro!: domI [OF sym])

lemma entries_len_card: "entries_ok e \<Longrightarrow> entries_len e = card (dom (entries_map e))"
  by (simp add: entries_len_def entries_map_def card_dom_sorted entries_ok_def)

lemma update_pair_map:
  assumes "keys_sorted xs" and "i < length xs"
  shows "keys_sorted (xs[i := (fst (xs ! i), v)])" and "map_of (xs[i := (fst (xs ! i), v)]) = (map_of xs)(fst (xs ! i) \<mapsto> v)"
proof -
  have keys: "map fst (xs[i := (fst (xs ! i), v)]) = map fst xs"
    using assms(2) by (metis fst_conv list_update_id map_update nth_map)
  then show s: "keys_sorted (xs[i := (fst (xs ! i), v)])" using assms(1) by (simp add: keys_sorted_def)
  show "map_of (xs[i := (fst (xs ! i), v)]) = (map_of xs)(fst (xs ! i) \<mapsto> v)"
  proof
    fix q
    show "map_of (xs[i := (fst (xs ! i), v)]) q = ((map_of xs)(fst (xs ! i) \<mapsto> v)) q"
    proof (cases "q = fst (xs ! i)")
      case True
      have "(q, v) \<in> set (xs[i := (fst (xs ! i), v)])" using assms(2) True by (simp add: set_update_memI)
      then show ?thesis using True map_of_in_set [OF s, of q v] by simp
    next
      case False
      have "(q, w) \<in> set (xs[i := (fst (xs ! i), v)]) \<longleftrightarrow> (q, w) \<in> set xs" for w
        using False assms(2) by (auto simp: in_set_conv_nth nth_list_update) (metis fst_conv)
      then have "map_of (xs[i := (fst (xs ! i), v)]) q = Some w \<longleftrightarrow> map_of xs q = Some w" for w
        using map_of_in_set [OF s] map_of_in_set [OF assms(1)] by simp
      then show ?thesis using False by (metis fun_upd_apply not_Some_eq)
    qed
  qed
qed

lemma entries_insert_spec:
  assumes "entries_ok e" and "entries_insert grow key v e = (ok, e')"
  shows "entries_ok e' \<and> en_capacity e \<le> en_capacity e' \<and>
    (ok \<longleftrightarrow> key \<in> dom (entries_map e) \<or> entries_len e < en_capacity e \<or> grow) \<and>
    entries_map e' = (if ok then (entries_map e)(key \<mapsto> v) else entries_map e)"
proof (cases "entries_index key e")
  case (Inr i)
  note found = search_found [OF _ Inr [unfolded entries_index_def]]
  have s: "keys_sorted (en_items e)" using assms(1) by (simp add: entries_ok_def)
  have "ok" "e' = e\<lparr>en_items := (en_items e)[i := (fst (en_items e ! i), v)]\<rparr>"
    using assms(2) Inr by (simp_all add: entries_insert_def)
  then show ?thesis
    using update_pair_map [OF s found(1) [OF s], of v] found(2,3) [OF s] assms(1)
    by (auto simp: entries_ok_def entries_map_def)
next
  case (Inl i)
  have s: "keys_sorted (en_items e)" using assms(1) by (simp add: entries_ok_def)
  note ins = sorted_insert [OF s Inl [unfolded entries_index_def], of v]
  have "key \<notin> dom (entries_map e)" using search_missing(1) [OF s Inl [unfolded entries_index_def]] by (simp add: entries_map_def domIff)
  then show ?thesis
    using assms Inl ins by (auto simp: entries_insert_def entries_ok_def entries_map_def entries_len_def split: if_splits)
qed

lemma entries_remove_spec:
  assumes "entries_ok e" and "entries_remove key e = (r, e')"
  shows "entries_ok e' \<and> en_capacity e' = en_capacity e \<and> r = entries_map e key \<and>
    entries_map e' = (entries_map e)(key := None)"
proof (cases "entries_index key e")
  case (Inr i)
  have s: "keys_sorted (en_items e)" using assms(1) by (simp add: entries_ok_def)
  note found = search_found [OF s Inr [unfolded entries_index_def]]
  note rem = sorted_remove [OF s Inr [unfolded entries_index_def]]
  show ?thesis using assms Inr found rem by (auto simp: entries_remove_def entries_ok_def entries_map_def)
next
  case (Inl i)
  have s: "keys_sorted (en_items e)" using assms(1) by (simp add: entries_ok_def)
  show ?thesis
    using assms Inl search_missing(1) [OF s Inl [unfolded entries_index_def]]
    by (auto simp: entries_remove_def entries_map_def)
qed

lemma entries_retain_ok: "entries_ok e \<Longrightarrow> entries_ok (entries_retain keep e)"
proof -
  assume ok: "entries_ok e"
  have "sorted_wrt (\<lambda>x y. fst x < fst y) (filter (\<lambda>(key, v). keep key v) (en_items e))"
    using ok by (intro sorted_wrt_filter) (simp add: entries_ok_def keys_sorted_def sorted_wrt_map)
  moreover have "length (filter (\<lambda>(key, v). keep key v) (en_items e)) \<le> en_capacity e"
    using ok by (intro le_trans [OF length_filter_le]) (simp add: entries_ok_def)
  ultimately show ?thesis unfolding entries_ok_def entries_retain_def keys_sorted_def sorted_wrt_map by simp
qed

section \<open>The prepared context\<close>

definition context_ok :: "launch_context \<Rightarrow> bool" where
  "context_ok c \<longleftrightarrow> entries_ok (lc_handles c) \<and> entries_ok (lc_values c)"

abbreviation handle_map :: "launch_context \<Rightarrow> u64 \<rightharpoonup> object_handle" where
  "handle_map c \<equiv> entries_map (lc_handles c)"

abbreviation value_map :: "launch_context \<Rightarrow> u64 \<rightharpoonup> u64" where
  "value_map c \<equiv> entries_map (lc_values c)"

abbreviation keys_of :: "u32 \<Rightarrow> context_update list \<Rightarrow> u64 set" where
  "keys_of kind us \<equiv> cu_key ` {u \<in> set us. cu_kind u = kind}"

lemmas update_kinds = SET_HANDLE_def REMOVE_HANDLE_def SET_VALUE_def REMOVE_VALUE_def

lemma kinds_distinct:
  "SET_HANDLE \<noteq> REMOVE_HANDLE" "SET_HANDLE \<noteq> SET_VALUE" "SET_HANDLE \<noteq> REMOVE_VALUE"
  "REMOVE_HANDLE \<noteq> SET_VALUE" "REMOVE_HANDLE \<noteq> REMOVE_VALUE" "SET_VALUE \<noteq> REMOVE_VALUE"
  "REMOVE_HANDLE \<noteq> SET_HANDLE" "SET_VALUE \<noteq> SET_HANDLE" "REMOVE_VALUE \<noteq> SET_HANDLE"
  "SET_VALUE \<noteq> REMOVE_HANDLE" "REMOVE_VALUE \<noteq> REMOVE_HANDLE" "REMOVE_VALUE \<noteq> SET_VALUE"
  by (simp_all add: update_kinds)

lemma finite_map_dom [simp]: "finite (dom (entries_map e))"
  by (simp add: entries_map_def finite_dom_map_of)

lemma keys_of_Cons: "keys_of k (u # us) = (if cu_kind u = k then insert (cu_key u) (keys_of k us) else keys_of k us)"
  by auto

lemma restrict_without: "(if P then m(k := None) else m) |` (- K) = m |` (- (if P then insert k K else K))"
  by (rule ext) (simp add: restrict_map_def)

lemma fold_patch_remove:
  assumes "context_ok c"
  shows "context_ok (fold patch_remove us c) \<and>
    en_capacity (lc_handles (fold patch_remove us c)) = en_capacity (lc_handles c) \<and>
    en_capacity (lc_values (fold patch_remove us c)) = en_capacity (lc_values c) \<and>
    handle_map (fold patch_remove us c) = handle_map c |` (- keys_of REMOVE_HANDLE us) \<and>
    value_map (fold patch_remove us c) = value_map c |` (- keys_of REMOVE_VALUE us)"
  using assms
proof (induction us arbitrary: c)
  case Nil
  then show ?case by simp
next
  case (Cons u us)
  obtain h hs where h: "entries_remove (cu_key u) (lc_handles c) = (h, hs)" by fastforce
  obtain v vs where v: "entries_remove (cu_key u) (lc_values c) = (v, vs)" by fastforce
  have ok: "entries_ok (lc_handles c)" "entries_ok (lc_values c)" using Cons.prems by (simp_all add: context_ok_def)
  have step: "context_ok (patch_remove u c)"
      "en_capacity (lc_handles (patch_remove u c)) = en_capacity (lc_handles c)"
      "en_capacity (lc_values (patch_remove u c)) = en_capacity (lc_values c)"
      "handle_map (patch_remove u c) = (if cu_kind u = REMOVE_HANDLE then (handle_map c)(cu_key u := None) else handle_map c)"
      "value_map (patch_remove u c) = (if cu_kind u = REMOVE_VALUE then (value_map c)(cu_key u := None) else value_map c)"
    using entries_remove_spec [OF ok(1) h] entries_remove_spec [OF ok(2) v] ok
    by (simp_all add: patch_remove_def lc_take_def lc_remove_value_def h v context_ok_def update_kinds)
  show ?case
    using Cons.IH [OF step(1)] unfolding step(2-5) keys_of_Cons fold_simps restrict_without .
qed

text \<open>Room for all keys that are still to be set makes every insertion succeed, without the allocator.\<close>

definition room_for :: "nat \<Rightarrow> 'a entries \<Rightarrow> u64 set \<Rightarrow> bool" where
  "room_for limit e keys \<longleftrightarrow>
     card (dom (entries_map e) \<union> keys) \<le> en_capacity e \<and> card (dom (entries_map e) \<union> keys) \<le> limit"

lemma room_insert:
  assumes "entries_ok e" and "room_for limit e (insert key keys)" and "finite keys"
  obtains e' where "entries_insert grow key v e = (True, e')" and "entries_ok e'"
    and "entries_map e' = (entries_map e)(key \<mapsto> v)" and "room_for limit e' keys"
    and "\<not> (entries_len e \<ge> limit \<and> \<not> entries_contains_key key e)"
proof -
  obtain ok e' where run: "entries_insert grow key v e = (ok, e')" by fastforce
  note spec = entries_insert_spec [OF assms(1) run]
  have small: "entries_len e < card (dom (entries_map e) \<union> insert key keys)" if "key \<notin> dom (entries_map e)"
    unfolding entries_len_card [OF assms(1)] using that assms(3) by (intro psubset_card_mono) auto
  then have ok: "ok" using spec assms(2) unfolding room_for_def by (metis less_le_trans)
  have "dom (entries_map e') \<union> keys = dom (entries_map e) \<union> insert key keys" using spec ok by auto
  then have "room_for limit e' keys" using spec assms(2) unfolding room_for_def by auto
  moreover have "\<not> (entries_len e \<ge> limit \<and> \<not> entries_contains_key key e)"
    using small assms(2) unfolding room_for_def entries_contains_map [OF assms(1)] by (metis not_less less_le_trans)
  ultimately show ?thesis using that [of e'] run spec ok by simp
qed

lemma lc_set_room:
  assumes "context_ok c" and "room_for PROCESS_MAX_INHERITED_HANDLES (lc_handles c) (insert key keys)" and "finite keys"
  shows "\<exists>e. lc_set grow key h c = (True, c\<lparr>lc_handles := e\<rparr>) \<and> context_ok (c\<lparr>lc_handles := e\<rparr>) \<and>
    entries_map e = (handle_map c)(key \<mapsto> h) \<and> room_for PROCESS_MAX_INHERITED_HANDLES e keys"
proof -
  have ok: "entries_ok (lc_handles c)" "entries_ok (lc_values c)" using assms(1) by (simp_all add: context_ok_def)
  from room_insert [OF ok(1) assms(2,3)] obtain e where e: "entries_insert grow key h (lc_handles c) = (True, e)"
    "entries_ok e" "entries_map e = (handle_map c)(key \<mapsto> h)" "room_for PROCESS_MAX_INHERITED_HANDLES e keys"
    "\<not> (entries_len (lc_handles c) \<ge> PROCESS_MAX_INHERITED_HANDLES \<and> \<not> entries_contains_key key (lc_handles c))" .
  have "lc_set grow key h c = (True, c\<lparr>lc_handles := e\<rparr>)" unfolding lc_set_def if_not_P [OF e(5)] e(1) by simp
  then show ?thesis using e ok by (intro exI [of _ e]) (simp add: context_ok_def)
qed

lemma lc_set_value_room:
  assumes "context_ok c" and "room_for PROCESS_MAX_INHERITED_VALUES (lc_values c) (insert key keys)" and "finite keys"
  shows "\<exists>e. lc_set_value grow key v c = (True, c\<lparr>lc_values := e\<rparr>) \<and> context_ok (c\<lparr>lc_values := e\<rparr>) \<and>
    entries_map e = (value_map c)(key \<mapsto> v) \<and> room_for PROCESS_MAX_INHERITED_VALUES e keys"
proof -
  have ok: "entries_ok (lc_handles c)" "entries_ok (lc_values c)" using assms(1) by (simp_all add: context_ok_def)
  from room_insert [OF ok(2) assms(2,3)] obtain e where e: "entries_insert grow key v (lc_values c) = (True, e)"
    "entries_ok e" "entries_map e = (value_map c)(key \<mapsto> v)" "room_for PROCESS_MAX_INHERITED_VALUES e keys"
    "\<not> (entries_len (lc_values c) \<ge> PROCESS_MAX_INHERITED_VALUES \<and> \<not> entries_contains_key key (lc_values c))" .
  have "lc_set_value grow key v c = (True, c\<lparr>lc_values := e\<rparr>)" unfolding lc_set_value_def if_not_P [OF e(5)] e(1) by simp
  then show ?thesis using e ok by (intro exI [of _ e]) (simp add: context_ok_def)
qed

definition set_handle :: "context_update \<Rightarrow> (u64 \<rightharpoonup> object_handle) \<Rightarrow> u64 \<rightharpoonup> object_handle" where
  "set_handle u m = (if cu_kind u = SET_HANDLE then m(cu_key u \<mapsto> ucast (cu_value u)) else m)"

definition set_value :: "context_update \<Rightarrow> (u64 \<rightharpoonup> u64) \<Rightarrow> u64 \<rightharpoonup> u64" where
  "set_value u m = (if cu_kind u = SET_VALUE then m(cu_key u \<mapsto> cu_value u) else m)"

lemma patch_install_room:
  assumes "context_ok c" and "\<forall>u\<in>set us. cu_kind u = SET_HANDLE \<longrightarrow> ucast (cu_value u) \<noteq> (0 :: u32)"
    and "room_for PROCESS_MAX_INHERITED_HANDLES (lc_handles c) (keys_of SET_HANDLE us)"
    and "room_for PROCESS_MAX_INHERITED_VALUES (lc_values c) (keys_of SET_VALUE us)"
  shows "\<exists>c'. patch_install grow us c = Inr c' \<and> context_ok c' \<and>
    handle_map c' = fold set_handle us (handle_map c) \<and> value_map c' = fold set_value us (value_map c)"
  using assms
proof (induction us arbitrary: c)
  case Nil
  then show ?case by simp
next
  case (Cons u us)
  have fin: "finite (keys_of k us)" for k by simp
  have nz: "\<forall>u\<in>set us. cu_kind u = SET_HANDLE \<longrightarrow> ucast (cu_value u) \<noteq> (0 :: u32)" using Cons.prems(2) by simp
  have hs: "room_for PROCESS_MAX_INHERITED_HANDLES (lc_handles c)
      (if cu_kind u = SET_HANDLE then insert (cu_key u) (keys_of SET_HANDLE us) else keys_of SET_HANDLE us)"
    and vs: "room_for PROCESS_MAX_INHERITED_VALUES (lc_values c)
      (if cu_kind u = SET_VALUE then insert (cu_key u) (keys_of SET_VALUE us) else keys_of SET_VALUE us)"
    using Cons.prems(3,4) unfolding keys_of_Cons .
  consider (handle) "cu_kind u = SET_HANDLE" "cu_kind u \<noteq> SET_VALUE" | (val) "cu_kind u = SET_VALUE" "cu_kind u \<noteq> SET_HANDLE"
    | (other) "cu_kind u \<noteq> SET_HANDLE" "cu_kind u \<noteq> SET_VALUE"
    by (cases "cu_kind u = SET_HANDLE") (auto simp: update_kinds)
  then show ?case
  proof cases
    case handle
    from lc_set_room [OF Cons.prems(1) hs [unfolded if_P [OF handle(1)]] fin, of "grow u" "ucast (cu_value u)"]
    obtain e where e: "lc_set (grow u) (cu_key u) (ucast (cu_value u)) c = (True, c\<lparr>lc_handles := e\<rparr>)"
      "context_ok (c\<lparr>lc_handles := e\<rparr>)" "entries_map e = (handle_map c)(cu_key u \<mapsto> ucast (cu_value u))"
      "room_for PROCESS_MAX_INHERITED_HANDLES e (keys_of SET_HANDLE us)" by blast
    have "patch_install grow (u # us) c = patch_install grow us (c\<lparr>lc_handles := e\<rparr>)"
      using Cons.prems(2) handle e(1) by (simp add: object_handle_from_raw_def)
    moreover obtain c' where "patch_install grow us (c\<lparr>lc_handles := e\<rparr>) = Inr c'" "context_ok c'"
      "handle_map c' = fold set_handle us (entries_map e)" "value_map c' = fold set_value us (value_map c)"
      using Cons.IH [OF e(2) nz] e(4) vs handle by auto
    moreover have "set_handle u (handle_map c) = entries_map e" "set_value u (value_map c) = value_map c"
      using handle e(3) by (simp_all add: set_handle_def set_value_def)
    ultimately show ?thesis by (intro exI [of _ c']) (simp del: patch_install.simps)
  next
    case val
    from lc_set_value_room [OF Cons.prems(1) vs [unfolded if_P [OF val(1)]] fin, of "grow u" "cu_value u"]
    obtain e where e: "lc_set_value (grow u) (cu_key u) (cu_value u) c = (True, c\<lparr>lc_values := e\<rparr>)"
      "context_ok (c\<lparr>lc_values := e\<rparr>)" "entries_map e = (value_map c)(cu_key u \<mapsto> cu_value u)"
      "room_for PROCESS_MAX_INHERITED_VALUES e (keys_of SET_VALUE us)" by blast
    have "patch_install grow (u # us) c = patch_install grow us (c\<lparr>lc_values := e\<rparr>)"
      using val e(1) by simp
    moreover obtain c' where "patch_install grow us (c\<lparr>lc_values := e\<rparr>) = Inr c'" "context_ok c'"
      "handle_map c' = fold set_handle us (handle_map c)" "value_map c' = fold set_value us (entries_map e)"
      using Cons.IH [OF e(2) nz] e(4) hs val by auto
    moreover have "set_handle u (handle_map c) = handle_map c" "set_value u (value_map c) = entries_map e"
      using val e(3) by (simp_all add: set_handle_def set_value_def)
    ultimately show ?thesis by (intro exI [of _ c']) (simp del: patch_install.simps)
  next
    case other
    then show ?thesis
      using Cons.IH [OF Cons.prems(1) nz] hs vs by (simp add: set_handle_def [of u] set_value_def [of u])
  qed
qed

subsection \<open>The counts\<close>

definition new_keys :: "u32 \<Rightarrow> 'a entries \<Rightarrow> context_update list \<Rightarrow> nat" where
  "new_keys kind e us = length (filter (\<lambda>u. cu_kind u = kind \<and> cu_key u \<notin> dom (entries_map e)) us)"

definition gone_keys :: "u32 \<Rightarrow> 'a entries \<Rightarrow> context_update list \<Rightarrow> nat" where
  "gone_keys kind e us = length (filter (\<lambda>u. cu_kind u = kind \<and> cu_key u \<in> dom (entries_map e)) us)"

definition handles_valid :: "(object_handle \<Rightarrow> bool) \<Rightarrow> context_update list \<Rightarrow> bool" where
  "handles_valid valid_handle us \<longleftrightarrow> (\<forall>u\<in>set us. cu_kind u = SET_HANDLE \<longrightarrow> valid_handle (ucast (cu_value u)))"

lemma key_counts_Cons:
  "new_keys k e (u # us) = of_bool (cu_kind u = k \<and> cu_key u \<notin> dom (entries_map e)) + new_keys k e us"
  "gone_keys k e (u # us) = of_bool (cu_kind u = k \<and> cu_key u \<in> dom (entries_map e)) + gone_keys k e us"
  by (simp_all add: new_keys_def gone_keys_def)

lemma handles_valid_Cons:
  "handles_valid valid_handle (u # us) \<longleftrightarrow>
     (cu_kind u = SET_HANDLE \<longrightarrow> valid_handle (ucast (cu_value u))) \<and> handles_valid valid_handle us"
  by (simp add: handles_valid_def)

lemma validated_handle:
  assumes "update_validate u = None" and "cu_kind u = SET_HANDLE"
  shows "handle_from_u64 (cu_value u) = Some (ucast (cu_value u))" and "ucast (cu_value u) \<noteq> (0 :: u32)"
proof -
  have v: "0 < cu_value u" "cu_value u \<le> 4096"
    using assms by (auto simp: update_validate_def update_kinds split: if_splits)
  then have "unat (cu_value u) \<le> 4096" "0 < unat (cu_value u)" by (simp_all add: word_le_nat_alt unat_gt_0)
  moreover from this have "unat (ucast (cu_value u) :: u32) = unat (cu_value u)"
    by (simp add: unsigned_ucast_eq take_bit_nat_eq_self)
  ultimately show "handle_from_u64 (cu_value u) = Some (ucast (cu_value u))" "ucast (cu_value u) \<noteq> (0 :: u32)"
    by (auto simp: handle_from_u64_def object_handle_from_raw_def)
qed

lemma patch_counts_spec:
  assumes "context_ok c" and "\<forall>u\<in>set us. update_validate u = None"
    and "gone_keys REMOVE_HANDLE (lc_handles c) us \<le> h" and "gone_keys REMOVE_VALUE (lc_values c) us \<le> v"
  shows "patch_counts valid_handle c us (h, v) =
    (if handles_valid valid_handle us
     then Inr (h + new_keys SET_HANDLE (lc_handles c) us - gone_keys REMOVE_HANDLE (lc_handles c) us,
               v + new_keys SET_VALUE (lc_values c) us - gone_keys REMOVE_VALUE (lc_values c) us)
     else Inl InvalidArgument)"
  using assms(2-4)
proof (induction us arbitrary: h v)
  case Nil
  then show ?case by (simp add: handles_valid_def new_keys_def gone_keys_def)
next
  case (Cons u us)
  have dom: "entries_contains_key (cu_key u) (lc_handles c) \<longleftrightarrow> cu_key u \<in> dom (handle_map c)"
    "entries_contains_key (cu_key u) (lc_values c) \<longleftrightarrow> cu_key u \<in> dom (value_map c)"
    using assms(1) by (auto simp: context_ok_def entries_contains_map)
  consider "cu_kind u = SET_HANDLE" | "cu_kind u = REMOVE_HANDLE" | "cu_kind u = SET_VALUE" | "cu_kind u = REMOVE_VALUE"
    using Cons.prems(1) by (auto simp: update_validate_def split: if_splits)
  then show ?case
  proof cases
    case 1
    have "patch_counts valid_handle c (u # us) (h, v) =
        (if \<not> valid_handle (ucast (cu_value u)) then Inl InvalidArgument
         else patch_counts valid_handle c us (h + of_bool (cu_key u \<notin> dom (handle_map c)), v))"
      using validated_handle(1) [OF _ 1] Cons.prems(1) 1 by (simp add: dom)
    moreover have "gone_keys REMOVE_HANDLE (lc_handles c) us \<le> h + of_bool (cu_key u \<notin> dom (handle_map c))"
      "gone_keys REMOVE_VALUE (lc_values c) us \<le> v"
      using Cons.prems(2,3) unfolding key_counts_Cons by simp_all
    ultimately show ?thesis
      using 1 Cons.prems(1) Cons.IH by (simp add: key_counts_Cons handles_valid_Cons kinds_distinct)
  next
    case 2
    have le: "of_bool (cu_key u \<in> dom (handle_map c)) + gone_keys REMOVE_HANDLE (lc_handles c) us \<le> h"
      "gone_keys REMOVE_VALUE (lc_values c) us \<le> v"
      using Cons.prems(2,3) 2 unfolding key_counts_Cons by (simp_all add: kinds_distinct)
    then have "patch_counts valid_handle c (u # us) (h, v) =
        patch_counts valid_handle c us (h - of_bool (cu_key u \<in> dom (handle_map c)), v)"
      using 2 by (simp add: dom kinds_distinct)
    also have "\<dots> = (if handles_valid valid_handle us
     then Inr (h - of_bool (cu_key u \<in> dom (handle_map c)) + new_keys SET_HANDLE (lc_handles c) us - gone_keys REMOVE_HANDLE (lc_handles c) us,
               v + new_keys SET_VALUE (lc_values c) us - gone_keys REMOVE_VALUE (lc_values c) us)
     else Inl InvalidArgument)"
      using le Cons.prems(1) by (intro Cons.IH) simp_all
    finally show ?thesis using 2 le by (simp add: key_counts_Cons handles_valid_Cons kinds_distinct)
  next
    case 3
    have "patch_counts valid_handle c (u # us) (h, v) =
        patch_counts valid_handle c us (h, v + of_bool (cu_key u \<notin> dom (value_map c)))"
      using 3 by (simp add: dom kinds_distinct)
    moreover have "gone_keys REMOVE_HANDLE (lc_handles c) us \<le> h"
      "gone_keys REMOVE_VALUE (lc_values c) us \<le> v + of_bool (cu_key u \<notin> dom (value_map c))"
      using Cons.prems(2,3) unfolding key_counts_Cons by simp_all
    ultimately show ?thesis
      using 3 Cons.prems(1) Cons.IH by (simp add: key_counts_Cons handles_valid_Cons kinds_distinct)
  next
    case 4
    have le: "of_bool (cu_key u \<in> dom (value_map c)) + gone_keys REMOVE_VALUE (lc_values c) us \<le> v"
      "gone_keys REMOVE_HANDLE (lc_handles c) us \<le> h"
      using Cons.prems(2,3) 4 unfolding key_counts_Cons by (simp_all add: kinds_distinct)
    then have "patch_counts valid_handle c (u # us) (h, v) =
        patch_counts valid_handle c us (h, v - of_bool (cu_key u \<in> dom (value_map c)))"
      using 4 by (simp add: dom kinds_distinct)
    also have "\<dots> = (if handles_valid valid_handle us
     then Inr (h + new_keys SET_HANDLE (lc_handles c) us - gone_keys REMOVE_HANDLE (lc_handles c) us,
               v - of_bool (cu_key u \<in> dom (value_map c)) + new_keys SET_VALUE (lc_values c) us - gone_keys REMOVE_VALUE (lc_values c) us)
     else Inl InvalidArgument)"
      using le Cons.prems(1) by (intro Cons.IH) simp_all
    finally show ?thesis using 4 le by (simp add: key_counts_Cons handles_valid_Cons kinds_distinct)
  qed
qed

subsection \<open>Updates with distinct keys\<close>

definition keys_unique :: "context_update list \<Rightarrow> bool" where
  "keys_unique us \<longleftrightarrow> distinct (map (\<lambda>u. (update_is_handle u, cu_key u)) us)"

lemma keys_uniqueD:
  assumes "keys_unique us" and "u \<in> set us" and "u' \<in> set us" and "cu_key u = cu_key u'"
    and "update_is_handle u = update_is_handle u'"
  shows "u = u'"
  using assms unfolding keys_unique_def distinct_map inj_on_def by blast

lemma filter_card:
  assumes "keys_unique us" and "\<And>u. P u \<Longrightarrow> update_is_handle u = b"
  shows "length (filter P us) = card (cu_key ` {u \<in> set us. P u})"
proof -
  have "distinct (filter P us)" using assms(1) by (simp add: keys_unique_def distinct_map)
  then have "length (filter P us) = card {u \<in> set us. P u}" using distinct_card [of "filter P us"] by simp
  also have "\<dots> = card (cu_key ` {u \<in> set us. P u})"
    using keys_uniqueD [OF assms(1)] assms(2) by (intro card_image [symmetric]) (auto simp: inj_on_def)
  finally show ?thesis .
qed

lemma final_keys_card:
  assumes "keys_unique us" and "\<And>u. cu_kind u = ks \<Longrightarrow> update_is_handle u = b" and "\<And>u. cu_kind u = kr \<Longrightarrow> update_is_handle u = b"
    and "ks \<noteq> kr"
  shows "card ((dom (entries_map e) - keys_of kr us) \<union> keys_of ks us) =
      card (dom (entries_map e)) + new_keys ks e us - gone_keys kr e us"
    and "gone_keys kr e us \<le> card (dom (entries_map e))"
proof -
  let ?D = "dom (entries_map e)" and ?S = "keys_of ks us" and ?R = "keys_of kr us"
  have new: "new_keys ks e us = card (?S - ?D)"
    using filter_card [OF assms(1), of "\<lambda>u. cu_kind u = ks \<and> cu_key u \<notin> ?D" b] assms(2)
    by (simp add: new_keys_def) (rule arg_cong [of _ _ card], auto)
  have gone: "gone_keys kr e us = card (?R \<inter> ?D)"
    using filter_card [OF assms(1), of "\<lambda>u. cu_kind u = kr \<and> cu_key u \<in> ?D" b] assms(3)
    by (simp add: gone_keys_def) (rule arg_cong [of _ _ card], auto)
  show "gone_keys kr e us \<le> card ?D" unfolding gone by (rule card_mono) auto
  have "?S \<inter> ?R = {}"
  proof (rule equals0I)
    fix k assume "k \<in> ?S \<inter> ?R"
    then obtain u u' where "u \<in> set us" "cu_kind u = ks" "u' \<in> set us" "cu_kind u' = kr" "cu_key u = cu_key u'" by blast
    with keys_uniqueD [OF assms(1), of u u'] assms(2-4) show False by metis
  qed
  then have "(?D - ?R) \<union> ?S = (?D - (?R \<inter> ?D)) \<union> (?S - ?D)" by blast
  then have "card ((?D - ?R) \<union> ?S) = card (?D - (?R \<inter> ?D)) + card (?S - ?D)"
    using card_Un_disjoint [of "?D - (?R \<inter> ?D)" "?S - ?D"] by auto
  also have "card (?D - (?R \<inter> ?D)) = card ?D - card (?R \<inter> ?D)" by (rule card_Diff_subset) auto
  finally show "card ((?D - ?R) \<union> ?S) = card ?D + new_keys ks e us - gone_keys kr e us"
    using card_mono [of ?D "?R \<inter> ?D"] unfolding new gone by simp
qed

lemma handle_kinds: "cu_kind u = SET_HANDLE \<Longrightarrow> update_is_handle u = True" "cu_kind u = REMOVE_HANDLE \<Longrightarrow> update_is_handle u = True"
  and value_kinds: "cu_kind u = SET_VALUE \<Longrightarrow> update_is_handle u = False" "cu_kind u = REMOVE_VALUE \<Longrightarrow> update_is_handle u = False"
  by (auto simp: update_is_handle_def update_kinds)

text \<open>The keys of the two maps once the updates are applied.\<close>

definition final_handle_keys :: "context_update list \<Rightarrow> launch_context \<Rightarrow> u64 set" where
  "final_handle_keys us c = (dom (handle_map c) - keys_of REMOVE_HANDLE us) \<union> keys_of SET_HANDLE us"

definition final_value_keys :: "context_update list \<Rightarrow> launch_context \<Rightarrow> u64 set" where
  "final_value_keys us c = (dom (value_map c) - keys_of REMOVE_VALUE us) \<union> keys_of SET_VALUE us"

lemma patched_counts:
  assumes "context_ok c" and "\<forall>u\<in>set us. update_validate u = None" and "keys_unique us"
  shows "patch_counts valid_handle c us (entries_len (lc_handles c), entries_len (lc_values c)) =
    (if handles_valid valid_handle us then Inr (card (final_handle_keys us c), card (final_value_keys us c))
     else Inl InvalidArgument)"
proof -
  have ok: "entries_ok (lc_handles c)" "entries_ok (lc_values c)" using assms(1) by (simp_all add: context_ok_def)
  note h = final_keys_card [OF assms(3) handle_kinds kinds_distinct(1), of "lc_handles c"]
  note v = final_keys_card [OF assms(3) value_kinds kinds_distinct(6), of "lc_values c"]
  have final: "card (final_handle_keys us c) = card (dom (handle_map c)) + new_keys SET_HANDLE (lc_handles c) us -
      gone_keys REMOVE_HANDLE (lc_handles c) us"
    unfolding final_handle_keys_def by (rule h(1))
  have final': "card (final_value_keys us c) = card (dom (value_map c)) + new_keys SET_VALUE (lc_values c) us -
      gone_keys REMOVE_VALUE (lc_values c) us"
    unfolding final_value_keys_def by (rule v(1))
  show ?thesis
    using patch_counts_spec [OF assms(1,2), of "entries_len (lc_handles c)" "entries_len (lc_values c)" valid_handle] h(2) v(2)
    unfolding entries_len_card [OF ok(1)] entries_len_card [OF ok(2)] final final' by simp
qed

text \<open>Whether the two copies can be made: an empty copy needs no memory.\<close>

definition copies_made :: "bool \<Rightarrow> bool \<Rightarrow> context_update list \<Rightarrow> launch_context \<Rightarrow> bool" where
  "copies_made mem_handles mem_values us c \<longleftrightarrow>
     (mem_handles \<or> final_handle_keys us c \<union> dom (handle_map c) = {}) \<and>
     (mem_values \<or> final_value_keys us c \<union> dom (value_map c) = {})"

lemma finite_final_keys: "finite (final_handle_keys us c)" "finite (final_value_keys us c)"
  by (simp_all add: final_handle_keys_def final_value_keys_def entries_map_def finite_dom_map_of)

lemma copy_made:
  assumes "entries_ok e" and "finite final"
  shows "(\<exists>e'. entries_try_copy mem (card final) e = Inr e') \<longleftrightarrow> mem \<or> final \<union> dom (entries_map e) = {}"
proof -
  have "max (card final) (entries_len e) = 0 \<longleftrightarrow> final \<union> dom (entries_map e) = {}"
    using assms(2) by (auto simp: entries_len_card [OF assms(1)] entries_map_def finite_dom_map_of card_eq_0_iff)
  then show ?thesis by (auto simp: entries_try_copy_def)
qed

lemma patched_result:
  assumes "context_ok c" and "\<forall>u\<in>set us. update_validate u = None" and "keys_unique us"
  shows "if \<not> handles_valid valid_handle us
    then lc_patched mem_handles mem_values grow us valid_handle c = Inl InvalidArgument
    else if card (final_handle_keys us c) \<le> PROCESS_MAX_INHERITED_HANDLES \<and>
      card (final_value_keys us c) \<le> PROCESS_MAX_INHERITED_VALUES \<and> copies_made mem_handles mem_values us c
    then \<exists>c'. lc_patched mem_handles mem_values grow us valid_handle c = Inr c' \<and> context_ok c' \<and>
      handle_map c' = fold set_handle us (handle_map c |` (- keys_of REMOVE_HANDLE us)) \<and>
      value_map c' = fold set_value us (value_map c |` (- keys_of REMOVE_VALUE us))
    else lc_patched mem_handles mem_values grow us valid_handle c = Inl ResourceUnavailable"
proof (cases "handles_valid valid_handle us \<and> card (final_handle_keys us c) \<le> PROCESS_MAX_INHERITED_HANDLES \<and>
      card (final_value_keys us c) \<le> PROCESS_MAX_INHERITED_VALUES \<and> copies_made mem_handles mem_values us c")
  case False
  note copies = copy_made [of "lc_handles c" "final_handle_keys us c" mem_handles]
    copy_made [of "lc_values c" "final_value_keys us c" mem_values]
  show ?thesis
    using False patched_counts [OF assms, of valid_handle] copies assms(1) finite_final_keys
    by (auto simp: lc_patched_def context_ok_def copies_made_def not_le entries_try_copy_def split: sum.splits)
next
  case True
  let ?copy = "\<lparr>lc_handles = \<lparr>en_items = en_items (lc_handles c),
      en_capacity = max (card (final_handle_keys us c)) (entries_len (lc_handles c))\<rparr>,
    lc_values = \<lparr>en_items = en_items (lc_values c),
      en_capacity = max (card (final_value_keys us c)) (entries_len (lc_values c))\<rparr>\<rparr>"
  let ?prepared = "fold patch_remove us ?copy"
  have ok: "entries_ok (lc_handles c)" "entries_ok (lc_values c)" using assms(1) by (simp_all add: context_ok_def)
  have "\<exists>e. entries_try_copy mem_handles (card (final_handle_keys us c)) (lc_handles c) = Inr e"
    "\<exists>e. entries_try_copy mem_values (card (final_value_keys us c)) (lc_values c) = Inr e"
    using True copy_made [OF ok(1) finite_final_keys(1)] copy_made [OF ok(2) finite_final_keys(2)]
    by (simp_all add: copies_made_def)
  then have run: "lc_patched mem_handles mem_values grow us valid_handle c = patch_install grow us ?prepared"
    using True patched_counts [OF assms, of valid_handle]
    by (auto simp: lc_patched_def entries_try_copy_def not_less split: if_splits)
  have maps: "handle_map ?copy = handle_map c" "value_map ?copy = value_map c" by (simp_all add: entries_map_def)
  have "context_ok ?copy" using assms(1) by (auto simp: context_ok_def entries_ok_def entries_len_def)
  note rem = fold_patch_remove [OF this, of us, unfolded maps]
  have doms: "dom (handle_map ?prepared) \<union> keys_of SET_HANDLE us = final_handle_keys us c"
    "dom (value_map ?prepared) \<union> keys_of SET_VALUE us = final_value_keys us c"
    using rem by (auto simp: final_handle_keys_def final_value_keys_def)
  have "\<forall>u\<in>set us. cu_kind u = SET_HANDLE \<longrightarrow> ucast (cu_value u) \<noteq> (0 :: u32)"
    using validated_handle(2) assms(2) by blast
  moreover have "room_for PROCESS_MAX_INHERITED_HANDLES (lc_handles ?prepared) (keys_of SET_HANDLE us)"
    "room_for PROCESS_MAX_INHERITED_VALUES (lc_values ?prepared) (keys_of SET_VALUE us)"
    using True rem unfolding room_for_def doms by auto
  ultimately show ?thesis
    using patch_install_room [of ?prepared us grow] rem True unfolding run by auto
qed

lemma fold_set_handle_other: "k \<notin> keys_of SET_HANDLE us \<Longrightarrow> fold set_handle us m k = m k"
proof (induction us arbitrary: m)
  case (Cons u us)
  then have "k \<notin> keys_of SET_HANDLE us" "cu_kind u = SET_HANDLE \<longrightarrow> k \<noteq> cu_key u" by auto
  then show ?case using Cons.IH by (simp add: set_handle_def [of u])
qed simp

lemma fold_set_value_other: "k \<notin> keys_of SET_VALUE us \<Longrightarrow> fold set_value us m k = m k"
proof (induction us arbitrary: m)
  case (Cons u us)
  then have "k \<notin> keys_of SET_VALUE us" "cu_kind u = SET_VALUE \<longrightarrow> k \<noteq> cu_key u" by auto
  then show ?case using Cons.IH by (simp add: set_value_def [of u])
qed simp

lemma fold_set_handle_at:
  "keys_unique us \<Longrightarrow> u \<in> set us \<Longrightarrow> cu_kind u = SET_HANDLE \<Longrightarrow> fold set_handle us m (cu_key u) = Some (ucast (cu_value u))"
proof (induction us arbitrary: m)
  case (Cons w us)
  show ?case
  proof (cases "w = u")
    case True
    then have "cu_key u \<notin> keys_of SET_HANDLE us"
      using Cons.prems handle_kinds(1) by (force simp: keys_unique_def)
    then show ?thesis using True Cons.prems(3) by (simp add: fold_set_handle_other) (simp add: set_handle_def)
  next
    case False
    then show ?thesis using Cons by (simp add: keys_unique_def)
  qed
qed simp

lemma fold_set_value_at:
  "keys_unique us \<Longrightarrow> u \<in> set us \<Longrightarrow> cu_kind u = SET_VALUE \<Longrightarrow> fold set_value us m (cu_key u) = Some (cu_value u)"
proof (induction us arbitrary: m)
  case (Cons w us)
  show ?case
  proof (cases "w = u")
    case True
    then have "cu_key u \<notin> keys_of SET_VALUE us"
      using Cons.prems value_kinds(1) by (force simp: keys_unique_def)
    then show ?thesis using True Cons.prems(3) by (simp add: fold_set_value_other) (simp add: set_value_def)
  next
    case False
    then show ?thesis using Cons by (simp add: keys_unique_def)
  qed
qed simp

text \<open>What the prepared context holds, key by key.\<close>

definition context_patched :: "context_update list \<Rightarrow> launch_context \<Rightarrow> launch_context \<Rightarrow> bool" where
  "context_patched us c c' \<longleftrightarrow>
     (\<forall>u\<in>set us. cu_kind u = SET_HANDLE \<longrightarrow> lc_get (cu_key u) c' = Some (ucast (cu_value u))) \<and>
     (\<forall>u\<in>set us. cu_kind u = SET_VALUE \<longrightarrow> lc_value (cu_key u) c' = Some (cu_value u)) \<and>
     (\<forall>u\<in>set us. cu_kind u = REMOVE_HANDLE \<longrightarrow> lc_get (cu_key u) c' = None) \<and>
     (\<forall>u\<in>set us. cu_kind u = REMOVE_VALUE \<longrightarrow> lc_value (cu_key u) c' = None) \<and>
     (\<forall>k. k \<notin> keys_of SET_HANDLE us \<union> keys_of REMOVE_HANDLE us \<longrightarrow> lc_get k c' = lc_get k c) \<and>
     (\<forall>k. k \<notin> keys_of SET_VALUE us \<union> keys_of REMOVE_VALUE us \<longrightarrow> lc_value k c' = lc_value k c)"

lemma context_patchedI:
  assumes "context_ok c" and "context_ok c'" and "keys_unique us"
    and h: "handle_map c' = fold set_handle us (handle_map c |` (- keys_of REMOVE_HANDLE us))"
    and v: "value_map c' = fold set_value us (value_map c |` (- keys_of REMOVE_VALUE us))"
  shows "context_patched us c c'"
proof -
  have get: "lc_get k c = handle_map c k" "lc_get k c' = handle_map c' k"
    "lc_value k c = value_map c k" "lc_value k c' = value_map c' k" for k
    using assms(1,2) by (simp_all add: lc_get_def lc_value_def entries_get_map context_ok_def)
  have "handle_map c' (cu_key u) = None" if "u \<in> set us" "cu_kind u = REMOVE_HANDLE" for u
  proof -
    have "cu_key u \<notin> keys_of SET_HANDLE us"
      using keys_uniqueD [OF assms(3) that(1)] that(2) handle_kinds kinds_distinct(1) by fastforce
    then show ?thesis using that by (auto simp: h fold_set_handle_other restrict_map_def)
  qed
  moreover have "value_map c' (cu_key u) = None" if "u \<in> set us" "cu_kind u = REMOVE_VALUE" for u
  proof -
    have "cu_key u \<notin> keys_of SET_VALUE us"
      using keys_uniqueD [OF assms(3) that(1)] that(2) value_kinds kinds_distinct(6) by fastforce
    then show ?thesis using that by (auto simp: v fold_set_value_other restrict_map_def)
  qed
  moreover have "handle_map c' k = handle_map c k" if "k \<notin> keys_of SET_HANDLE us \<union> keys_of REMOVE_HANDLE us" for k
    using that by (simp add: h fold_set_handle_other restrict_map_def)
  moreover have "value_map c' k = value_map c k" if "k \<notin> keys_of SET_VALUE us \<union> keys_of REMOVE_VALUE us" for k
    using that by (simp add: v fold_set_value_other restrict_map_def)
  ultimately show ?thesis
    unfolding context_patched_def get using fold_set_handle_at [OF assms(3)] fold_set_value_at [OF assms(3)]
    by (intro conjI ballI allI impI) (simp_all add: h v)
qed

lemma decoded_updates:
  assumes "decode bytes = Inr img"
  shows "\<forall>u\<in>set (context_updates img). update_validate u = None" and "keys_unique (context_updates img)"
proof -
  from decode_Inr [OF assms] have "image_check img = None" by blast
  then show "\<forall>u\<in>set (context_updates img). update_validate u = None" "keys_unique (context_updates img)"
    using checked_updates [of "si_context img" "context_updates img"] by (auto simp: image_check_None keys_unique_def)
qed

section \<open>Properties\<close>


lemma demo_context_image: "decode (image_bytes CONTEXT_VERSION (with_context demo_image [demo_update])) =
    Inr (with_context demo_image [demo_update])"
proof (rule decode_extended)
  show "image_shape CONTEXT_VERSION (with_context demo_image [demo_update])"
    by (rule with_context_shape [OF demo_image_shape]) (simp add: MAX_CONTEXT_UPDATES_def)
  show "image_check (with_context demo_image [demo_update]) = None"
    by (rule with_context_check [OF demo_image_check])
      (simp add: check_new_update_def update_validate_def demo_update_def SET_VALUE_def SET_HANDLE_def)
qed


end
