(* ===== verification/Handle_Syscalls.thy ===== *)
theory Handle_Syscalls
  imports Handle_Snapshot Launch_Context Process_Access
begin

text \<open>
  The system calls of \<^verbatim>\<open>src/syscall/handle.rs\<close> on the caller's own handle table and launch
  context, the metadata queries of \<^verbatim>\<open>src/syscall/handle/snapshot.rs\<close>, the captures of
  \<^verbatim>\<open>src/syscall/handle/capture.rs\<close>, and what an image replacement keeps of both
  (\<^verbatim>\<open>src/syscall/exec.rs\<close>, \<^verbatim>\<open>src/task/process.rs\<close>). The identifier of the current process is an
  argument, as are the outcomes of allocations and of copies to user memory.

  A process is well formed when its table and its context are (\<open>hproc_wf\<close>); its context is live when
  every handle of it is published in the table (\<open>launch_live\<close>). Each operation is shown to keep both.
\<close>

record hproc =
  hp_object :: arc
  hp_handles :: handle_table
  hp_launch :: launch_context

type_synonym hprocs = "hproc processes"

definition native :: "u64 option \<Rightarrow> u64" where
  "native r = (case r of Some x \<Rightarrow> x | None \<Rightarrow> into_raw NotReady)"

section \<open>Looking up an object\<close>

definition object_with_rights_native ::
  "u64 option \<Rightarrow> u64 \<Rightarrow> handle_rights \<Rightarrow> hprocs \<Rightarrow> status_error + kernel_object \<times> handle_rights" where
  "object_with_rights_native cur raw required ps =
     (case cur of
        None \<Rightarrow> Inl NotReady
      | Some pid \<Rightarrow>
          (case handle_from_u64 raw of
             None \<Rightarrow> Inl InvalidArgument
           | Some h \<Rightarrow>
               (case with_process ps pid (\<lambda>p.
                  case table_get h (hp_handles p) of
                    None \<Rightarrow> Inl InvalidArgument
                  | Some e \<Rightarrow>
                      if \<not> rights_contains (he_rights e) required then Inl AccessDenied
                      else Inr (he_object e, he_rights e)) of
                  Some r \<Rightarrow> r
                | None \<Rightarrow> Inl NotReady)))"

definition object_native :: "u64 option \<Rightarrow> u64 \<Rightarrow> handle_rights \<Rightarrow> hprocs \<Rightarrow> status_error + kernel_object" where
  "object_native cur raw required ps = map_sum id fst (object_with_rights_native cur raw required ps)"

section \<open>Handles\<close>

definition close_in :: "object_handle \<Rightarrow> hproc \<Rightarrow> u64 \<times> hproc" where
  "close_in h p =
     (case table_close h (hp_handles p) of
        (False, t) \<Rightarrow> (into_raw InvalidArgument, p\<lparr>hp_handles := t\<rparr>)
      | (True, t) \<Rightarrow> (SUCCESS, p\<lparr>hp_handles := t, hp_launch := lc_remove_handle h (hp_launch p)\<rparr>))"

definition close :: "u64 option \<Rightarrow> u64 \<Rightarrow> hprocs \<Rightarrow> u64 \<times> hprocs" where
  "close cur raw ps =
     (case cur of
        None \<Rightarrow> (into_raw NotReady, ps)
      | Some pid \<Rightarrow>
          (case handle_from_u64 raw of
             None \<Rightarrow> (into_raw InvalidArgument, ps)
           | Some h \<Rightarrow> map_prod native id (with_process_mut ps pid (close_in h))))"

definition duplicate_in :: "bool \<Rightarrow> object_handle \<Rightarrow> handle_rights \<Rightarrow> hproc \<Rightarrow> u64 \<times> hproc" where
  "duplicate_in mem h rights p =
     (case table_get h (hp_handles p) of
        None \<Rightarrow> (into_raw InvalidArgument, p)
      | Some source \<Rightarrow>
          if \<not> rights_contains (he_rights source) R_DUPLICATE \<or> \<not> rights_contains (he_rights source) rights
          then (into_raw AccessDenied, p)
          else case table_duplicate_restricted mem h rights (hp_handles p) of
                 (Some d, t) \<Rightarrow> (ucast d, p\<lparr>hp_handles := t\<rparr>)
               | (None, t) \<Rightarrow> (into_raw ResourceUnavailable, p\<lparr>hp_handles := t\<rparr>))"

definition duplicate :: "bool \<Rightarrow> u64 option \<Rightarrow> u64 \<Rightarrow> u64 \<Rightarrow> hprocs \<Rightarrow> u64 \<times> hprocs" where
  "duplicate mem cur raw requested_rights ps =
     (case cur of
        None \<Rightarrow> (into_raw NotReady, ps)
      | Some pid \<Rightarrow>
          (case handle_from_u64 raw of
             None \<Rightarrow> (into_raw InvalidArgument, ps)
           | Some h \<Rightarrow>
               (case rights_from_bits requested_rights of
                  None \<Rightarrow> (into_raw InvalidArgument, ps)
                | Some rights \<Rightarrow> map_prod native id (with_process_mut ps pid (duplicate_in mem h rights)))))"

definition same_object :: "u64 option \<Rightarrow> u64 \<Rightarrow> u64 \<Rightarrow> hprocs \<Rightarrow> u64" where
  "same_object cur left_raw right_raw ps =
     (case cur of
        None \<Rightarrow> into_raw NotReady
      | Some pid \<Rightarrow>
          (case (handle_from_u64 left_raw, handle_from_u64 right_raw) of
             (Some l, Some r) \<Rightarrow>
               native (with_process ps pid (\<lambda>p.
                 case table_get l (hp_handles p) of
                   None \<Rightarrow> into_raw InvalidArgument
                 | Some le \<Rightarrow>
                     (case table_get r (hp_handles p) of
                        None \<Rightarrow> into_raw InvalidArgument
                      | Some re \<Rightarrow> of_bool (is_same_object (he_object le) (he_object re)))))
           | _ \<Rightarrow> into_raw InvalidArgument))"

definition rights_get :: "u64 option \<Rightarrow> u64 \<Rightarrow> hprocs \<Rightarrow> u64" where
  "rights_get cur raw ps =
     (case cur of
        None \<Rightarrow> into_raw NotReady
      | Some pid \<Rightarrow>
          (case handle_from_u64 raw of
             None \<Rightarrow> into_raw InvalidArgument
           | Some h \<Rightarrow>
               native (with_process ps pid (\<lambda>p.
                 case table_get h (hp_handles p) of
                   Some e \<Rightarrow> he_rights e
                 | None \<Rightarrow> into_raw InvalidArgument))))"

section \<open>The launch context\<close>

definition launch_get :: "u64 option \<Rightarrow> u64 \<Rightarrow> hprocs \<Rightarrow> u64" where
  "launch_get cur key ps =
     (case cur of
        None \<Rightarrow> into_raw NotReady
      | Some pid \<Rightarrow>
          native (with_process ps pid (\<lambda>p.
            case lc_get key (hp_launch p) of
              None \<Rightarrow> into_raw NotFound
            | Some h \<Rightarrow>
                if table_get h (hp_handles p) = None then into_raw InvalidArgument else ucast h)))"

definition context_set_in :: "bool \<Rightarrow> u64 \<Rightarrow> object_handle \<Rightarrow> hproc \<Rightarrow> u64 \<times> hproc" where
  "context_set_in grow key h p =
     (if table_get h (hp_handles p) = None then (into_raw InvalidArgument, p)
      else case lc_set grow key h (hp_launch p) of
             (False, c) \<Rightarrow> (into_raw ResourceUnavailable, p\<lparr>hp_launch := c\<rparr>)
           | (True, c) \<Rightarrow> (SUCCESS, p\<lparr>hp_launch := c\<rparr>))"

definition context_handle_set :: "bool \<Rightarrow> u64 option \<Rightarrow> u64 \<Rightarrow> u64 \<Rightarrow> hprocs \<Rightarrow> u64 \<times> hprocs" where
  "context_handle_set grow cur key raw ps =
     (case cur of
        None \<Rightarrow> (into_raw NotReady, ps)
      | Some pid \<Rightarrow>
          (case handle_from_u64 raw of
             None \<Rightarrow> (into_raw InvalidArgument, ps)
           | Some h \<Rightarrow> map_prod native id (with_process_mut ps pid (context_set_in grow key h))))"

definition context_handle_remove :: "u64 option \<Rightarrow> u64 \<Rightarrow> hprocs \<Rightarrow> u64 \<times> hprocs" where
  "context_handle_remove cur key ps =
     (case cur of
        None \<Rightarrow> (into_raw NotReady, ps)
      | Some pid \<Rightarrow>
          map_prod native id
            (with_process_mut ps pid (\<lambda>p. (SUCCESS, p\<lparr>hp_launch := snd (lc_take key (hp_launch p))\<rparr>))))"

definition context_value_set :: "bool \<Rightarrow> u64 option \<Rightarrow> u64 \<Rightarrow> u64 \<Rightarrow> hprocs \<Rightarrow> u64 \<times> hprocs" where
  "context_value_set grow cur key v ps =
     (case cur of
        None \<Rightarrow> (into_raw NotReady, ps)
      | Some pid \<Rightarrow>
          map_prod native id
            (with_process_mut ps pid (\<lambda>p.
               case lc_set_value grow key v (hp_launch p) of
                 (False, c) \<Rightarrow> (into_raw ResourceUnavailable, p\<lparr>hp_launch := c\<rparr>)
               | (True, c) \<Rightarrow> (SUCCESS, p\<lparr>hp_launch := c\<rparr>))))"

definition context_value_remove :: "u64 option \<Rightarrow> u64 \<Rightarrow> hprocs \<Rightarrow> u64 \<times> hprocs" where
  "context_value_remove cur key ps =
     (case cur of
        None \<Rightarrow> (into_raw NotReady, ps)
      | Some pid \<Rightarrow>
          map_prod native id
            (with_process_mut ps pid (\<lambda>p. (SUCCESS, p\<lparr>hp_launch := snd (lc_remove_value key (hp_launch p))\<rparr>))))"

text \<open>A copy to user memory is given by its outcome; the bytes copied are a result.\<close>

definition launch_value_get ::
  "(u8 list \<Rightarrow> status_error + unit) \<Rightarrow> u64 option \<Rightarrow> u64 \<Rightarrow> hprocs \<Rightarrow> u64 \<times> u8 list" where
  "launch_value_get copy cur key ps =
     (case cur of
        None \<Rightarrow> (into_raw NotReady, [])
      | Some pid \<Rightarrow>
          (case with_process ps pid (\<lambda>p. lc_value key (hp_launch p)) of
             None \<Rightarrow> (into_raw NotReady, [])
           | Some None \<Rightarrow> (into_raw NotFound, [])
           | Some (Some v) \<Rightarrow>
               (case copy (to_le_bytes v) of
                  Inr _ \<Rightarrow> (SUCCESS, to_le_bytes v)
                | Inl e \<Rightarrow> (into_raw e, []))))"

section \<open>Reading and capturing the table\<close>

definition table_record_bytes :: "handle_info \<Rightarrow> u8 list" where
  "table_record_bytes r = to_le_bytes (hi_handle r) @ to_le_bytes (0 :: u32) @ to_le_bytes (hi_rights r)"

definition table_read ::
  "bool \<Rightarrow> (u8 list \<Rightarrow> status_error + unit) \<Rightarrow> u64 option \<Rightarrow> u64 \<Rightarrow> u64 \<Rightarrow> hprocs \<Rightarrow> u64 \<times> u8 list" where
  "table_read mem copy cur user_output capacity ps =
     (if unat capacity > PROCESS_MAX_OBJECT_HANDLES \<or> capacity = 0 \<and> user_output \<noteq> 0
      then (into_raw InvalidArgument, [])
      else if capacity \<noteq> 0 \<and> user_output = 0 then (into_raw InvalidAddress, [])
      else case cur of
        None \<Rightarrow> (into_raw NotReady, [])
      | Some owner \<Rightarrow>
          if capacity \<noteq> 0 \<and> \<not> mem then (into_raw ResourceUnavailable, [])
          else
            (case with_process ps owner (\<lambda>p.
               let records = table_describe (hp_handles p); cnt = of_nat (length records) :: u64
               in if capacity = 0 then Inr (cnt, [])
                  else if capacity < cnt then Inl LimitExceeded
                  else Inr (cnt, concat (map table_record_bytes records))) of
               None \<Rightarrow> (into_raw NotReady, [])
             | Some (Inl e) \<Rightarrow> (into_raw e, [])
             | Some (Inr (cnt, bytes)) \<Rightarrow>
                 if capacity \<noteq> 0 then
                   (case copy bytes of Inl e \<Rightarrow> (into_raw e, []) | Inr _ \<Rightarrow> (cnt, bytes))
                 else (cnt, [])))"

text \<open>
  \<open>Arc::try_new\<close> gives the capture a new address, or fails. The capture itself is a result, to
  be stored under that address.
\<close>

definition capture_rights :: handle_rights where
  "capture_rights = rights_union (rights_union R_READ R_CONTROL) R_DUPLICATE"

definition capture_in :: "bool \<Rightarrow> arc option \<Rightarrow> bool \<Rightarrow> hproc \<Rightarrow> (u64 \<times> (arc \<times> handle_snapshot) option) \<times> hproc" where
  "capture_in mem_records new_arc mem p =
     (case table_capture mem_records (hp_handles p) of
        None \<Rightarrow> ((into_raw ResourceUnavailable, None), p)
      | Some snapshot \<Rightarrow>
          (case new_arc of
             None \<Rightarrow> ((into_raw ResourceUnavailable, None), p)
           | Some a \<Rightarrow>
               (case table_insert mem \<lparr>he_object = O_HandleSnapshot a, he_rights = capture_rights\<rparr> (hp_handles p) of
                  (Some h, t) \<Rightarrow> ((ucast h, Some (a, snapshot)), p\<lparr>hp_handles := t\<rparr>)
                | (None, t) \<Rightarrow> ((into_raw ResourceUnavailable, None), p\<lparr>hp_handles := t\<rparr>))))"

definition table_capture_call ::
  "bool \<Rightarrow> arc option \<Rightarrow> bool \<Rightarrow> u64 option \<Rightarrow> hprocs \<Rightarrow> (u64 \<times> (arc \<times> handle_snapshot) option) \<times> hprocs" where
  "table_capture_call mem_records new_arc mem cur ps =
     (case cur of
        None \<Rightarrow> ((into_raw NotReady, None), ps)
      | Some owner \<Rightarrow>
          (case with_process_mut ps owner (capture_in mem_records new_arc mem) of
             (Some r, ps') \<Rightarrow> (r, ps')
           | (None, ps') \<Rightarrow> ((into_raw NotReady, None), ps')))"

section \<open>Image replacement\<close>

definition retain_launch_context_handles_for_exec :: "hproc \<Rightarrow> hproc" where
  "retain_launch_context_handles_for_exec p =
     p\<lparr>hp_handles := table_retain (\<lambda>h. lc_references_handle h (hp_launch p)) (hp_handles p)\<rparr>"

text \<open>
  The next context is prepared after the sibling threads have stopped and is committed with the
  retained handles; a failed preparation leaves the process as it was. No update leaves the
  context as it is.
\<close>

definition prepare_next_context ::
  "bool \<Rightarrow> bool \<Rightarrow> (context_update \<Rightarrow> bool) \<Rightarrow> context_update list \<Rightarrow> hproc \<Rightarrow> status_error + launch_context option" where
  "prepare_next_context mem_handles mem_values grow updates p =
     (if updates = [] then Inr None
      else map_sum id Some
        (lc_patched mem_handles mem_values grow updates (\<lambda>h. table_get h (hp_handles p) \<noteq> None) (hp_launch p)))"

definition commit_image_context :: "launch_context option \<Rightarrow> hproc \<Rightarrow> hproc" where
  "commit_image_context next_context p =
     retain_launch_context_handles_for_exec
       (case next_context of Some c \<Rightarrow> p\<lparr>hp_launch := c\<rparr> | None \<Rightarrow> p)"

text \<open>
  What can still fail once the sibling threads have stopped: the authorization is checked again, the
  context is copied and patched, the next image revision and the next IPC lifetime are reserved, and
  the borrowed mappings are released. The outcomes are given; the commit after them cannot fail.
\<close>

record image_outcomes =
  io_authorized :: "status_error + unit"
  io_mem_handles :: bool
  io_mem_values :: bool
  io_grow :: "context_update \<Rightarrow> bool"
  io_revision :: "u64 option"
  io_generation :: "u64 option"
  io_released :: "u64 + unit"

definition replace_image_handles :: "image_outcomes \<Rightarrow> context_update list \<Rightarrow> hproc \<Rightarrow> (u64 + unit) \<times> hproc" where
  "replace_image_handles outcomes updates p =
     (case io_authorized outcomes of
        Inl e \<Rightarrow> (Inl (into_raw e), p)
      | Inr _ \<Rightarrow>
          (case prepare_next_context (io_mem_handles outcomes) (io_mem_values outcomes) (io_grow outcomes) updates p of
             Inl e \<Rightarrow> (Inl (into_raw e), p)
           | Inr next_context \<Rightarrow>
               if io_revision outcomes = None then (Inl (into_raw LimitExceeded), p)
               else if io_generation outcomes = None then (Inl (into_raw LimitExceeded), p)
               else case io_released outcomes of
                      Inl raw \<Rightarrow> (Inl raw, p)
                    | Inr _ \<Rightarrow> (Inr (), commit_image_context next_context p)))"

section \<open>Well-formed processes\<close>

definition hproc_wf :: "hproc \<Rightarrow> bool" where
  "hproc_wf p \<longleftrightarrow> table_ok (hp_handles p) \<and> context_ok (hp_launch p)"

definition launch_live :: "hproc \<Rightarrow> bool" where
  "launch_live p \<longleftrightarrow> ran (handle_map (hp_launch p)) \<subseteq> dom (published (hp_handles p))"

definition hproc_ok :: "hproc \<Rightarrow> bool" where
  "hproc_ok p \<longleftrightarrow> hproc_wf p \<and> launch_live p"

definition hproc_new :: "arc \<Rightarrow> hproc" where
  "hproc_new a = \<lparr>hp_object = a, hp_handles = table_new, hp_launch = lc_new\<rparr>"

text \<open>What every operation keeps: well-formedness, and a live context when it was live.\<close>

definition keeps :: "hproc \<Rightarrow> hproc \<Rightarrow> bool" where
  "keeps p p' \<longleftrightarrow> hproc_wf p' \<and> (launch_live p \<longrightarrow> launch_live p')"

lemma hproc_okI:
  "table_ok (hp_handles p) \<Longrightarrow> context_ok (hp_launch p) \<Longrightarrow>
   ran (handle_map (hp_launch p)) \<subseteq> dom (published (hp_handles p)) \<Longrightarrow> hproc_ok p"
  by (simp add: hproc_ok_def hproc_wf_def launch_live_def)

lemma hproc_wfD:
  assumes "hproc_wf p"
  shows "table_ok (hp_handles p)" and "context_ok (hp_launch p)"
  using assms by (auto simp: hproc_wf_def)

lemma hproc_okD:
  assumes "hproc_ok p"
  shows "table_ok (hp_handles p)" and "context_ok (hp_launch p)"
    and "handle_map (hp_launch p) key = Some h \<Longrightarrow> h \<in> dom (published (hp_handles p))"
  using assms by (auto simp: hproc_ok_def hproc_wf_def launch_live_def ran_def)

lemma hproc_ok_wf: "hproc_ok p \<Longrightarrow> hproc_wf p"
  by (simp add: hproc_ok_def)

lemma keeps_ok: "hproc_ok p \<Longrightarrow> keeps p p' \<Longrightarrow> hproc_ok p'"
  by (simp add: hproc_ok_def keeps_def)

lemma keeps_refl: "hproc_wf p \<Longrightarrow> keeps p p"
  by (simp add: keeps_def)

lemma keeps_trans: "keeps p q \<Longrightarrow> keeps q r \<Longrightarrow> keeps p r"
  by (simp add: keeps_def)

lemma keeps_wf: "keeps p p' \<Longrightarrow> hproc_wf p'"
  by (simp add: keeps_def)

lemma keepsI:
  "table_ok (hp_handles p') \<Longrightarrow> context_ok (hp_launch p') \<Longrightarrow> (launch_live p \<Longrightarrow> launch_live p') \<Longrightarrow> keeps p p'"
  by (simp add: keeps_def hproc_wf_def)

lemma hproc_new_ok: "hproc_ok (hproc_new a)"
  by (rule hproc_okI) (simp_all add: hproc_new_def table_new_ok context_ok_def lc_new_def entries_new_ok,
    simp add: entries_map_def entries_new_def)

lemma map_of_filter_pairs:
  "distinct (map fst xs) \<Longrightarrow>
   map_of (filter (\<lambda>(k, v). P k v) xs) k = (case map_of xs k of Some v \<Rightarrow> if P k v then Some v else None | None \<Rightarrow> None)"
  by (induction xs) (auto split: option.splits simp: map_of_eq_None_iff rev_image_eqI)

lemma entries_retain_map:
  assumes "entries_ok e"
  shows "entries_map (entries_retain keep e) k =
    (case entries_map e k of Some v \<Rightarrow> if keep k v then Some v else None | None \<Rightarrow> None)"
proof -
  have "distinct (map fst (en_items e))"
    using assms by (auto simp: entries_ok_def keys_sorted_def strict_sorted_iff)
  then show ?thesis by (simp add: entries_map_def entries_retain_def map_of_filter_pairs)
qed

lemma lc_get_map: "context_ok c \<Longrightarrow> lc_get key c = handle_map c key"
  by (simp add: lc_get_def entries_get_map context_ok_def)

lemma remove_handle_map:
  assumes "context_ok c"
  shows "context_ok (lc_remove_handle h c)" and "value_map (lc_remove_handle h c) = value_map c"
    and "handle_map (lc_remove_handle h c) key = (if handle_map c key = Some h then None else handle_map c key)"
  using assms by (auto simp: lc_remove_handle_def context_ok_def entries_retain_ok entries_retain_map split: option.splits)

lemma remove_handle_ran: "context_ok c \<Longrightarrow> ran (handle_map (lc_remove_handle h c)) = ran (handle_map c) - {h}"
  by (force simp: ran_def remove_handle_map)

lemma lc_set_spec:
  assumes "context_ok c" and "lc_set grow key h c = (ok, c')"
  shows "context_ok c'" and "handle_map c' = (if ok then (handle_map c)(key \<mapsto> h) else handle_map c)"
    and "value_map c' = value_map c"
  using assms entries_insert_spec [of "lc_handles c" grow key h]
  by (auto simp: lc_set_def context_ok_def map_prod_def split: if_splits prod.splits)

lemma lc_set_value_spec:
  assumes "context_ok c" and "lc_set_value grow key v c = (ok, c')"
  shows "context_ok c'" and "handle_map c' = handle_map c"
    and "value_map c' = (if ok then (value_map c)(key \<mapsto> v) else value_map c)"
  using assms entries_insert_spec [of "lc_values c" grow key v]
  by (auto simp: lc_set_value_def context_ok_def map_prod_def split: if_splits prod.splits)

lemma lc_take_spec:
  assumes "context_ok c"
  shows "context_ok (snd (lc_take key c))" and "handle_map (snd (lc_take key c)) = (handle_map c)(key := None)"
  using assms entries_remove_spec [of "lc_handles c" key]
  by (auto simp: lc_take_def context_ok_def map_prod_def split: prod.splits)

lemma lc_remove_value_spec:
  assumes "context_ok c"
  shows "context_ok (snd (lc_remove_value key c))" and "handle_map (snd (lc_remove_value key c)) = handle_map c"
  using assms entries_remove_spec [of "lc_values c" key]
  by (auto simp: lc_remove_value_def context_ok_def map_prod_def split: prod.splits)

lemma references_handle_iff: "context_ok c \<Longrightarrow> lc_references_handle h c \<longleftrightarrow> h \<in> ran (handle_map c)"
proof -
  assume "context_ok c"
  then have "distinct (map fst (en_items (lc_handles c)))"
    by (auto simp: context_ok_def entries_ok_def keys_sorted_def strict_sorted_iff)
  then show ?thesis
    by (auto simp: lc_references_handle_def entries_values_def list_ex_iff entries_map_def ran_distinct image_iff)
qed

subsection \<open>Every operation keeps a process well formed\<close>

lemma more_handles_keeps:
  assumes "hproc_wf p" and "table_ok t" and "dom (published (hp_handles p)) \<subseteq> dom (published t)"
  shows "keeps p (p\<lparr>hp_handles := t\<rparr>)"
  using assms by (simp add: keeps_def hproc_wf_def launch_live_def) (meson order_trans)

lemma more_handles_ok:
  assumes "hproc_ok p" and "table_ok t" and "dom (published (hp_handles p)) \<subseteq> dom (published t)"
  shows "hproc_ok (p\<lparr>hp_handles := t\<rparr>)"
  by (rule keeps_ok [OF assms(1) more_handles_keeps [OF hproc_ok_wf [OF assms(1)] assms(2,3)]])

lemma close_in_keeps:
  assumes "hproc_wf p" and "close_in h p = (r, p')"
  shows "keeps p p'"
proof -
  obtain ok t where t: "table_close h (hp_handles p) = (ok, t)" by fastforce
  note spec = table_close_spec [OF hproc_wfD(1) [OF assms(1)] t]
  show ?thesis
  proof (cases ok)
    case True
    then have p': "p' = p\<lparr>hp_handles := t, hp_launch := lc_remove_handle h (hp_launch p)\<rparr>"
      using assms(2) t by (simp add: close_in_def)
    show ?thesis
      by (rule keepsI) (use p' spec hproc_wfD(2) [OF assms(1)] remove_handle_map(1) [of "hp_launch p" h]
          remove_handle_ran [of "hp_launch p" h] in \<open>auto simp: launch_live_def\<close>)
  next
    case False
    then have "p' = p\<lparr>hp_handles := t\<rparr>" "published t = published (hp_handles p)"
      using assms(2) t spec by (auto simp: close_in_def fun_upd_idem_iff)
    then show ?thesis using spec assms(1) by (simp add: more_handles_keeps)
  qed
qed

lemma duplicate_in_keeps:
  assumes "hproc_wf p" and "duplicate_in mem h rights p = (r, p')"
  shows "keeps p p'"
proof -
  obtain d t where t: "table_duplicate_restricted mem h rights (hp_handles p) = (d, t)" by fastforce
  note spec = table_duplicate_spec [OF hproc_wfD(1) [OF assms(1)] t]
  then have "keeps p (p\<lparr>hp_handles := t\<rparr>)"
    by (intro more_handles_keeps assms(1)) (auto split: option.splits)
  then show ?thesis using assms t keeps_refl by (auto simp: duplicate_in_def split: option.splits if_splits)
qed

lemma context_set_in_keeps:
  assumes "hproc_wf p" and "context_set_in grow key h p = (r, p')"
  shows "keeps p p'"
proof (cases "table_get h (hp_handles p)")
  case None
  then show ?thesis using assms by (simp add: context_set_in_def keeps_refl)
next
  case (Some e)
  obtain ok c where c: "lc_set grow key h (hp_launch p) = (ok, c)" by fastforce
  have h: "h \<in> dom (published (hp_handles p))"
    using Some table_get_published [OF hproc_wfD(1) [OF assms(1)]] by auto
  have p': "p' = p\<lparr>hp_launch := c\<rparr>" using assms(2) Some c by (auto simp: context_set_in_def split: bool.splits)
  moreover have "ran (handle_map c) \<subseteq> insert h (ran (handle_map (hp_launch p)))"
    using lc_set_spec(2) [OF hproc_wfD(2) [OF assms(1)] c] by (auto simp: ran_def split: if_splits)
  ultimately show ?thesis
    using assms(1) h lc_set_spec(1) [OF hproc_wfD(2) [OF assms(1)] c]
    by (intro keepsI) (auto simp: hproc_wfD launch_live_def)
qed

lemma same_context_keeps:
  assumes "hproc_wf p" and "context_ok c" and "ran (handle_map c) \<subseteq> ran (handle_map (hp_launch p))"
  shows "keeps p (p\<lparr>hp_launch := c\<rparr>)"
  using assms by (intro keepsI) (auto simp: hproc_wfD launch_live_def)

lemma context_removals_keep:
  assumes "hproc_wf p"
  shows "keeps p (p\<lparr>hp_launch := snd (lc_take key (hp_launch p))\<rparr>)"
    and "keeps p (p\<lparr>hp_launch := snd (lc_remove_value key (hp_launch p))\<rparr>)"
  using lc_take_spec [OF hproc_wfD(2) [OF assms], of key] lc_remove_value_spec [OF hproc_wfD(2) [OF assms], of key]
  by (auto intro!: same_context_keeps assms simp: ran_def split: if_splits)

lemma context_value_set_keeps:
  assumes "hproc_wf p" and "lc_set_value grow key v (hp_launch p) = (ok, c)"
  shows "keeps p (p\<lparr>hp_launch := c\<rparr>)"
  using lc_set_value_spec [OF hproc_wfD(2) [OF assms(1)] assms(2)] by (intro same_context_keeps assms(1)) simp_all

lemma insert_keeps:
  assumes "hproc_wf p" and "table_insert mem e (hp_handles p) = (h, t)"
  shows "keeps p (p\<lparr>hp_handles := t\<rparr>)"
  using table_insert_spec [OF hproc_wfD(1) [OF assms(1)] assms(2)]
  by (intro more_handles_keeps assms(1)) (auto split: option.splits)

lemma capture_in_keeps:
  assumes "hproc_wf p" and "capture_in mem_records new_arc mem p = (r, p')"
  shows "keeps p p'"
proof (cases "table_capture mem_records (hp_handles p) = None \<or> new_arc = None")
  case True
  then show ?thesis using assms keeps_refl by (auto simp: capture_in_def split: option.splits)
next
  case False
  then obtain s a where sa: "table_capture mem_records (hp_handles p) = Some s" "new_arc = Some a" by auto
  obtain h t where t: "table_insert mem \<lparr>he_object = O_HandleSnapshot a, he_rights = capture_rights\<rparr> (hp_handles p) = (h, t)"
    by fastforce
  show ?thesis using insert_keeps [OF assms(1) t] assms(2) sa t by (auto simp: capture_in_def split: option.splits)
qed

lemma patched_handles:
  assumes "context_ok c" and us: "\<forall>u\<in>set us. update_validate u = None" "keys_unique us"
    and "lc_patched mem_handles mem_values grow us valid_handle c = Inr c'"
  shows "context_ok c'" and "\<And>h. h \<in> ran (handle_map c') \<Longrightarrow> h \<in> ran (handle_map c) \<or> valid_handle h"
proof -
  note result = patched_result [OF assms(1) us, of valid_handle mem_handles mem_values grow]
  have fits: "handles_valid valid_handle us" using result assms(4) by (auto split: if_splits)
  have c': "context_ok c'" "handle_map c' = fold set_handle us (handle_map c |` (- keys_of REMOVE_HANDLE us))"
    using result assms(4) by (auto split: if_splits)
  show "context_ok c'" by (rule c')
  fix h assume "h \<in> ran (handle_map c')"
  then obtain k where k: "handle_map c' k = Some h" by (auto simp: ran_def)
  show "h \<in> ran (handle_map c) \<or> valid_handle h"
  proof (cases "k \<in> keys_of SET_HANDLE us")
    case True
    then obtain u where u: "u \<in> set us" "cu_kind u = SET_HANDLE" "k = cu_key u" by auto
    then have "h = ucast (cu_value u)" using k c'(2) fold_set_handle_at [OF us(2)] by simp
    then show ?thesis using fits u by (simp add: handles_valid_def)
  next
    case False
    then have "handle_map c k = Some h"
      using k c'(2) by (auto simp: fold_set_handle_other restrict_map_def split: if_splits)
    then show ?thesis by (auto simp: ran_def)
  qed
qed

lemma table_retain_spec:
  assumes "table_ok t"
  shows "table_ok (table_retain keep t)" and "ht_pending (table_retain keep t) = ht_pending t"
    and "published (table_retain keep t) = published t |` Collect keep"
proof -
  have "distinct (map fst (ht_entries t))"
    using assms by (auto simp: table_ok_def keys_sorted_def strict_sorted_iff)
  then show "published (table_retain keep t) = published t |` Collect keep"
    by (auto simp: fun_eq_iff table_retain_def map_of_filter_pairs restrict_map_def split: option.splits)
qed (use table_ok_retain [OF assms] in \<open>auto simp: table_retain_def\<close>)

lemma commit_image_spec:
  assumes "hproc_wf p" and "\<And>c. next_context = Some c \<Longrightarrow> context_ok c"
    and "\<And>c. next_context = Some c \<Longrightarrow> launch_live p \<Longrightarrow> ran (handle_map c) \<subseteq> dom (published (hp_handles p))"
    and p': "p' = commit_image_context next_context p"
  shows "hproc_wf p'" and "published (hp_handles p') = published (hp_handles p) |` ran (handle_map (hp_launch p'))"
    and "ht_pending (hp_handles p') = ht_pending (hp_handles p)"
    and "launch_live p \<Longrightarrow> dom (published (hp_handles p')) = ran (handle_map (hp_launch p'))"
proof -
  define q where "q = (case next_context of Some c \<Rightarrow> p\<lparr>hp_launch := c\<rparr> | None \<Rightarrow> p)"
  have q: "hproc_wf q" "hp_handles q = hp_handles p" "launch_live p \<Longrightarrow> launch_live q"
    using assms(1-3) by (auto simp: q_def hproc_wf_def launch_live_def split: option.splits)
  have commit: "p' = q\<lparr>hp_handles := table_retain (\<lambda>h. lc_references_handle h (hp_launch q)) (hp_handles q)\<rparr>"
    by (simp add: p' commit_image_context_def retain_launch_context_handles_for_exec_def q_def)
  have keep: "Collect (\<lambda>h. lc_references_handle h (hp_launch q)) = ran (handle_map (hp_launch q))"
    using references_handle_iff [OF hproc_wfD(2) [OF q(1)]] by auto
  note spec = table_retain_spec [OF hproc_wfD(1) [OF q(1)], of "\<lambda>h. lc_references_handle h (hp_launch q)", unfolded keep]
  show "hproc_wf p'" using q(1) spec by (auto simp: commit hproc_wf_def)
  show "published (hp_handles p') = published (hp_handles p) |` ran (handle_map (hp_launch p'))"
    using spec(3) by (simp add: commit q(2))
  show "ht_pending (hp_handles p') = ht_pending (hp_handles p)" using spec(2) by (simp add: commit q(2))
  show "dom (published (hp_handles p')) = ran (handle_map (hp_launch p'))" if "launch_live p"
    using q(3) [OF that] by (auto simp: commit spec launch_live_def)
qed

lemma prepared_context:
  assumes "hproc_wf p" and us: "\<forall>u\<in>set us. update_validate u = None" "keys_unique us"
    and "prepare_next_context mem_handles mem_values grow us p = Inr (Some c)"
  shows "context_ok c" and "launch_live p \<Longrightarrow> ran (handle_map c) \<subseteq> dom (published (hp_handles p))"
proof -
  from assms(4) have "lc_patched mem_handles mem_values grow us (\<lambda>h. table_get h (hp_handles p) \<noteq> None) (hp_launch p) = Inr c"
    by (cases "lc_patched mem_handles mem_values grow us (\<lambda>h. table_get h (hp_handles p) \<noteq> None) (hp_launch p)")
      (auto simp: prepare_next_context_def split: if_splits)
  note patched = patched_handles [OF hproc_wfD(2) [OF assms(1)] us this]
  show "context_ok c" by (rule patched)
  show "ran (handle_map c) \<subseteq> dom (published (hp_handles p))" if "launch_live p"
    using patched(2) that by (auto simp: launch_live_def table_get_published [OF hproc_wfD(1) [OF assms(1)]])
qed

lemma replace_image_handles_spec:
  assumes "hproc_wf p" and us: "\<forall>u\<in>set us. update_validate u = None" "keys_unique us"
    and run: "replace_image_handles outcomes us p = (r, p')"
  shows "case r of
     Inl _ \<Rightarrow> p' = p
   | Inr _ \<Rightarrow> hproc_wf p' \<and> published (hp_handles p') = published (hp_handles p) |` ran (handle_map (hp_launch p')) \<and>
       ht_pending (hp_handles p') = ht_pending (hp_handles p) \<and>
       (launch_live p \<longrightarrow> dom (published (hp_handles p')) = ran (handle_map (hp_launch p')))"
proof (cases r)
  case (Inl e)
  then show ?thesis
    using run by (auto simp: replace_image_handles_def split: sum.splits if_splits)
next
  case (Inr u)
  let ?prepared = "prepare_next_context (io_mem_handles outcomes) (io_mem_values outcomes) (io_grow outcomes) us p"
  obtain n where n: "?prepared = Inr n" "p' = commit_image_context n p"
    using run Inr by (auto simp: replace_image_handles_def split: sum.splits if_splits)
  have ready: "context_ok c" "launch_live p \<Longrightarrow> ran (handle_map c) \<subseteq> dom (published (hp_handles p))" if "n = Some c" for c
    using prepared_context [OF assms(1) us, of _ _ _ c] n(1) that by blast+
  from commit_image_spec [OF assms(1) ready n(2)] show ?thesis by (simp add: Inr)
qed

lemma replace_image_keeps:
  assumes "hproc_wf p" and us: "\<forall>u\<in>set us. update_validate u = None" "keys_unique us"
    and run: "replace_image_handles outcomes us p = (r, p')"
  shows "keeps p p'" and "published (hp_handles p') \<subseteq>\<^sub>m published (hp_handles p)"
    and "ht_pending (hp_handles p') = ht_pending (hp_handles p)"
proof -
  have "keeps p p' \<and> published (hp_handles p') \<subseteq>\<^sub>m published (hp_handles p) \<and>
    ht_pending (hp_handles p') = ht_pending (hp_handles p)"
  proof (cases r)
    case (Inl e)
    then have "p' = p" using replace_image_handles_spec [OF assms] by simp
    then show ?thesis using assms(1) by (simp add: keeps_refl)
  next
    case (Inr u)
    note spec = replace_image_handles_spec [OF assms, unfolded Inr sum.case]
    have "published (hp_handles p') \<subseteq>\<^sub>m published (hp_handles p)"
      unfolding spec [THEN conjunct2, THEN conjunct1] by (auto simp: map_le_def)
    moreover have "keeps p p'" unfolding keeps_def launch_live_def [of p'] using spec by (metis order_refl)
    ultimately show ?thesis using spec by blast
  qed
  then show "keeps p p'" and "published (hp_handles p') \<subseteq>\<^sub>m published (hp_handles p)"
    and "ht_pending (hp_handles p') = ht_pending (hp_handles p)" by blast+
qed

lemma unat_u32: "unat (h :: u32) < 2 ^ 32"
  using unsigned_less [of h, where 'a = nat] by simp

lemma unat_widen: "unat (ucast (h :: u32) :: u64) = unat h"
  using unat_u32 [of h] by (simp add: unsigned_ucast_eq take_bit_nat_eq_self)

lemma handle_from_ucast: "h \<noteq> 0 \<Longrightarrow> handle_from_u64 (ucast h) = Some h"
proof -
  assume "h \<noteq> 0"
  moreover have "unat (ucast h :: u64) < 2 ^ 32" using unat_u32 [of h] by (simp add: unat_widen)
  moreover have "ucast (ucast h :: u64) = h" by (rule bit_word_eqI) (simp add: bit_simps)
  ultimately show ?thesis by (simp add: handle_from_u64_def object_handle_from_raw_def)
qed

lemma not_error_native: "\<not> is_error (native r) \<Longrightarrow> \<exists>x. r = Some x \<and> native r = x"
  by (cases r) (auto simp: native_def is_error_into_raw)

lemma handle_from_u64_Some: "handle_from_u64 v = Some h \<Longrightarrow> h \<noteq> 0 \<and> v = ucast h"
proof -
  assume a: "handle_from_u64 v = Some h"
  then have h: "unat v < 2 ^ 32" "h = ucast v" "h \<noteq> 0"
    by (auto simp: handle_from_u64_def object_handle_from_raw_def split: if_splits)
  moreover have "unat h = take_bit 32 (unat v)" by (simp add: h(2) unsigned_ucast_eq)
  ultimately have "unat (ucast h :: u64) = unat v" by (simp only: unat_widen take_bit_nat_eq_self)
  then have "ucast h = v" by (simp add: word_unat_eq_iff)
  with h(3) show ?thesis by simp
qed

lemma handle_not_error: "\<not> is_error (ucast (h :: u32))"
proof -
  have "\<not> bit h 63" using bit_imp_le_length [of h 63] by auto
  then have "\<not> bit (ucast h :: u64) 63" by (simp add: bit_simps)
  then show ?thesis by (auto simp: is_error_high_bits)
qed

lemma object_with_rights_eq:
  assumes "hproc_wf p" and "handle_from_u64 raw = Some h"
  shows "ps pid = Some p \<Longrightarrow> object_with_rights_native (Some pid) raw required ps =
    (case published (hp_handles p) h of
       None \<Rightarrow> Inl InvalidArgument
     | Some e \<Rightarrow> if rights_contains (he_rights e) required then Inr (he_object e, he_rights e) else Inl AccessDenied)"
  using assms by (auto simp: object_with_rights_native_def with_process_def table_get_published hproc_wfD split: option.split)

lemma launch_get_eq:
  assumes "hproc_ok p"
  shows "ps pid = Some p \<Longrightarrow> launch_get (Some pid) key ps =
    (case handle_map (hp_launch p) key of None \<Rightarrow> into_raw NotFound | Some h \<Rightarrow> ucast h)"
  using hproc_okD [OF assms] by (auto simp: launch_get_def with_process_def native_def lc_get_map table_get_published split: option.split)

lemma widen_inj [simp]: "(ucast (a :: u32) :: u64) = ucast b \<longleftrightarrow> a = b"
  by (simp add: word_unat_eq_iff [where 'a = 64] unat_widen) (simp add: word_unat_eq_iff)

lemma into_raw_not_handle [simp]: "into_raw e \<noteq> ucast (h :: u32)"
  using handle_not_error [of h] is_error_into_raw [of e] by auto

text \<open>The context without the keys that name a handle.\<close>

definition forget_handle :: "object_handle \<Rightarrow> (u64 \<rightharpoonup> object_handle) \<Rightarrow> (u64 \<rightharpoonup> object_handle)" where
  "forget_handle h m = (\<lambda>key. if m key = Some h then None else m key)"

lemma close_in_effect:
  assumes "hproc_wf p" and "close_in h p = (r, p')"
  shows "if h \<in> dom (published (hp_handles p))
     then r = SUCCESS \<and> published (hp_handles p') = (published (hp_handles p))(h := None) \<and>
       ht_pending (hp_handles p') = ht_pending (hp_handles p) \<and>
       handle_map (hp_launch p') = forget_handle h (handle_map (hp_launch p)) \<and>
       value_map (hp_launch p') = value_map (hp_launch p) \<and> hp_object p' = hp_object p
     else r = into_raw InvalidArgument \<and> p' = p"
proof -
  obtain ok t where t: "table_close h (hp_handles p) = (ok, t)" by fastforce
  note spec = table_close_spec [OF hproc_wfD(1) [OF assms(1)] t]
  have same: "t = hp_handles p" if "\<not> ok" using t that by (auto simp: table_close_def split: sum.splits)
  show ?thesis
    using assms(2) t spec same remove_handle_map(2,3) [OF hproc_wfD(2) [OF assms(1)], of h]
    by (cases ok) (auto simp: close_in_def forget_handle_def)
qed

section \<open>Properties\<close>

text \<open>C30: closing a handle removes it everywhere and nothing else. For a selector that is published the
  call succeeds: exactly this entry leaves the caller's table, every key of the launch context that
  named it is gone while the other keys and all values stay, reservations are untouched, the selector no
  longer resolves for any right, and every other process is as before. For any other selector the call
  is refused and changes nothing.\<close>

theorem close_forgets_handle:
  assumes "ps pid = Some p" and "hproc_wf p" and "close (Some pid) raw ps = (r, ps')"
  shows "case handle_from_u64 raw of
      None \<Rightarrow> r = into_raw InvalidArgument \<and> ps' = ps
    | Some h \<Rightarrow>
        if h \<in> dom (published (hp_handles p))
        then r = SUCCESS \<and>
          (\<exists>p'. ps' = ps(pid \<mapsto> p') \<and> hproc_wf p' \<and>
            published (hp_handles p') = (published (hp_handles p))(h := None) \<and>
            ht_pending (hp_handles p') = ht_pending (hp_handles p) \<and>
            handle_map (hp_launch p') = forget_handle h (handle_map (hp_launch p)) \<and>
            value_map (hp_launch p') = value_map (hp_launch p) \<and> hp_object p' = hp_object p) \<and>
          object_with_rights_native (Some pid) raw required ps' = Inl InvalidArgument
        else r = into_raw InvalidArgument \<and> ps' = ps"
proof (cases "handle_from_u64 raw")
  case None
  then show ?thesis using assms(3) by (simp add: close_def)
next
  case h: (Some h)
  obtain x p' where run: "close_in h p = (x, p')" by fastforce
  with assms h have r: "r = x" "ps' = ps(pid \<mapsto> p')" by (auto simp: close_def with_process_mut_def native_def)
  note effect = close_in_effect [OF assms(2) run]
  have ok': "hproc_wf p'" using keeps_wf [OF close_in_keeps [OF assms(2) run]] .
  show ?thesis
  proof (cases "h \<in> dom (published (hp_handles p))")
    case True
    have at: "ps' pid = Some p'" by (simp add: r)
    have "object_with_rights_native (Some pid) raw required ps' = Inl InvalidArgument"
      using effect True by (simp add: object_with_rights_eq [where ps = ps' and pid = pid, OF ok' h at])
    then show ?thesis using effect True ok' by (auto simp: h r)
  next
    case False
    then show ?thesis using effect assms(1) by (auto simp: h r fun_upd_idem)
  qed
qed

definition demo_hproc :: hproc where
  "demo_hproc = \<lparr>hp_object = 7, hp_handles = demo_table,
     hp_launch = \<lparr>lc_handles = \<lparr>en_items = [(9, 1)], en_capacity = 4\<rparr>, lc_values = entries_new\<rparr>\<rparr>"

lemma demo_hproc_ok: "hproc_ok demo_hproc"
  using demo_table_ok
  by (intro hproc_okI) (auto simp: demo_hproc_def context_ok_def entries_ok_def keys_sorted_def entries_new_def entries_map_def
      ran_def demo_table_def split: if_splits)

lemma demo_handle: "handle_from_u64 1 = Some 1"
  by (simp add: handle_from_u64_def object_handle_from_raw_def)

lemma demo_close: "close (Some 7) 1 [7 \<mapsto> demo_hproc] =
    (SUCCESS, [7 \<mapsto> \<lparr>hp_object = 7, hp_handles = demo_table\<lparr>ht_entries := []\<rparr>,
                    hp_launch = \<lparr>lc_handles = \<lparr>en_items = [], en_capacity = 4\<rparr>, lc_values = entries_new\<rparr>\<rparr>])"
  by (simp add: close_def demo_handle with_process_mut_def close_in_def demo_hproc_def table_close_def demo_table_def
      binary_search_by_key_def search_base.simps vec_remove_def native_def lc_remove_handle_def entries_retain_def)

theorem close_forgets_handle_witness:
  "\<exists>p'. close (Some 7) 1 [7 \<mapsto> demo_hproc] = (SUCCESS, [7 \<mapsto> p']) \<and> published (hp_handles p') 1 = None \<and>
    handle_map (hp_launch demo_hproc) 9 = Some 1 \<and> handle_map (hp_launch p') 9 = None \<and>
    object_with_rights_native (Some 7) 1 R_READ [7 \<mapsto> p'] = Inl InvalidArgument"
proof -
  let ?p = "\<lparr>hp_object = 7, hp_handles = demo_table\<lparr>ht_entries := []\<rparr>,
      hp_launch = \<lparr>lc_handles = \<lparr>en_items = [], en_capacity = 4\<rparr>, lc_values = entries_new\<rparr>\<rparr>"
  have "1 \<in> dom (published (hp_handles demo_hproc))" by (simp add: demo_hproc_def demo_table_def)
  moreover have ctx: "handle_map (hp_launch demo_hproc) 9 = Some 1" by (simp add: demo_hproc_def entries_map_def)
  ultimately obtain p' where "[7 :: u64 \<mapsto> ?p] = [7 \<mapsto> p']" "published (hp_handles p') 1 = None" "handle_map (hp_launch p') 9 = None"
      "object_with_rights_native (Some 7) 1 R_READ [7 \<mapsto> ?p] = Inl InvalidArgument"
    using close_forgets_handle [OF _ hproc_ok_wf [OF demo_hproc_ok] demo_close, where required = R_READ]
    by (auto simp: demo_handle forget_handle_def)
  then show ?thesis using demo_close ctx by (metis map_upd_eqD1)
qed

lemma duplicate_in_handle:
  assumes "duplicate_in mem h requested p = (x, p')" and "\<not> is_error x"
  shows "\<exists>d t. table_duplicate_restricted mem h requested (hp_handles p) = (Some d, t) \<and> x = ucast d \<and>
    p' = p\<lparr>hp_handles := t\<rparr>"
proof (cases "table_get h (hp_handles p)")
  case None
  then show ?thesis using assms by (simp add: duplicate_in_def) (metis is_error_into_raw)
next
  case (Some e)
  obtain d t where dt: "table_duplicate_restricted mem h requested (hp_handles p) = (d, t)" by fastforce
  have "x = (if \<not> rights_contains (he_rights e) R_DUPLICATE \<or> \<not> rights_contains (he_rights e) requested
      then into_raw AccessDenied else case d of Some d \<Rightarrow> ucast d | None \<Rightarrow> into_raw ResourceUnavailable)"
    and p': "p' = (if \<not> rights_contains (he_rights e) R_DUPLICATE \<or> \<not> rights_contains (he_rights e) requested
      then p else p\<lparr>hp_handles := t\<rparr>)"
    using assms(1) Some dt by (auto simp: duplicate_in_def split: option.splits)
  with assms(2) show ?thesis
    by (cases d) (auto simp: dt is_error_into_raw split: if_splits)
qed

text \<open>C31: a duplicate names the same object with exactly the rights asked for. When the call returns a
  handle, the kernel reports the two handles as one object, the new one carries the requested
  rights, the source held them together with the right to duplicate, and the source keeps its own.\<close>

theorem duplicate_same_object:
  assumes "ps pid = Some p" and "hproc_ok p" and "duplicate mem (Some pid) raw requested ps = (r, ps')"
    and "\<not> is_error r"
  shows "r \<noteq> raw \<and> same_object (Some pid) raw r ps' = 1 \<and> rights_get (Some pid) r ps' = requested \<and>
    rights_contains (rights_get (Some pid) raw ps) (rights_union requested R_DUPLICATE) \<and>
    rights_get (Some pid) raw ps' = rights_get (Some pid) raw ps"
proof -
  from assms(3,4) obtain h where h: "handle_from_u64 raw = Some h"
    by (cases "handle_from_u64 raw") (auto simp: duplicate_def is_error_into_raw)
  from assms(3,4) h have rights: "rights_from_bits requested = Some requested"
    by (cases "rights_from_bits requested") (auto simp: duplicate_def is_error_into_raw rights_from_bits_def split: if_splits)
  obtain x p' where run: "duplicate_in mem h requested p = (x, p')" by fastforce
  with assms(1,3) h rights have r: "r = x" "ps' = ps(pid \<mapsto> p')"
    by (auto simp: duplicate_def with_process_mut_def native_def)
  have x: "\<not> is_error x" using assms(4) r by simp
  from duplicate_in_handle [OF run x] obtain d t where
    d: "table_duplicate_restricted mem h requested (hp_handles p) = (Some d, t)" "x = ucast d" "p' = p\<lparr>hp_handles := t\<rparr>"
    by (elim exE conjE) (rule that)
  from table_duplicate_spec [OF hproc_okD(1) [OF assms(2)] d(1)] obtain e where
    e: "table_ok t" "published (hp_handles p) h = Some e" "rights_contains (he_rights e) R_DUPLICATE"
      "rights_contains (he_rights e) requested" "published (hp_handles p) d = None"
      "published t = (published (hp_handles p))(d \<mapsto> \<lparr>he_object = he_object e, he_rights = requested\<rparr>)"
    by auto
  have nonzero: "d \<noteq> 0" using e by (auto simp: table_ok_def selector_ok_def)
  have "d \<noteq> h" using e(2,5) by auto
  then have "r \<noteq> raw" using handle_from_u64_Some [OF h] r(1) d(2) by auto
  moreover have "ps' pid = Some (p\<lparr>hp_handles := t\<rparr>)" by (simp add: r d(3))
  ultimately show ?thesis
    using assms(1) e h handle_from_ucast [OF nonzero] table_get_published [OF e(1)] \<open>d \<noteq> h\<close>
      table_get_published [OF hproc_okD(1) [OF assms(2)]]
    by (simp add: same_object_def rights_get_def with_process_def native_def r(1) d(2) is_same_object_iff hr.contains_union_iff)
qed

lemmas right_bits = R_READ_def R_WRITE_def R_SEND_def R_RECEIVE_def R_WAIT_def R_SIGNAL_def R_MAP_def R_SEEK_def
  R_CONTROL_def R_DUPLICATE_def R_TRANSFER_def

definition demo_duplicated :: handle_table where
  "demo_duplicated = demo_table\<lparr>ht_entries := [(1, demo_entry), (2, \<lparr>he_object = O_File 1, he_rights = R_READ\<rparr>)], ht_next := 3\<rparr>"

lemma demo_selector: "free_selector demo_table = (Some (2, 1), demo_table\<lparr>ht_next := 3\<rparr>)"
proof -
  have "PROCESS_MAX_OBJECT_HANDLES = Suc 4095" by (simp add: PROCESS_MAX_OBJECT_HANDLES_def)
  then have "free_selector demo_table = free_selector_loop (Suc 4095) demo_table" by (simp only: free_selector_def)
  also have "\<dots> = (Some (2, 1), demo_table\<lparr>ht_next := 3\<rparr>)"
    unfolding free_selector_loop.simps
    by (simp add: demo_table_def clamp_selector_def next_selector_def handle_pending_def search_base.simps
        binary_search_by_key_def Let_def PROCESS_MAX_OBJECT_HANDLES_def)
  finally show ?thesis .
qed

lemma demo_duplicate_in: "duplicate_in True 1 R_READ demo_hproc = (2, demo_hproc\<lparr>hp_handles := demo_duplicated\<rparr>)"
proof -
  have get: "table_get 1 demo_table = Some demo_entry"
    by (simp add: table_get_def demo_table_def binary_search_by_key_def search_base.simps)
  have rights: "rights_contains (he_rights demo_entry) R_DUPLICATE" "rights_contains (he_rights demo_entry) R_READ"
    by (simp_all add: demo_entry_def rights_contains_def right_bits)
  have ins: "table_insert True e demo_table = (Some 2, (demo_table\<lparr>ht_next := 3\<rparr>)\<lparr>ht_entries := [(1, demo_entry), (2, e)]\<rparr>)" for e
    by (simp add: table_insert_def demo_selector) (simp add: reserve_publication_storage_def demo_table_def vec_insert_def
        PROCESS_MAX_OBJECT_HANDLES_def)
  have p: "hp_handles demo_hproc = demo_table" by (simp add: demo_hproc_def)
  have e: "he_object demo_entry = O_File 1" by (simp add: demo_entry_def)
  show ?thesis
    by (simp add: rights duplicate_in_def p get table_duplicate_restricted_def entry_restricted_def ins)
      (simp add: demo_duplicated_def demo_table_def demo_entry_def)
qed

lemma demo_duplicate: "duplicate True (Some 7) 1 R_READ [7 \<mapsto> demo_hproc] = (2, [7 \<mapsto> demo_hproc\<lparr>hp_handles := demo_duplicated\<rparr>])"
proof -
  have "rights_from_bits R_READ = Some R_READ"
    by (simp add: rights_from_bits_def R_ALL_def rights_union_def right_bits)
  then show ?thesis by (simp add: duplicate_def demo_handle with_process_mut_def demo_duplicate_in native_def)
qed

theorem duplicate_same_object_witness:
  "\<exists>ps'. duplicate True (Some 7) 1 R_READ [7 \<mapsto> demo_hproc] = (2, ps') \<and> same_object (Some 7) 1 2 ps' = 1 \<and>
    rights_get (Some 7) 2 ps' = R_READ"
proof -
  have "\<not> is_error 2" by (simp add: is_error_def STATUS_MASK_def STATUS_TAG_def)
  from duplicate_same_object [OF _ demo_hproc_ok demo_duplicate this] show ?thesis by (auto simp: demo_duplicate)
qed

text \<open>C34: reading the table and reading a capture of it give the same bytes. A caller whose capacity
  suffices reads exactly the records of the wire format of a capture taken at that moment, and
  their number; a smaller capacity is refused, and capacity 0 only asks for the number.\<close>

theorem table_read_matches_capture:
  assumes "ps pid = Some p" and "hproc_ok p" and "table_capture True (hp_handles p) = Some s"
    and "user_output = 0 \<longleftrightarrow> capacity = 0" and "unat capacity \<le> PROCESS_MAX_OBJECT_HANDLES"
  shows "table_read True (\<lambda>_. Inr ()) (Some pid) user_output capacity ps =
    (if capacity = 0 then (of_nat (length s), [])
     else if unat capacity < length s then (into_raw LimitExceeded, [])
     else (of_nat (length s), drop HEADER_LEN (snapshot_wire s)))"
proof -
  have s: "s = map (\<lambda>(h, e). \<lparr>ch_handle = h, ch_rights = he_rights e,
      ch_exportable = (if rights_contains (he_rights e) R_TRANSFER then Some e else None)\<rparr>) (ht_entries (hp_handles p))"
    using assms(3) by (simp add: table_capture_def snapshot_capture_def)
  then have len: "length s = length (table_describe (hp_handles p))" by (simp add: table_describe_def)
  have "length s \<le> PROCESS_MAX_OBJECT_HANDLES"
    using hproc_okD(1) [OF assms(2)] by (simp add: len table_describe_def table_ok_def)
  then have small: "unat (of_nat (length s) :: u64) = length s"
    by (simp add: PROCESS_MAX_OBJECT_HANDLES_def unat_of_nat take_bit_nat_eq_self)
  have "concat (map table_record_bytes (table_describe (hp_handles p))) = concat (map snapshot_record s)"
    by (simp add: s table_describe_def table_record_bytes_def snapshot_record_layout case_prod_unfold comp_def)
  also have "\<dots> = drop HEADER_LEN (snapshot_wire s)" by (simp add: snapshot_wire_def HEADER_LEN_def)
  finally have bytes: "concat (map table_record_bytes (table_describe (hp_handles p))) = drop HEADER_LEN (snapshot_wire s)" .
  have "capacity < of_nat (length s) \<longleftrightarrow> unat capacity < length s" by (simp add: word_less_nat_alt small)
  then show ?thesis
    using assms(1,4,5) by (simp add: table_read_def with_process_def Let_def bytes len [symmetric])
qed

theorem table_read_matches_capture_witness:
  "\<exists>s. table_capture True demo_table = Some s \<and>
    table_read True (\<lambda>_. Inr ()) (Some 7) 0x1000 5 [7 \<mapsto> demo_hproc] = (1, drop HEADER_LEN (snapshot_wire s))"
proof -
  obtain s where s: "table_capture True (hp_handles demo_hproc) = Some s" "length s = 1"
    by (simp add: table_capture_def snapshot_capture_def demo_hproc_def demo_table_def)
  have "[7 \<mapsto> demo_hproc] 7 = Some demo_hproc" by simp
  from table_read_matches_capture [where ps = "[7 \<mapsto> demo_hproc]" and pid = 7 and user_output = "0x1000" and capacity = 5,
      OF this demo_hproc_ok s(1)] s
  show ?thesis by (simp add: PROCESS_MAX_OBJECT_HANDLES_def demo_hproc_def)
qed

text \<open>C32: an image replacement keeps exactly what the next launch context names. Committing the context
  updates of a decoded image closes every handle the resulting context does not name and opens
  none; a refused preparation leaves the process as it was.\<close>

theorem image_replacement_keeps_named_handles:
  assumes "decode bytes = Inr img" and "hproc_ok p"
    and "replace_image_handles outcomes (context_updates img) p = (r, p')"
  shows "case r of
     Inl _ \<Rightarrow> p' = p
   | Inr _ \<Rightarrow> hproc_ok p' \<and>
       (\<forall>h. published (hp_handles p') h =
          (if \<exists>key. lc_get key (hp_launch p') = Some h then published (hp_handles p) h else None))"
proof -
  note us = decoded_updates [OF assms(1)]
  note spec = replace_image_handles_spec [OF hproc_ok_wf [OF assms(2)] us assms(3)]
  show ?thesis
  proof (cases r)
    case (Inl e)
    then show ?thesis using spec by simp
  next
    case (Inr u)
    have "hproc_ok p'" using keeps_ok [OF assms(2) replace_image_keeps(1) [OF hproc_ok_wf [OF assms(2)] us assms(3)]] .
    then show ?thesis
      using spec by (auto simp: Inr lc_get_map [OF hproc_okD(2)] restrict_map_def ran_def)
  qed
qed

definition demo_outcomes :: image_outcomes where
  "demo_outcomes = \<lparr>io_authorized = Inr (), io_mem_handles = True, io_mem_values = True, io_grow = (\<lambda>_. True),
     io_revision = Some 2, io_generation = Some 5, io_released = Inr ()\<rparr>"

lemma demo_replaced:
  "replace_image_handles demo_outcomes (context_updates demo_image) (demo_hproc\<lparr>hp_handles := demo_duplicated\<rparr>) =
     (Inr (), demo_hproc\<lparr>hp_handles := demo_table\<lparr>ht_next := 3\<rparr>\<rparr>)"
proof -
  have "context_updates demo_image = []"
    by (simp add: encoded_image_def context_updates_def image_consts no_records)
  then show ?thesis
    by (simp add: replace_image_handles_def demo_outcomes_def prepare_next_context_def commit_image_context_def
        retain_launch_context_handles_for_exec_def demo_hproc_def table_retain_def demo_duplicated_def demo_table_def
        lc_references_handle_def entries_values_def)
qed

lemma demo_duplicated_ok: "hproc_ok (demo_hproc\<lparr>hp_handles := demo_duplicated\<rparr>)"
  using keeps_ok [OF demo_hproc_ok duplicate_in_keeps [OF hproc_ok_wf [OF demo_hproc_ok] demo_duplicate_in]] .

theorem image_replacement_keeps_named_handles_witness:
  "hproc_ok (demo_hproc\<lparr>hp_handles := demo_table\<lparr>ht_next := 3\<rparr>\<rparr>) \<and>
   published (demo_table\<lparr>ht_next := 3\<rparr>) 2 =
     (if \<exists>key. lc_get key (hp_launch demo_hproc) = Some 2 then published demo_duplicated 2 else None)"
proof -
  have "decode (image_bytes VERSION demo_image) = Inr demo_image"
    by (rule decode_extended [OF demo_image_shape demo_image_check])
  from image_replacement_keeps_named_handles [OF this demo_duplicated_ok demo_replaced] show ?thesis by simp
qed

end
