(* ===== verification/Handle_Delivery.thy ===== *)
theory Handle_Delivery
  imports Handle_Syscalls
begin

text \<open>
  Passing objects between processes: the handles attached to an IPC message
  (\<^verbatim>\<open>src/syscall/ipc.rs\<close>) and the handles a new process inherits (\<^verbatim>\<open>src/syscall/exec.rs\<close>,
  \<^verbatim>\<open>src/syscall/exec/captured_handles.rs\<close>).

  A delivery reserves a selector for each attached entry, copies the selectors to the receiver
  and then publishes all of them. It takes the lock of the process table three times; what other
  threads do in between is an argument of the model, a function on the process table. The
  reservations a thread leaves behind are taken back when it exits
  (\<^verbatim>\<open>src/task/thread.rs\<close>).
\<close>

definition MAX_OBJECT_HANDLES :: nat where
  "MAX_OBJECT_HANDLES = 4"

definition ATTACHMENTS_LEN :: nat where
  "ATTACHMENTS_LEN = 8 + MAX_OBJECT_HANDLES * 16"

record attachments =
  oa_count :: nat
  oa_delivery_flags :: u32
  oa_handles :: "handle_entry option list"

definition attachments_empty :: attachments where
  "attachments_empty = \<lparr>oa_count = 0, oa_delivery_flags = 0, oa_handles = replicate MAX_OBJECT_HANDLES None\<rparr>"

section \<open>Sending\<close>

definition export_object_handle :: "u64 \<Rightarrow> object_handle \<Rightarrow> handle_rights \<Rightarrow> hprocs \<Rightarrow> u64 + handle_entry" where
  "export_object_handle pid h requested ps =
     (case with_process ps pid (\<lambda>p.
        case table_get h (hp_handles p) of
          None \<Rightarrow> Inl (into_raw InvalidArgument)
        | Some source \<Rightarrow>
            if \<not> rights_contains (he_rights source) R_TRANSFER \<or> \<not> rights_contains (he_rights source) requested
            then Inl (into_raw AccessDenied)
            else case table_export_restricted h requested (hp_handles p) of
                   Some e \<Rightarrow> Inr e | None \<Rightarrow> Inl (into_raw AccessDenied)) of
        Some r \<Rightarrow> r
      | None \<Rightarrow> Inl (into_raw NotReady))"

text \<open>One attached handle, at the given index of the request.\<close>

definition decode_attachment :: "u64 \<Rightarrow> u8 list \<Rightarrow> nat \<Rightarrow> hprocs \<Rightarrow> u64 + handle_entry" where
  "decode_attachment pid bytes index ps =
     (let offset = 8 + index * 16;
          raw = from_le_bytes (subslice offset 4 bytes) :: u32;
          item_reserved = from_le_bytes (subslice (offset + 4) 4 bytes) :: u32;
          requested_bits = from_le_bytes (subslice (offset + 8) 8 bytes) :: u64
      in if item_reserved \<noteq> 0 then Inl (into_raw InvalidArgument)
         else case object_handle_from_raw raw of
                None \<Rightarrow> Inl (into_raw InvalidArgument)
              | Some h \<Rightarrow>
                  (case rights_from_bits requested_bits of
                     None \<Rightarrow> Inl (into_raw InvalidArgument)
                   | Some requested \<Rightarrow> export_object_handle pid h requested ps))"

text \<open>
  The process table is locked for each attachment on its own: \<open>ps index\<close> is the table as the
  iteration finds it.
\<close>

fun decode_attachments :: "u64 \<Rightarrow> u8 list \<Rightarrow> nat list \<Rightarrow> (nat \<Rightarrow> hprocs) \<Rightarrow> attachments \<Rightarrow> u64 + attachments" where
  "decode_attachments pid bytes [] ps acc = Inr acc"
| "decode_attachments pid bytes (index # rest) ps acc =
     (case decode_attachment pid bytes index (ps index) of
        Inl e \<Rightarrow> Inl e
      | Inr exported \<Rightarrow>
          decode_attachments pid bytes rest ps
            (acc\<lparr>oa_handles := (oa_handles acc)[index := Some exported], oa_count := oa_count acc + 1\<rparr>))"

definition decode_outgoing_object_handles ::
  "(u64 \<Rightarrow> status_error + u8 list) \<Rightarrow> u64 option \<Rightarrow> u64 \<Rightarrow> (nat \<Rightarrow> hprocs) \<Rightarrow> u64 + attachments" where
  "decode_outgoing_object_handles copy cur pointer ps =
     (if pointer = 0 then Inl (into_raw InvalidAddress)
      else case copy pointer of
        Inl e \<Rightarrow> Inl (into_raw e)
      | Inr bytes \<Rightarrow>
          let cnt = unat (from_le_bytes (subslice 0 4 bytes) :: u32);
              delivery_flags = from_le_bytes (subslice 4 4 bytes) :: u32
          in if cnt > MAX_OBJECT_HANDLES \<or> delivery_flags \<noteq> 0 then Inl (into_raw InvalidArgument)
             else case cur of
                    None \<Rightarrow> Inl (into_raw NotReady)
                  | Some pid \<Rightarrow> decode_attachments pid bytes [0..<cnt] ps attachments_empty)"

section \<open>Receiving\<close>

text \<open>
  The reservation loop, over the indices left: the entries not yet taken, the tickets, the
  answer for the receiver and the table. \<open>mem index\<close> says whether the storage of the
  iteration can be had.
\<close>

record admission =
  ad_handles :: "handle_entry option list"
  ad_reserved :: "handle_reservation option list"
  ad_output :: "u8 list"
  ad_table :: handle_table

fun admit_loop :: "(nat \<Rightarrow> bool \<times> bool) \<Rightarrow> u64 \<Rightarrow> nat list \<Rightarrow> admission \<Rightarrow> (u64 + unit) \<times> admission" where
  "admit_loop mem tid [] a = (Inr (), a)"
| "admit_loop mem tid (index # rest) a =
     (case ad_handles a ! index of
        None \<Rightarrow> (Inl (into_raw BackingFailure), a)
      | Some e \<Rightarrow>
          (case table_reserve (fst (mem index)) (snd (mem index)) tid e (ad_table a) of
             (Inl e', t) \<Rightarrow>
               (Inl (into_raw ResourceUnavailable), a\<lparr>ad_handles := (ad_handles a)[index := Some e'], ad_table := t\<rparr>)
           | (Inr ticket, t) \<Rightarrow>
               let offset = 8 + index * 16
               in admit_loop mem tid rest
                    (a\<lparr>ad_handles := (ad_handles a)[index := None],
                       ad_reserved := (ad_reserved a)[index := Some ticket],
                       ad_output := slice_write (offset + 8) (to_le_bytes (he_rights e))
                         (slice_write offset (to_le_bytes (hr_handle ticket)) (ad_output a)),
                       ad_table := t\<rparr>)))"

definition admission_start :: "attachments \<Rightarrow> handle_table \<Rightarrow> admission" where
  "admission_start at t =
     \<lparr>ad_handles = oa_handles at, ad_reserved = replicate MAX_OBJECT_HANDLES None,
      ad_output = slice_write 4 (to_le_bytes (oa_delivery_flags at))
        (slice_write 0 (to_le_bytes (of_nat (oa_count at) :: u32)) (replicate ATTACHMENTS_LEN 0)),
      ad_table = t\<rparr>"

definition admit_in :: "(nat \<Rightarrow> bool \<times> bool) \<Rightarrow> u64 \<Rightarrow> attachments \<Rightarrow> hproc \<Rightarrow>
    ((u64 + unit) \<times> handle_reservation option list \<times> u8 list) \<times> hproc" where
  "admit_in mem tid at p =
     (case admit_loop mem tid [0..<oa_count at] (admission_start at (hp_handles p)) of
        (r, a) \<Rightarrow> ((r, ad_reserved a, ad_output a), p\<lparr>hp_handles := ad_table a\<rparr>))"

text \<open>The publication loop: \<open>earlier\<close> has been published and is taken back when a later one fails.\<close>

fun publish_loop :: "handle_reservation list \<Rightarrow> handle_reservation list \<Rightarrow> handle_table \<Rightarrow> (u64 + unit) \<times> handle_table" where
  "publish_loop earlier [] t = (Inr (), t)"
| "publish_loop earlier (ticket # rest) t =
     (case table_publish_reserved ticket t of
        (True, t') \<Rightarrow> publish_loop (earlier @ [ticket]) rest t'
      | (False, t') \<Rightarrow>
          (Inl (into_raw BackingFailure),
           fold (\<lambda>ticket t. snd (table_take_entry (hr_handle ticket) t)) earlier t'))"

definition publish_in :: "nat \<Rightarrow> handle_reservation option list \<Rightarrow> hproc \<Rightarrow> (u64 + unit) \<times> hproc" where
  "publish_in cnt reserved p =
     (if list_ex (\<lambda>ticket. ticket = None) (take cnt reserved) \<or>
         \<not> list_all (\<lambda>ticket. table_is_reserved ticket (hp_handles p)) (List.map_filter id (take cnt reserved))
      then (Inl (into_raw BackingFailure), p)
      else case publish_loop [] (List.map_filter id (take cnt reserved)) (hp_handles p) of
             (r, t) \<Rightarrow> (r, p\<lparr>hp_handles := t\<rparr>))"

definition cancel_in :: "handle_reservation option list \<Rightarrow> hproc \<Rightarrow> unit \<times> hproc" where
  "cancel_in tickets p =
     ((), p\<lparr>hp_handles :=
        fold (\<lambda>ticket t. case ticket of None \<Rightarrow> t | Some ticket \<Rightarrow> snd (table_cancel_reserved ticket t))
          tickets (hp_handles p)\<rparr>)"

definition cancel_received_reservations :: "u64 \<Rightarrow> handle_reservation option list \<Rightarrow> hprocs \<Rightarrow> hprocs" where
  "cancel_received_reservations pid tickets ps = snd (with_process_mut ps pid (cancel_in tickets))"

text \<open>
  \<open>env\<close> is what the other threads do between the reservation and the next lock (the copy to user
  memory is in between), \<open>env'\<close> what they do between the publication and a cancellation.
\<close>

definition install_received_object_handles ::
  "(u64 \<Rightarrow> u64 option) \<Rightarrow> (nat \<Rightarrow> bool \<times> bool) \<Rightarrow> (hprocs \<Rightarrow> hprocs) \<Rightarrow> (u8 list \<Rightarrow> status_error + unit) \<Rightarrow>
     (hprocs \<Rightarrow> hprocs) \<Rightarrow> u64 \<Rightarrow> attachments \<Rightarrow> hprocs \<Rightarrow> (u64 + unit) \<times> hprocs" where
  "install_received_object_handles thread_to_process mem env copy env' receiver at ps =
     (if oa_count at > MAX_OBJECT_HANDLES \<or> list_ex (\<lambda>e. e = None) (take (oa_count at) (oa_handles at))
      then (Inl (into_raw BackingFailure), ps)
      else case thread_to_process receiver of
        None \<Rightarrow> (Inl (into_raw NotReady), ps)
      | Some pid \<Rightarrow>
          (case with_process_mut ps pid (admit_in mem receiver at) of
             (None, ps1) \<Rightarrow> (Inl (into_raw NotReady), ps1)
           | (Some (Inl e, reserved, _), ps1) \<Rightarrow>
               (Inl e, cancel_received_reservations pid reserved (env ps1))
           | (Some (Inr _, reserved, user_output), ps1) \<Rightarrow>
               (case copy user_output of
                  Inl e \<Rightarrow> (Inl (into_raw e), cancel_received_reservations pid reserved (env ps1))
                | Inr _ \<Rightarrow>
                    (case with_process_mut (env ps1) pid (publish_in (oa_count at) reserved) of
                       (None, ps2) \<Rightarrow> (Inl (into_raw NotReady), ps2)
                     | (Some (Inr _), ps2) \<Rightarrow> (Inr (), ps2)
                     | (Some (Inl e), ps2) \<Rightarrow> (Inl e, cancel_received_reservations pid reserved (env' ps2))))))"

text \<open>The reservations of an exiting thread, taken one at a time until none is left.\<close>

function drain_reservations :: "u64 \<Rightarrow> handle_table \<Rightarrow> handle_entry list \<times> handle_table" where
  "drain_reservations owner t =
     (case table_take_reservation_for owner t of
        (Some e, t') \<Rightarrow> map_prod ((#) e) id (drain_reservations owner t')
      | (None, t') \<Rightarrow> ([], t'))"
  by pat_completeness auto

lemma take_reservation_shrinks:
  assumes "table_take_reservation_for owner t = (Some e, t')"
  shows "length (ht_pending t') < length (ht_pending t)"
proof -
  from assms obtain i where i: "position (\<lambda>(candidate, _). hr_owner candidate = owner) (ht_pending t) = Some i"
    "t' = t\<lparr>ht_pending := vec_swap_remove i (ht_pending t)\<rparr>"
    by (auto simp: table_take_reservation_for_def split: option.splits)
  from position_Some [OF i(1)] show ?thesis by (simp add: i(2) vec_swap_remove_def) linarith
qed

termination drain_reservations
  by (relation "measure (\<lambda>(_, t). length (ht_pending t))") (auto dest!: sym take_reservation_shrinks)

declare drain_reservations.simps [simp del]

definition clear_reservations :: "u64 \<Rightarrow> u64 \<Rightarrow> hprocs \<Rightarrow> hprocs" where
  "clear_reservations pid tid ps =
     snd (with_process_mut ps pid (\<lambda>p. ((), p\<lparr>hp_handles := snd (drain_reservations tid (hp_handles p))\<rparr>)))"

section \<open>Inheriting\<close>

record inherited_handle_spec =
  is_key :: u64
  is_source :: object_handle
  is_target :: u32
  is_rights :: handle_rights

record inherited_handle_grant =
  ig_key :: u64
  ig_target :: u32
  ig_entry :: handle_entry

record inherited_value_spec =
  iv_key :: u64
  iv_value :: u64

fun export_specs :: "hproc \<Rightarrow> inherited_handle_spec list \<Rightarrow> status_error + inherited_handle_grant list" where
  "export_specs p [] = Inr []"
| "export_specs p (spec # specs) =
     (case table_get (is_source spec) (hp_handles p) of
        None \<Rightarrow> Inl InvalidArgument
      | Some source \<Rightarrow>
          if \<not> rights_contains (he_rights source) R_TRANSFER \<or> \<not> rights_contains (he_rights source) (is_rights spec)
          then Inl AccessDenied
          else case table_export_restricted (is_source spec) (is_rights spec) (hp_handles p) of
                 None \<Rightarrow> Inl AccessDenied
               | Some e \<Rightarrow>
                   map_sum id ((#) \<lparr>ig_key = is_key spec, ig_target = is_target spec, ig_entry = e\<rparr>) (export_specs p specs))"

definition export_inherited_handles ::
  "bool \<Rightarrow> u64 option \<Rightarrow> inherited_handle_spec list \<Rightarrow> hprocs \<Rightarrow> status_error + inherited_handle_grant list" where
  "export_inherited_handles mem source_process specs ps =
     (if specs = [] then Inr []
      else case source_process of
             None \<Rightarrow> Inl NotReady
           | Some pid \<Rightarrow>
               if \<not> mem then Inl ResourceUnavailable
               else case with_process ps pid (\<lambda>p. export_specs p specs) of
                      Some r \<Rightarrow> r | None \<Rightarrow> Inl NotReady)"

fun export_captured_specs :: "handle_snapshot \<Rightarrow> inherited_handle_spec list \<Rightarrow> status_error + inherited_handle_grant list" where
  "export_captured_specs s [] = Inr []"
| "export_captured_specs s (spec # specs) =
     (case snapshot_export_restricted (is_source spec) (is_rights spec) s of
        Inl ExportMissing \<Rightarrow> Inl InvalidArgument
      | Inl ExportDenied \<Rightarrow> Inl AccessDenied
      | Inr e \<Rightarrow>
          map_sum id ((#) \<lparr>ig_key = is_key spec, ig_target = is_target spec, ig_entry = e\<rparr>) (export_captured_specs s specs))"

text \<open>\<open>snapshots\<close> holds the captures by the address of their object.\<close>

definition export_captured ::
  "bool \<Rightarrow> (arc \<Rightarrow> handle_snapshot) \<Rightarrow> u64 option \<Rightarrow> u64 \<Rightarrow> inherited_handle_spec list \<Rightarrow> hprocs \<Rightarrow>
     status_error + inherited_handle_grant list" where
  "export_captured mem snapshots cur capture specs ps =
     (case object_native cur capture R_CONTROL ps of
        Inl e \<Rightarrow> Inl e
      | Inr obj \<Rightarrow>
          (case obj of
             O_HandleSnapshot a \<Rightarrow> if \<not> mem then Inl ResourceUnavailable else export_captured_specs (snapshots a) specs
           | _ \<Rightarrow> Inl InvalidArgument))"

definition install_grant ::
  "bool \<Rightarrow> bool \<Rightarrow> inherited_handle_grant \<Rightarrow> hproc \<Rightarrow> (status_error + unit) \<times> hproc" where
  "install_grant mem grow g p =
     (if lc_get (ig_key g) (hp_launch p) \<noteq> None then (Inl AlreadyExists, p)
      else
        (case
          (if ig_target g = 0 then
             (case table_insert mem (ig_entry g) (hp_handles p) of
                (Some h, t) \<Rightarrow> (Inr h, t)
              | (None, t) \<Rightarrow> (Inl ResourceUnavailable, t))
           else if ig_target g > of_nat PROCESS_MAX_OBJECT_HANDLES then (Inl InvalidArgument, hp_handles p)
           else
             (case object_handle_from_raw (ig_target g) of
                None \<Rightarrow> (Inl InvalidArgument, hp_handles p)
              | Some h \<Rightarrow>
                  if table_get h (hp_handles p) \<noteq> None then (Inl AlreadyExists, hp_handles p)
                  else
                    (case table_insert_at mem h (ig_entry g) (hp_handles p) of
                       (True, t) \<Rightarrow> (Inr h, t)
                     | (False, t) \<Rightarrow> (Inl ResourceUnavailable, t)))) of
           (Inl e, t) \<Rightarrow> (Inl e, p\<lparr>hp_handles := t\<rparr>)
         | (Inr h, t) \<Rightarrow>
             (case lc_install grow (ig_key g) h (hp_launch p) of
                (r, c) \<Rightarrow> (r, p\<lparr>hp_handles := t, hp_launch := c\<rparr>))))"

fun install_grants :: "(inherited_handle_grant \<Rightarrow> bool \<times> bool) \<Rightarrow> inherited_handle_grant list \<Rightarrow> hproc \<Rightarrow>
    (status_error + unit) \<times> hproc" where
  "install_grants mem [] p = (Inr (), p)"
| "install_grants mem (g # gs) p =
     (case install_grant (fst (mem g)) (snd (mem g)) g p of
        (Inl e, p') \<Rightarrow> (Inl e, p')
      | (Inr _, p') \<Rightarrow> install_grants mem gs p')"

text \<open>Explicit selectors are installed before automatic ones.\<close>

definition install_inherited_handles ::
  "(inherited_handle_grant \<Rightarrow> bool \<times> bool) \<Rightarrow> inherited_handle_grant list \<Rightarrow> hproc \<Rightarrow> (status_error + unit) \<times> hproc" where
  "install_inherited_handles mem grants p =
     install_grants mem (filter (\<lambda>g. ig_target g \<noteq> 0) grants @ filter (\<lambda>g. ig_target g = 0) grants) p"

fun install_inherited_values :: "(inherited_value_spec \<Rightarrow> bool) \<Rightarrow> inherited_value_spec list \<Rightarrow> hproc \<Rightarrow>
    (status_error + unit) \<times> hproc" where
  "install_inherited_values grow [] p = (Inr (), p)"
| "install_inherited_values grow (v # vs) p =
     (case lc_install_value (grow v) (iv_key v) (iv_value v) (hp_launch p) of
        (Inl e, c) \<Rightarrow> (Inl e, p\<lparr>hp_launch := c\<rparr>)
      | (Inr _, c) \<Rightarrow> install_inherited_values grow vs (p\<lparr>hp_launch := c\<rparr>))"

section \<open>Reservations and other threads\<close>

text \<open>
  A step of another thread is any operation of the table that publishes no reservation of the
  given owner.
\<close>

definition table_env :: "u64 \<Rightarrow> handle_table \<Rightarrow> handle_table \<Rightarrow> bool" where
  "table_env tid t t' \<longleftrightarrow> table_step t t' \<and>
     (\<forall>(ticket, e) \<in> set (ht_pending t). hr_owner ticket = tid \<longrightarrow> published t' (hr_handle ticket) = None)"

definition pending_kept :: "handle_table \<Rightarrow> handle_table \<Rightarrow> bool" where
  "pending_kept t t' \<longleftrightarrow> ht_next_reservation t \<le> ht_next_reservation t' \<and>
     (\<forall>x \<in> set (ht_pending t'). hr_identity (fst x) < ht_next_reservation t \<longrightarrow> x \<in> set (ht_pending t))"

lemma pending_kept_refl: "pending_kept t t"
  by (simp add: pending_kept_def)

lemma pending_kept_trans: "pending_kept t u \<Longrightarrow> pending_kept u v \<Longrightarrow> pending_kept t v"
  by (auto simp: pending_kept_def dest: less_le_trans)

lemma pending_keptI:
  "ht_next_reservation t' = ht_next_reservation t \<Longrightarrow> set (ht_pending t') \<subseteq> set (ht_pending t) \<Longrightarrow> pending_kept t t'"
  by (auto simp: pending_kept_def)

lemma insert_pending:
  assumes "table_ok t" and "table_insert mem e t = (r, t')"
  shows "pending_kept t t'"
proof -
  obtain sel u where u: "free_selector t = (sel, u)" by fastforce
  note spec = free_selector_spec(2,3) [OF assms(1) u]
  have "ht_pending t' = ht_pending t \<and> ht_next_reservation t' = ht_next_reservation t"
    using assms(2) u spec by (auto simp: table_insert_def split: if_splits option.splits prod.splits)
  then show ?thesis by (auto intro: pending_keptI)
qed

lemma reserve_pending:
  assumes "table_ok t" and "table_reserve mem pmem owner e t = (r, t')"
  shows "pending_kept t t'" and "r = Inr ticket \<Longrightarrow> hr_identity ticket < ht_next_reservation t'"
proof -
  obtain sel u where u: "free_selector t = (sel, u)" by fastforce
  note spec = free_selector_spec(2,3) [OF assms(1) u]
  have "pending_kept t t' \<and> (r = Inr ticket \<longrightarrow> hr_identity ticket < ht_next_reservation t')"
  proof (cases r)
    case (Inl x)
    have "ht_pending t' = ht_pending t \<and> ht_next_reservation t' = ht_next_reservation t"
      using assms(2) u spec Inl
      by (auto simp: table_reserve_def Let_def split: if_splits option.splits prod.splits)
    then show ?thesis using Inl by (auto intro: pending_keptI)
  next
    case (Inr ticket')
    then obtain n where n: "checked_add (ht_next_reservation t) 1 = Some n" "ht_next_reservation t' = n"
      "hr_identity ticket' = ht_next_reservation t" "ht_pending t' = ht_pending t @ [(ticket', e)]"
      using assms(2) u spec by (auto simp: table_reserve_def Let_def split: if_splits option.splits prod.splits)
    then have "ht_next_reservation t < n" by (simp add: checked_add_Some_iff word_less_nat_alt)
    then show ?thesis using n Inr by (auto simp: pending_kept_def)
  qed
  then show "pending_kept t t'" and "r = Inr ticket \<Longrightarrow> hr_identity ticket < ht_next_reservation t'" by blast+
qed

lemma publish_next: "table_publish_reserved ticket t = (ok, t') \<Longrightarrow> ht_next_reservation t' = ht_next_reservation t"
  by (auto simp: table_publish_reserved_def split: option.splits sum.splits)

lemma removal_next:
  "table_take_entry h t = (x, t') \<Longrightarrow> ht_next_reservation t' = ht_next_reservation t"
  "table_close h t = (ok, t') \<Longrightarrow> ht_next_reservation t' = ht_next_reservation t"
  "table_insert_at mem h e t = (ok, t') \<Longrightarrow> ht_next_reservation t' = ht_next_reservation t"
  by (auto simp: table_take_entry_def table_close_def table_insert_at_def split: sum.splits if_splits)

lemma table_step_pending:
  assumes "table_step t t'" and "table_ok t"
  shows "pending_kept t t'"
  using assms
proof (induction rule: table_step.induct)
  case (insert mem e t r t')
  then show ?case by (blast intro: insert_pending)
next
  case (insert_at raw h mem e t ok t')
  then show ?case
    using table_insert_at_spec [OF insert_at(3) from_raw_nonzero [OF insert_at(1)] insert_at(2)] removal_next
    by (auto intro!: pending_keptI)
next
  case (duplicate mem source requested t r t')
  then show ?case
    by (auto simp: table_duplicate_restricted_def pending_kept_refl split: option.splits if_splits intro: insert_pending)
next
  case (reserve mem pmem owner e t q t')
  then show ?case by (blast intro: reserve_pending)
next
  case (publish ticket t ok t')
  then show ?case
    using table_publish_spec [OF publish(2,1)] publish_next [OF publish(1)] by (cases ok) (auto intro!: pending_keptI)
next
  case (cancel ticket t x t')
  then show ?case using table_cancel_spec [OF cancel(2,1)] by (cases x) (auto intro!: pending_keptI)
next
  case (take_reservation owner t x t')
  then show ?case
    using table_take_reservation_spec [OF take_reservation(2,1)] by (cases x) (auto intro!: pending_keptI)
next
  case (take_entry h t x t')
  then show ?case using table_take_entry_spec [OF take_entry(2,1)] removal_next by (auto intro!: pending_keptI)
next
  case (close h t ok t')
  then show ?case using table_close_spec [OF close(2,1)] removal_next by (auto intro!: pending_keptI)
next
  case (retain t keep)
  then show ?case by (auto intro!: pending_keptI simp: table_retain_def)
qed

lemma table_env_run:
  assumes "(table_env tid)\<^sup>*\<^sup>* t t'" and "table_ok t"
  shows "table_ok t' \<and> pending_kept t t'"
  using assms
proof (induction rule: rtranclp_induct)
  case base
  then show ?case by (simp add: pending_kept_refl)
next
  case (step u v)
  then have "table_ok u" "table_step u v" "pending_kept t u" by (auto simp: table_env_def)
  then show ?case
    using table_step_ok [of u v] table_step_pending [of u v] pending_kept_trans [of t u v] by blast
qed

lemma pending_unique: "table_ok t \<Longrightarrow> (ticket, e) \<in> set (ht_pending t) \<Longrightarrow> (ticket, e') \<in> set (ht_pending t) \<Longrightarrow> e = e'"
proof -
  assume "table_ok t" and a: "(ticket, e) \<in> set (ht_pending t)" "(ticket, e') \<in> set (ht_pending t)"
  then have "inj_on (\<lambda>x. hr_handle (fst x)) (set (ht_pending t))" by (simp add: table_ok_def distinct_map)
  from inj_onD [OF this _ a] show ?thesis by simp
qed

section \<open>The three locked sections of a delivery\<close>

text \<open>The record the receiver reads for an installed handle.\<close>

definition attachment_record :: "object_handle \<Rightarrow> handle_rights \<Rightarrow> u8 list" where
  "attachment_record h r = to_le_bytes h @ to_le_bytes (0 :: u32) @ to_le_bytes r"

lemma length_attachment_record [simp]: "length (attachment_record h r) = 16"
  by (simp add: attachment_record_def)

lemma write_attachment:
  assumes "length pre = offset"
  shows "slice_write (offset + 8) (to_le_bytes (r :: u64)) (slice_write offset (to_le_bytes (h :: u32)) (pre @ replicate (16 + n) 0)) =
    (pre @ attachment_record h r) @ replicate n 0"
proof -
  have zero: "to_le_bytes (0 :: u32) = replicate 4 0" by (simp add: to_le_bytes_def map_replicate_const)
  show ?thesis
    using assms by (simp add: slice_write_skip slice_write_front attachment_record_def zero)
      (simp add: slice_write_def)
qed

text \<open>What the reservation loop has done when it stops: it holds tickets for a prefix of the entries.\<close>

definition admitted :: "u64 \<Rightarrow> handle_entry list \<Rightarrow> handle_reservation list \<Rightarrow> handle_table \<Rightarrow> handle_table \<Rightarrow> bool" where
  "admitted tid es tickets t t' \<longleftrightarrow>
     table_ok t' \<and> published t' = published t \<and> length tickets \<le> length es \<and>
     ht_pending t' = ht_pending t @ zip tickets (take (length tickets) es) \<and>
     (\<forall>ticket \<in> set tickets. hr_owner ticket = tid \<and> hr_identity ticket < ht_next_reservation t')"

lemma admitted_Cons:
  assumes "table_ok t" and "table_reserve mem pmem tid e t = (Inr ticket, u)" and "admitted tid es tickets u t'"
  shows "admitted tid (e # es) (ticket # tickets) t t'"
proof -
  have "hr_identity ticket < ht_next_reservation t'" if "hr_identity ticket < ht_next_reservation u" "(ticket, e) \<in> set (ht_pending t')"
    using assms(3) that(2) by (auto simp: admitted_def table_ok_def)
  then show "admitted tid (e # es) (ticket # tickets) t t'"
    using assms(3) table_reserve_spec [OF assms(1,2)] reserve_pending(2) [OF assms(1,2)] by (auto simp: admitted_def)
qed

definition admit_answer ::
  "u64 + unit \<Rightarrow> handle_reservation list \<Rightarrow> handle_entry list \<Rightarrow> u8 list \<Rightarrow> nat \<Rightarrow> u8 list \<Rightarrow> bool" where
  "admit_answer r tickets es out m bytes \<longleftrightarrow>
     (case r of
        Inl e \<Rightarrow> e = into_raw ResourceUnavailable
      | Inr _ \<Rightarrow> length tickets = length es \<and>
          bytes = out @ concat (map2 (\<lambda>ticket e. attachment_record (hr_handle ticket) (he_rights e)) tickets es) @
            replicate (16 * (m - length es)) 0)"

lemma admit_answer_Cons:
  "admit_answer r tickets es (out @ attachment_record (hr_handle ticket) (he_rights e)) m bytes \<Longrightarrow>
   admit_answer r (ticket # tickets) (e # es) out (Suc m) bytes"
  by (simp add: admit_answer_def split: sum.splits)

lemma admit_loop_spec:
  assumes "admit_loop mem tid [k..<n] a = (r, a')" and "table_ok (ad_table a)" and "k \<le> n"
    and "\<forall>i. k \<le> i \<longrightarrow> i < n \<longrightarrow> ad_handles a ! i = Some (es ! (i - k))" and "length es = n - k"
    and "ad_reserved a = pre @ replicate m None" and "length pre = k" and "n \<le> k + m"
    and "ad_output a = out @ replicate (16 * m) 0" and "length out = 8 + k * 16"
  shows "\<exists>tickets. admitted tid es tickets (ad_table a) (ad_table a') \<and>
    ad_reserved a' = pre @ map Some tickets @ replicate (m - length tickets) None \<and>
    admit_answer r tickets es out m (ad_output a')"
  using assms
proof (induction "n - k" arbitrary: k a es pre m out)
  case 0
  then have "[k..<n] = []" by simp
  with 0 have "a' = a" "r = Inr ()" by simp_all
  with 0 show ?case by (intro exI [of _ "[]"]) (simp add: admitted_def admit_answer_def)
next
  case (Suc l)
  then have upt: "[k..<n] = k # [Suc k..<n]" by (simp add: upt_conv_Cons)
  obtain e es' where es: "es = e # es'" using Suc.prems(5) Suc.hyps(2) by (cases es) auto
  obtain m' where m: "m = Suc m'" using Suc.prems(8) Suc.hyps(2) by (cases m) auto
  have at: "ad_handles a ! k = Some e" using Suc.prems(4) [rule_format, of k] Suc.hyps(2) es by simp
  obtain q t where q: "table_reserve (fst (mem k)) (snd (mem k)) tid e (ad_table a) = (q, t)" by fastforce
  show ?case
  proof (cases q)
    case (Inl e')
    with Suc.prems(1) q at have res: "r = Inl (into_raw ResourceUnavailable)"
      "a' = a\<lparr>ad_handles := (ad_handles a)[k := Some e'], ad_table := t\<rparr>" by (simp_all add: upt)
    from table_reserve_spec [OF Suc.prems(2) q] Inl show ?thesis
      using Suc.prems(6) by (intro exI [of _ "[]"]) (simp add: res admitted_def admit_answer_def)
  next
    case (Inr ticket)
    define b where "b = a\<lparr>ad_handles := (ad_handles a)[k := None], ad_reserved := (ad_reserved a)[k := Some ticket],
      ad_output := slice_write (8 + k * 16 + 8) (to_le_bytes (he_rights e))
        (slice_write (8 + k * 16) (to_le_bytes (hr_handle ticket)) (ad_output a)), ad_table := t\<rparr>"
    have run: "admit_loop mem tid [Suc k..<n] b = (r, a')" using Suc.prems(1) q at Inr by (simp add: upt b_def Let_def)
    have tab: "table_ok (ad_table b)" using table_reserve_spec [OF Suc.prems(2) q] by (simp add: b_def)
    have handles: "\<forall>i. Suc k \<le> i \<longrightarrow> i < n \<longrightarrow> ad_handles b ! i = Some (es' ! (i - Suc k))"
    proof (intro allI impI)
      fix i assume that: "Suc k \<le> i" "i < n"
      from le_Suc_ex [OF that(1)] obtain j where i: "i = Suc k + j" ..
      from Suc.prems(4) [rule_format, of i] that have "ad_handles a ! i = Some (es ! (i - k))" by simp
      then have "ad_handles a ! i = Some (es' ! j)" by (simp add: i es)
      then show "ad_handles b ! i = Some (es' ! (i - Suc k))" by (simp add: b_def i)
    qed
    have res: "ad_reserved b = (pre @ [Some ticket]) @ replicate m' None"
      using Suc.prems(6,7) by (simp add: b_def m list_update_append)
    have out: "ad_output b = (out @ attachment_record (hr_handle ticket) (he_rights e)) @ replicate (16 * m') 0"
      using write_attachment [OF Suc.prems(10), of "he_rights e" "hr_handle ticket" "16 * m'"] Suc.prems(9)
      by (simp add: b_def m)
    have lens: "l = n - Suc k" "Suc k \<le> n" "length es' = n - Suc k" "length (pre @ [Some ticket]) = Suc k" "n \<le> Suc k + m'"
      "length (out @ attachment_record (hr_handle ticket) (he_rights e)) = 8 + Suc k * 16"
      using Suc.hyps(2) Suc.prems(5,7,8,10) by (simp_all add: es m)
    from Suc.hyps(1) [OF lens(1) run tab lens(2) handles lens(3) res lens(4,5) out lens(6)]
    obtain tickets where IH: "admitted tid es' tickets t (ad_table a')"
      "ad_reserved a' = (pre @ [Some ticket]) @ map Some tickets @ replicate (m' - length tickets) None"
      "admit_answer r tickets es' (out @ attachment_record (hr_handle ticket) (he_rights e)) m' (ad_output a')"
      by (elim exE conjE) (rule that, simp_all add: b_def)
    have "admitted tid es (ticket # tickets) (ad_table a) (ad_table a')"
      unfolding es using Suc.prems(2) q [unfolded Inr] IH(1) by (rule admitted_Cons)
    then show ?thesis
      using IH(2) admit_answer_Cons [OF IH(3)] by (intro exI [of _ "ticket # tickets"]) (simp add: es m)
  qed
qed

definition attached :: "attachments \<Rightarrow> handle_entry list" where
  "attached at = map the (take (oa_count at) (oa_handles at))"

definition attachments_ok :: "attachments \<Rightarrow> bool" where
  "attachments_ok at \<longleftrightarrow> length (oa_handles at) = MAX_OBJECT_HANDLES"

definition answer_header :: "attachments \<Rightarrow> u8 list" where
  "answer_header at = to_le_bytes (of_nat (oa_count at) :: u32) @ to_le_bytes (oa_delivery_flags at)"

lemma admit_in_spec:
  assumes "hproc_wf p" and "attachments_ok at" and "oa_count at \<le> MAX_OBJECT_HANDLES"
    and "\<not> list_ex (\<lambda>e. e = None) (take (oa_count at) (oa_handles at))"
    and "admit_in mem tid at p = ((r, reserved, out), p')"
  shows "\<exists>tickets. admitted tid (attached at) tickets (hp_handles p) (hp_handles p') \<and> hp_launch p' = hp_launch p \<and>
    reserved = map Some tickets @ replicate (MAX_OBJECT_HANDLES - length tickets) None \<and>
    admit_answer r tickets (attached at) (answer_header at) MAX_OBJECT_HANDLES out"
proof -
  define a where "a = admission_start at (hp_handles p)"
  obtain a' where run: "admit_loop mem tid [0..<oa_count at] a = (r, a')"
    and res: "reserved = ad_reserved a'" "out = ad_output a'" "p' = p\<lparr>hp_handles := ad_table a'\<rparr>"
    using assms(5) by (cases "admit_loop mem tid [0..<oa_count at] a") (auto simp: admit_in_def a_def)
  have len: "length (oa_handles at) = MAX_OBJECT_HANDLES" using assms(2) by (simp add: attachments_ok_def)
  have entries: "\<forall>i. 0 \<le> i \<longrightarrow> i < oa_count at \<longrightarrow> ad_handles a ! i = Some (attached at ! (i - 0))"
    using assms(3,4) by (auto simp: a_def admission_start_def attached_def list_ex_iff in_set_conv_nth len)
  have "\<exists>tickets. admitted tid (attached at) tickets (ad_table a) (ad_table a') \<and>
    ad_reserved a' = [] @ map Some tickets @ replicate (MAX_OBJECT_HANDLES - length tickets) None \<and>
    admit_answer r tickets (attached at) (answer_header at) MAX_OBJECT_HANDLES (ad_output a')"
  proof (rule admit_loop_spec [OF run _ _ entries])
    show "ad_output a = answer_header at @ replicate (16 * MAX_OBJECT_HANDLES) 0"
      by (simp add: a_def admission_start_def answer_header_def ATTACHMENTS_LEN_def slice_write_def)
  qed (use assms(1,3) len in \<open>simp_all add: a_def admission_start_def attached_def answer_header_def hproc_wfD\<close>)
  then show ?thesis by (simp add: res a_def admission_start_def)
qed

text \<open>A published reservation leaves the other reservations as they are.\<close>

lemma publish_reserved_spec:
  assumes "table_ok t" and "(ticket, e) \<in> set (ht_pending t)"
  shows "\<exists>t'. table_publish_reserved ticket t = (True, t') \<and> table_ok t' \<and>
    published t' = (published t)(hr_handle ticket \<mapsto> e) \<and> set (ht_pending t') = set (ht_pending t) - {(ticket, e)}"
proof -
  obtain ok t' where run: "table_publish_reserved ticket t = (ok, t')" by fastforce
  have "table_is_reserved ticket t" using assms(2) by (auto simp: table_is_reserved_def list_ex_iff)
  then obtain e' where "ok" "(ticket, e') \<in> set (ht_pending t)" "published t' = (published t)(hr_handle ticket \<mapsto> e')"
    "set (ht_pending t') = set (ht_pending t) - {(ticket, e')}" "table_ok t'"
    using table_publish_spec [OF assms(1) run] by blast
  then show ?thesis using run pending_unique [OF assms(1,2)] by auto
qed

lemma publish_loop_spec:
  assumes "table_ok t" and "set (zip tickets es) \<subseteq> set (ht_pending t)" and "length tickets = length es"
    and "distinct (map hr_handle tickets)"
  shows "\<exists>t'. publish_loop earlier tickets t = (Inr (), t') \<and> table_ok t' \<and>
    published t' = published t ++ map_of (zip (map hr_handle tickets) es) \<and>
    set (ht_pending t') = set (ht_pending t) - set (zip tickets es)"
  using assms
proof (induction tickets arbitrary: es t earlier)
  case (Cons ticket tickets)
  then obtain e es' where es: "es = e # es'" by (cases es) auto
  from publish_reserved_spec [OF Cons.prems(1), of ticket e] Cons.prems(2) es obtain u where
    u: "table_publish_reserved ticket t = (True, u)" "table_ok u" "published u = (published t)(hr_handle ticket \<mapsto> e)"
      "set (ht_pending u) = set (ht_pending t) - {(ticket, e)}" by auto
  have fresh: "ticket \<notin> set tickets" using Cons.prems(4) by auto
  then have "set (zip tickets es') \<subseteq> set (ht_pending u)" using Cons.prems(2) by (auto simp: es u(4) dest: set_zip_leftD)
  from Cons.IH [OF u(2) this, of "earlier @ [ticket]"] Cons.prems(3,4) obtain t' where
    t': "publish_loop (earlier @ [ticket]) tickets u = (Inr (), t')" "table_ok t'"
      "published t' = published u ++ map_of (zip (map hr_handle tickets) es')"
      "set (ht_pending t') = set (ht_pending u) - set (zip tickets es')" by (auto simp: es)
  have "hr_handle ticket \<notin> fst ` set (zip (map hr_handle tickets) es')"
    using Cons.prems(4) by (auto dest: set_zip_leftD)
  then have "published t' = published t ++ map_of (zip (map hr_handle (ticket # tickets)) es)"
    by (auto simp: t'(3) u(3) es map_add_def fun_eq_iff map_of_eq_None_iff [symmetric] split: option.split)
  moreover have "set (ht_pending t') = set (ht_pending t) - set (zip (ticket # tickets) es)"
    by (auto simp: t'(4) u(4) es)
  ultimately show ?case using t'(1,2) u(1) by simp
qed simp

lemma cancel_fold_spec:
  assumes "table_ok t" and "t' = fold (\<lambda>ticket t. case ticket of None \<Rightarrow> t | Some ticket \<Rightarrow> snd (table_cancel_reserved ticket t)) tickets t"
  shows "table_ok t' \<and> ht_entries t' = ht_entries t \<and> ht_next_reservation t' = ht_next_reservation t \<and>
    set (ht_pending t') \<subseteq> set (ht_pending t) \<and> (\<forall>ticket. Some ticket \<in> set tickets \<longrightarrow> \<not> table_is_reserved ticket t')"
  using assms
proof (induction tickets arbitrary: t)
  case (Cons x tickets)
  show ?case
  proof (cases x)
    case None
    then show ?thesis using Cons by simp
  next
    case (Some ticket)
    obtain r u where u: "table_cancel_reserved ticket t = (r, u)" by fastforce
    note spec = table_cancel_spec [OF Cons.prems(1) u]
    have gone: "\<not> table_is_reserved ticket u"
    proof (cases r)
      case (Some e)
      then show ?thesis
        using spec pending_unique [OF Cons.prems(1)] by (fastforce simp: table_is_reserved_def list_ex_iff)
    qed (use spec in auto)
    have IH: "table_ok t' \<and> ht_entries t' = ht_entries u \<and> ht_next_reservation t' = ht_next_reservation u \<and>
      set (ht_pending t') \<subseteq> set (ht_pending u) \<and> (\<forall>ticket. Some ticket \<in> set tickets \<longrightarrow> \<not> table_is_reserved ticket t')"
      using Cons.IH [of u] Cons.prems(2) spec Some u by simp
    have "\<not> table_is_reserved ticket t'" using IH gone by (auto simp: table_is_reserved_def list_ex_iff)
    then show ?thesis using IH spec Some by (cases r) auto
  qed
qed simp

lemma filter_without: "\<not> P y \<Longrightarrow> {x \<in> A - {y}. P x} = {x \<in> A. P x}"
  by blast

lemma drain_spec:
  assumes "table_ok t" and "drain_reservations owner t = (es, t')"
  shows "table_ok t' \<and> ht_entries t' = ht_entries t \<and>
    set (ht_pending t') = {x \<in> set (ht_pending t). hr_owner (fst x) \<noteq> owner}"
  using assms
proof (induction owner t arbitrary: es t' rule: drain_reservations.induct)
  case (1 owner t)
  obtain r u where u: "table_take_reservation_for owner t = (r, u)" by fastforce
  note spec = table_take_reservation_spec [OF 1(2) u]
  show ?case
  proof (cases r)
    case None
    then show ?thesis using 1(2,3) u spec by (auto simp: drain_reservations.simps [of owner t])
  next
    case (Some e)
    obtain es2 t2 where rest: "drain_reservations owner u = (es2, t2)" by fastforce
    then have "t' = t2" using 1(3) u Some by (simp add: drain_reservations.simps [of owner t])
    moreover obtain ticket where ticket: "hr_owner ticket = owner" "set (ht_pending u) = set (ht_pending t) - {(ticket, e)}"
      using spec Some by auto
    have "{x \<in> set (ht_pending u). hr_owner (fst x) \<noteq> owner} = {x \<in> set (ht_pending t). hr_owner (fst x) \<noteq> owner}"
      unfolding ticket(2) by (rule filter_without) (simp add: ticket(1))
    moreover have "table_ok u" "ht_entries u = ht_entries t" using spec by simp_all
    ultimately show ?thesis using 1(1) [OF u [symmetric] Some _ rest] by simp
  qed
qed

text \<open>What other threads may do to the process table between two locked sections of a delivery.\<close>

definition other_threads :: "u64 \<Rightarrow> u64 \<Rightarrow> (hprocs \<Rightarrow> hprocs) \<Rightarrow> bool" where
  "other_threads tid pid env \<longleftrightarrow>
     (\<forall>ps q. env ps pid = Some q \<longrightarrow> (\<exists>p. ps pid = Some p \<and> (table_env tid)\<^sup>*\<^sup>* (hp_handles p) (hp_handles q)))"

lemma other_threads_table:
  assumes "other_threads tid pid env" and "env ps pid = Some q" and "ps pid = Some p" and "table_ok (hp_handles p)"
  shows "table_ok (hp_handles q)" and "pending_kept (hp_handles p) (hp_handles q)"
  using assms table_env_run by (fastforce simp: other_threads_def)+

definition withdrawn :: "handle_reservation option list \<Rightarrow> hproc option \<Rightarrow> hproc option \<Rightarrow> bool" where
  "withdrawn reserved before after \<longleftrightarrow>
     (\<forall>p'. after = Some p' \<longrightarrow>
        (\<forall>ticket. Some ticket \<in> set reserved \<longrightarrow> \<not> table_is_reserved ticket (hp_handles p')) \<and>
        (\<exists>q. before = Some q \<and> published (hp_handles p') = published (hp_handles q)))"

definition delivered :: "attachments \<Rightarrow> u8 list \<Rightarrow> hproc option \<Rightarrow> hproc option \<Rightarrow> bool" where
  "delivered at told before after \<longleftrightarrow>
     (\<exists>q p' (tickets :: handle_reservation list). before = Some q \<and> after = Some p' \<and> length tickets = oa_count at \<and>
        told = answer_header at @
          concat (map2 (\<lambda>ticket e. attachment_record (hr_handle ticket) (he_rights e)) tickets (attached at)) @
          replicate (16 * (MAX_OBJECT_HANDLES - oa_count at)) 0 \<and>
        published (hp_handles p') = published (hp_handles q) ++ map_of (zip (map hr_handle tickets) (attached at)))"

lemma cancel_received_spec:
  assumes "\<And>q. qs pid = Some q \<Longrightarrow> table_ok (hp_handles q)"
  shows "withdrawn tickets (qs pid) (cancel_received_reservations pid tickets qs pid)"
proof (cases "qs pid")
  case None
  then show ?thesis by (simp add: withdrawn_def cancel_received_reservations_def with_process_mut_def)
next
  case (Some q)
  then show ?thesis
    using cancel_fold_spec [OF assms [OF Some] refl, of tickets]
    by (simp add: withdrawn_def cancel_received_reservations_def with_process_mut_def cancel_in_def)
qed

text \<open>Tickets of the reservation phase that are still reserved still hold the attached entries.\<close>

lemma admitted_still_reserved:
  assumes "admitted tid es tickets t t1" and "length tickets = length es" and "table_ok t2" and "pending_kept t1 t2"
    and "list_all (\<lambda>ticket. table_is_reserved ticket t2) tickets"
  shows "set (zip tickets es) \<subseteq> set (ht_pending t2)" and "distinct (map hr_handle tickets)"
proof -
  have t1: "table_ok t1" "ht_pending t1 = ht_pending t @ zip tickets es"
    using assms(1,2) by (simp_all add: admitted_def)
  show "distinct (map hr_handle tickets)"
  proof -
    have "map (\<lambda>x. hr_handle (fst x)) (zip tickets es) = map hr_handle tickets"
      using assms(2) by (metis (no_types, lifting) comp_apply map_fst_zip map_map list.map_cong)
    then show ?thesis using t1 by (auto simp: table_ok_def)
  qed
  show "set (zip tickets es) \<subseteq> set (ht_pending t2)"
  proof
    fix x assume x: "x \<in> set (zip tickets es)"
    obtain ticket e where xe: "x = (ticket, e)" by fastforce
    with x have te: "x = (ticket, e)" "ticket \<in> set tickets" by (auto dest: set_zip_leftD)
    then obtain e' where e': "(ticket, e') \<in> set (ht_pending t2)"
      using assms(5) by (auto simp: list_all_iff table_is_reserved_def list_ex_iff)
    moreover have "hr_identity ticket < ht_next_reservation t1" using assms(1) te(2) by (auto simp: admitted_def)
    ultimately have "(ticket, e') \<in> set (ht_pending t1)" using assms(4) by (auto simp: pending_kept_def)
    then have "e' = e" using x te(1) t1 pending_unique by fastforce
    then show "x \<in> set (ht_pending t2)" using e' te by simp
  qed
qed

lemma map_filter_Some: "List.map_filter id (map Some xs) = xs"
  by (induction xs) (simp_all add: map_filter_simps)

lemma publish_in_spec:
  assumes "admitted tid (attached at) tickets t t1" and "length tickets = length (attached at)"
    and "length (attached at) = oa_count at"
    and "reserved = map Some tickets @ replicate m None" and "table_ok (hp_handles q)" and "pending_kept t1 (hp_handles q)"
    and "publish_in (oa_count at) reserved q = (r, p')"
  shows "case r of
      Inl _ \<Rightarrow> p' = q
    | Inr _ \<Rightarrow> published (hp_handles p') = published (hp_handles q) ++ map_of (zip (map hr_handle tickets) (attached at))"
proof -
  have take: "take (oa_count at) reserved = map Some tickets" using assms(2-4) by simp
  show ?thesis
  proof (cases "list_all (\<lambda>ticket. table_is_reserved ticket (hp_handles q)) tickets")
    case False
    then show ?thesis using assms(7) by (auto simp: publish_in_def take map_filter_Some)
  next
    case True
    note still = admitted_still_reserved [OF assms(1,2,5,6) True]
    from publish_loop_spec [OF assms(5) still(1) assms(2) still(2), of "[]"] obtain t' where
      t': "publish_loop [] tickets (hp_handles q) = (Inr (), t')"
        "published t' = published (hp_handles q) ++ map_of (zip (map hr_handle tickets) (attached at))" by blast
    have "\<not> list_ex (\<lambda>ticket. ticket = None) (take (oa_count at) reserved)" by (auto simp: take list_ex_iff)
    then have "r = Inr ()" "p' = q\<lparr>hp_handles := t'\<rparr>"
      using assms(7) True t'(1) by (simp_all add: publish_in_def take map_filter_Some)
    then show ?thesis using t'(2) by simp
  qed
qed

text \<open>What the sender attaches is what the receiver's checks require.\<close>

lemma decode_attachments_spec:
  assumes "decode_attachments pid bytes [k..<n] ps acc = Inr at" and "k \<le> n" and "n \<le> length (oa_handles acc)"
    and "oa_count acc = k"
  shows "oa_count at = n \<and> length (oa_handles at) = length (oa_handles acc) \<and>
    (\<forall>i < k. oa_handles at ! i = oa_handles acc ! i) \<and>
    (\<forall>i. k \<le> i \<longrightarrow> i < n \<longrightarrow> (\<exists>e. decode_attachment pid bytes i (ps i) = Inr e \<and> oa_handles at ! i = Some e))"
  using assms
proof (induction "n - k" arbitrary: k acc)
  case (Suc l)
  then have upt: "[k..<n] = k # [Suc k..<n]" by (simp add: upt_conv_Cons)
  obtain e where e: "decode_attachment pid bytes k (ps k) = Inr e"
    using Suc.prems(1) by (cases "decode_attachment pid bytes k (ps k)") (auto simp: upt)
  define b where "b = acc\<lparr>oa_handles := (oa_handles acc)[k := Some e], oa_count := oa_count acc + 1\<rparr>"
  have run: "decode_attachments pid bytes [Suc k..<n] ps b = Inr at" using Suc.prems(1) e by (simp add: upt b_def)
  have "l = n - Suc k" "Suc k \<le> n" "n \<le> length (oa_handles b)" "oa_count b = Suc k"
    using Suc.hyps(2) Suc.prems by (simp_all add: b_def)
  note IH = Suc.hyps(1) [OF this(1) run this(2-4)]
  have "k < length (oa_handles acc)" using Suc.hyps(2) Suc.prems(3) by simp
  then have "oa_handles at ! k = Some e" using IH by (simp add: b_def)
  then have "\<exists>e. decode_attachment pid bytes i (ps i) = Inr e \<and> oa_handles at ! i = Some e" if "k \<le> i" "i < n" for i
    using that e IH by (cases "i = k") auto
  moreover have "oa_handles at ! i = oa_handles acc ! i" if "i < k" for i using IH that by (simp add: b_def)
  ultimately show ?case using IH by (simp add: b_def)
qed simp

lemma decode_outgoing_spec:
  assumes "decode_outgoing_object_handles copy (Some pid) pointer ps = Inr at"
  shows "attachments_ok at \<and> oa_count at \<le> MAX_OBJECT_HANDLES \<and>
    \<not> list_ex (\<lambda>e. e = None) (take (oa_count at) (oa_handles at)) \<and>
    (\<forall>i < oa_count at. \<exists>h requested e. export_object_handle pid h requested (ps i) = Inr e \<and> oa_handles at ! i = Some e)"
proof -
  from assms obtain bytes n where run: "decode_attachments pid bytes [0..<n] ps attachments_empty = Inr at" "n \<le> MAX_OBJECT_HANDLES"
    by (auto simp: decode_outgoing_object_handles_def Let_def split: if_splits sum.splits)
  have spec: "oa_count at = n" "length (oa_handles at) = MAX_OBJECT_HANDLES"
    using decode_attachments_spec [OF run(1)] run(2) by (simp_all add: attachments_empty_def)
  have at: "\<exists>e. decode_attachment pid bytes i (ps i) = Inr e \<and> oa_handles at ! i = Some e" if "i < n" for i
    using decode_attachments_spec [OF run(1)] run(2) that by (simp add: attachments_empty_def)
  have "\<exists>h requested. export_object_handle pid h requested (ps i) = Inr e" if "decode_attachment pid bytes i (ps i) = Inr e" for i e
    using that by (auto simp: decode_attachment_def Let_def split: if_splits option.splits)
  then have exports: "\<forall>i < n. \<exists>h requested e. export_object_handle pid h requested (ps i) = Inr e \<and> oa_handles at ! i = Some e"
    using at by blast
  moreover have "\<not> list_ex (\<lambda>e. e = None) (take n (oa_handles at))"
  proof
    assume "list_ex (\<lambda>e. e = None) (take n (oa_handles at))"
    then obtain i where "i < n" "oa_handles at ! i = None" by (auto simp: list_ex_iff in_set_conv_nth)
    then show False using at [of i] by simp
  qed
  ultimately show ?thesis using spec run(2) by (simp add: attachments_ok_def)
qed

section \<open>Properties\<close>

text \<open>C5: a delivery installs all attached objects or none, whatever other threads do meanwhile. When it
  succeeds, the receiver's table is what the other threads left with every attached entry added
  under its reserved selector, in one step, and the receiver has been told exactly these selectors
  and rights; when it fails after reserving, every reservation is gone and the published handles are
  those the other threads left.\<close>

theorem delivery_all_or_nothing:
  assumes "ps pid = Some p" and "hproc_ok p" and "attachments_ok at" and "thread_to_process receiver = Some pid"
    and "other_threads receiver pid env" and "other_threads receiver pid env'"
    and "admit_in mem receiver at p = ((r1, reserved, user_output), p1)"
    and "install_received_object_handles thread_to_process mem env copy env' receiver at ps = (r, ps')"
  shows "case r of
      Inr _ \<Rightarrow> copy user_output = Inr () \<and> delivered at user_output (env (ps(pid \<mapsto> p1)) pid) (ps' pid)
    | Inl _ \<Rightarrow> ps' = ps \<or> withdrawn reserved (env (ps(pid \<mapsto> p1)) pid) (ps' pid) \<or>
        withdrawn reserved (env' (env (ps(pid \<mapsto> p1))) pid) (ps' pid)"
proof (cases "oa_count at > MAX_OBJECT_HANDLES \<or> list_ex (\<lambda>e. e = None) (take (oa_count at) (oa_handles at))")
  case True
  then show ?thesis using assms(8) by (auto simp: install_received_object_handles_def)
next
  case False
  define ps1 where "ps1 = ps(pid \<mapsto> p1)"
  have count: "oa_count at \<le> MAX_OBJECT_HANDLES" "length (attached at) = oa_count at"
    using False assms(3) by (auto simp: attached_def attachments_ok_def)
  from admit_in_spec [OF hproc_ok_wf [OF assms(2)] assms(3) count(1) _ assms(7)] False obtain tickets where
    adm: "admitted receiver (attached at) tickets (hp_handles p) (hp_handles p1)"
      "reserved = map Some tickets @ replicate (MAX_OBJECT_HANDLES - length tickets) None"
      "admit_answer r1 tickets (attached at) (answer_header at) MAX_OBJECT_HANDLES user_output" by auto
  have p1: "table_ok (hp_handles p1)" "ps1 pid = Some p1" using adm(1) by (simp_all add: admitted_def ps1_def)
  note env = other_threads_table [where ps = ps1 and p = p1, OF assms(5) _ p1(2,1)]
  have env': "table_ok (hp_handles q')" if "env' (env ps1) pid = Some q'" for q'
    using other_threads_table(1) [where ps = "env ps1", OF assms(6) that] assms(6) that env(1)
    by (fastforce simp: other_threads_def)
  note run = assms(8) [unfolded install_received_object_handles_def if_not_P [OF False] assms(4) option.case
      with_process_mut_Some [where table = ps and pid = pid and f = "admit_in mem receiver at", OF assms(1,7)] prod.case, folded ps1_def]
  note cancel = cancel_received_spec [where qs = "env ps1" and pid = pid and tickets = reserved, OF env(1)]
  have tell: "user_output = answer_header at @
      concat (map2 (\<lambda>ticket e. attachment_record (hr_handle ticket) (he_rights e)) tickets (attached at)) @
      replicate (16 * (MAX_OBJECT_HANDLES - oa_count at)) 0" "length tickets = oa_count at" if "r1 = Inr ()"
    using adm(3) that count(2) by (simp_all add: admit_answer_def)
  show ?thesis
  proof (cases "(\<exists>e. r1 = Inl e) \<or> r1 = Inr () \<and> (\<exists>e. copy user_output = Inl e)")
    case True
    then have "\<exists>e. r = Inl e" "ps' = cancel_received_reservations pid reserved (env ps1)" using run by auto
    then show ?thesis using cancel by (auto simp: ps1_def)
  next
    case False
    then have ok: "r1 = Inr ()" "copy user_output = Inr ()" by (cases r1; cases "copy user_output"; auto)+
    show ?thesis
    proof (cases "env ps1 pid")
      case None
      then have "r = Inl (into_raw NotReady)" "ps' = env ps1" using run ok by (simp_all add: with_process_mut_def)
      then show ?thesis using None by (auto simp: withdrawn_def)
    next
      case (Some q)
      obtain r2 p2 where pub: "publish_in (oa_count at) reserved q = (r2, p2)" by fastforce
      note spec = publish_in_spec [OF adm(1) _ count(2) adm(2) env [OF Some] pub]
      have publish: "with_process_mut (env ps1) pid (publish_in (oa_count at) reserved) = (Some r2, (env ps1)(pid \<mapsto> p2))"
        using Some pub by (simp add: with_process_mut_def)
      show ?thesis
      proof (cases r2)
        case (Inl e)
        then have "p2 = q" using spec tell(2) [OF ok(1)] count(2) by simp
        then have "(env ps1)(pid \<mapsto> p2) = env ps1" using Some by auto
        then have "r = Inl e" "ps' = cancel_received_reservations pid reserved (env' (env ps1))"
          using run ok Inl publish by simp_all
        then show ?thesis
          using cancel_received_spec [where qs = "env' (env ps1)" and pid = pid and tickets = reserved, OF env']
          by (auto simp: ps1_def)
      next
        case (Inr u)
        then have "r = Inr ()" "ps' = (env ps1)(pid \<mapsto> p2)"
          using run ok publish by simp_all
        moreover have "delivered at user_output (Some q) (Some p2)"
          unfolding delivered_def by (rule exI [of _ q], rule exI [of _ p2], rule exI [of _ tickets])
            (use spec Inr tell [OF ok(1)] count(2) in simp)
        ultimately show ?thesis using Some ok(2) by (simp add: ps1_def)
      qed
    qed
  qed
qed

definition demo_attachments :: attachments where
  "demo_attachments = \<lparr>oa_count = 1, oa_delivery_flags = 0, oa_handles = [Some demo_entry, None, None, None]\<rparr>"

definition demo_ticket :: handle_reservation where
  "demo_ticket = \<lparr>hr_handle = 2, hr_identity = 1, hr_owner = 3\<rparr>"

definition demo_admitted :: hproc where
  "demo_admitted = demo_hproc\<lparr>hp_handles := demo_table\<lparr>ht_next := 3, ht_next_reservation := 2,
     ht_pending := [(demo_ticket, demo_entry)]\<rparr>\<rparr>"

lemma demo_admission: "\<exists>out. admit_in (\<lambda>_. (True, True)) 3 demo_attachments demo_hproc =
    ((Inr (), [Some demo_ticket, None, None, None], out), demo_admitted)"
proof -
  have t: "hp_handles demo_hproc = demo_table" by (simp add: demo_hproc_def)
  have "table_reserve True True 3 demo_entry demo_table =
      (Inr demo_ticket, demo_table\<lparr>ht_next := 3, ht_next_reservation := 2, ht_pending := [(demo_ticket, demo_entry)]\<rparr>)"
    by (simp add: table_reserve_def demo_selector checked_add_def Let_def)
      (simp add: demo_table_def reserve_publication_storage_def PROCESS_MAX_OBJECT_HANDLES_def demo_ticket_def)
  then show ?thesis
    by (simp add: admit_in_def demo_attachments_def admission_start_def MAX_OBJECT_HANDLES_def t demo_admitted_def Let_def
        numeral_eq_Suc)
qed

lemma demo_delivery: "\<exists>ps'. install_received_object_handles (\<lambda>_. Some 7) (\<lambda>_. (True, True)) id (\<lambda>_. Inr ()) id 3
    demo_attachments [7 \<mapsto> demo_hproc] = (Inr (), ps')"
proof -
  obtain out where out: "admit_in (\<lambda>_. (True, True)) 3 demo_attachments demo_hproc =
    ((Inr (), [Some demo_ticket, None, None, None], out), demo_admitted)" using demo_admission by blast
  have "\<exists>q. publish_in 1 [Some demo_ticket, None, None, None] demo_admitted = (Inr (), q)"
    by (simp add: publish_in_def map_filter_simps table_is_reserved_def demo_admitted_def table_publish_reserved_def
        demo_table_def demo_ticket_def binary_search_by_key_def search_base.simps)
  then show ?thesis
    by (auto simp: install_received_object_handles_def with_process_mut_def out)
      (auto simp: demo_attachments_def MAX_OBJECT_HANDLES_def)
qed

lemma other_threads_id: "other_threads tid pid id"
  by (auto simp: other_threads_def)

theorem delivery_all_or_nothing_witness:
  "\<exists>ps' out. install_received_object_handles (\<lambda>_. Some 7) (\<lambda>_. (True, True)) id (\<lambda>_. Inr ()) id 3
      demo_attachments [7 \<mapsto> demo_hproc] = (Inr (), ps') \<and> delivered demo_attachments out (Some demo_admitted) (ps' 7)"
proof -
  obtain out where out: "admit_in (\<lambda>_. (True, True)) 3 demo_attachments demo_hproc =
    ((Inr (), [Some demo_ticket, None, None, None], out), demo_admitted)" using demo_admission by blast
  obtain ps' where ps': "install_received_object_handles (\<lambda>_. Some 7) (\<lambda>_. (True, True)) id (\<lambda>_. Inr ()) id 3
    demo_attachments [7 \<mapsto> demo_hproc] = (Inr (), ps')" using demo_delivery by blast
  have "[7 \<mapsto> demo_hproc] 7 = Some demo_hproc" "attachments_ok demo_attachments"
    by (simp_all add: attachments_ok_def demo_attachments_def MAX_OBJECT_HANDLES_def)
  from delivery_all_or_nothing [where ps = "[7 \<mapsto> demo_hproc]" and pid = 7, OF this(1) demo_hproc_ok this(2) _
      other_threads_id other_threads_id out ps'] ps'
  show ?thesis by auto
qed

text \<open>C25: the loop that takes back the reservations of an exiting thread ends, and leaves none of them:
  every other reservation and every published handle of the process stays.\<close>

theorem thread_exit_clears_reservations:
  assumes "ps pid = Some p" and "hproc_ok p"
  shows "\<exists>p'. clear_reservations pid tid ps = ps(pid \<mapsto> p') \<and> hproc_ok p' \<and>
    ht_entries (hp_handles p') = ht_entries (hp_handles p) \<and> hp_launch p' = hp_launch p \<and>
    set (ht_pending (hp_handles p')) = {x \<in> set (ht_pending (hp_handles p)). hr_owner (fst x) \<noteq> tid}"
proof -
  obtain es t where t: "drain_reservations tid (hp_handles p) = (es, t)" by fastforce
  note spec = drain_spec [OF hproc_okD(1) [OF assms(2)] t]
  then have "hproc_ok (p\<lparr>hp_handles := t\<rparr>)" using assms(2) by (simp add: more_handles_ok)
  then show ?thesis
    using assms(1) spec t by (intro exI [of _ "p\<lparr>hp_handles := t\<rparr>"]) (simp add: clear_reservations_def with_process_mut_def)
qed

theorem thread_exit_clears_reservations_witness:
  "\<exists>p'. clear_reservations 7 3 [7 \<mapsto> demo_admitted] = [7 \<mapsto> p'] \<and> hproc_ok p' \<and> ht_pending (hp_handles p') = []"
proof -
  obtain out where "admit_in (\<lambda>_. (True, True)) 3 demo_attachments demo_hproc =
    ((Inr (), [Some demo_ticket, None, None, None], out), demo_admitted)" using demo_admission by blast
  from admit_in_spec [OF hproc_ok_wf [OF demo_hproc_ok] _ _ _ this] demo_hproc_ok have ok: "hproc_ok demo_admitted"
    by (auto simp: admitted_def hproc_ok_def hproc_wf_def launch_live_def attachments_ok_def demo_attachments_def MAX_OBJECT_HANDLES_def)
  have "[7 \<mapsto> demo_admitted] 7 = Some demo_admitted" by simp
  from thread_exit_clears_reservations [where ps = "[7 \<mapsto> demo_admitted]" and pid = 7 and tid = 3, OF this ok]
  obtain p' where p': "clear_reservations 7 3 [7 \<mapsto> demo_admitted] = [7 \<mapsto> p']" "hproc_ok p'"
    "set (ht_pending (hp_handles p')) = {x \<in> set (ht_pending (hp_handles demo_admitted)). hr_owner (fst x) \<noteq> 3}" by auto
  have "set (ht_pending (hp_handles p')) = {}" unfolding p'(3) by (auto simp: demo_admitted_def demo_ticket_def)
  then show ?thesis using p'(1,2) by auto
qed

end
