(* ===== verification/Handle_Creation.thy ===== *)
theory Handle_Creation
  imports Handle_Delivery Ipc_Endpoints
begin

text \<open>
  The system calls that put a handle for an object they make, or open, into the caller's table:
  memory objects, provider objects, process handles and stream pairs
  (\<^verbatim>\<open>src/syscall/handle.rs\<close>), memory updates and admissions
  (\<^verbatim>\<open>src/syscall/handle/memory_update.rs\<close>), endpoint handles (\<^verbatim>\<open>src/syscall/ipc.rs\<close>), thread
  handles (\<^verbatim>\<open>src/syscall/upcall.rs\<close>), cloned address spaces (\<^verbatim>\<open>src/syscall/process.rs\<close>) and completions of
  write-back work (\<^verbatim>\<open>src/mem/writeback_worker.rs\<close>). Together with the calls of \<open>Handle_Syscalls\<close> and
  \<open>Handle_Delivery\<close> these are all the places where an entry enters or leaves a handle table.

  An allocation that makes an object yields its identity, or fails. What the object's own component
  answers is an argument. A table that is read before the section that changes it is a separate
  argument, since other threads run in between.
\<close>

definition insert_in :: "bool \<Rightarrow> handle_entry \<Rightarrow> hproc \<Rightarrow> u64 \<times> hproc" where
  "insert_in mem e p =
     (case table_insert mem e (hp_handles p) of
        (Some h, t) \<Rightarrow> (ucast h, p\<lparr>hp_handles := t\<rparr>)
      | (None, t) \<Rightarrow> (into_raw ResourceUnavailable, p\<lparr>hp_handles := t\<rparr>))"

section \<open>Memory objects\<close>

definition MEMORY_OBJECT_RESIZABLE :: u64 where
  "MEMORY_OBJECT_RESIZABLE = 1"

definition memory_object_rights :: "bool \<Rightarrow> handle_rights" where
  "memory_object_rights resizable =
     (let rights = rights_union (rights_union (rights_union (rights_union R_READ R_WRITE) R_MAP) R_DUPLICATE) R_TRANSFER
      in if resizable then rights_union rights R_CONTROL else rights)"

definition memory_object_create ::
  "(bool \<Rightarrow> u64 \<Rightarrow> status_error + unit) \<Rightarrow> bool \<Rightarrow> arc option \<Rightarrow> bool \<Rightarrow> u64 option \<Rightarrow> u64 \<Rightarrow> u64 \<Rightarrow> hprocs \<Rightarrow> u64 \<times> hprocs" where
  "memory_object_create backing memory_arc object_arc mem cur size_bytes options ps =
     (if options AND NOT MEMORY_OBJECT_RESIZABLE \<noteq> 0 then (into_raw InvalidArgument, ps)
      else case cur of
        None \<Rightarrow> (into_raw NotReady, ps)
      | Some pid \<Rightarrow>
          map_prod native id (with_process_mut ps pid (\<lambda>p.
            let resizable = options AND MEMORY_OBJECT_RESIZABLE \<noteq> 0
            in case backing resizable size_bytes of
                 Inl e \<Rightarrow> (into_raw e, p)
               | Inr _ \<Rightarrow>
                   if \<not> memory_arc then (into_raw ResourceUnavailable, p)
                   else case object_arc of
                          None \<Rightarrow> (into_raw ResourceUnavailable, p)
                        | Some a \<Rightarrow>
                            insert_in mem \<lparr>he_object = O_VmObject a, he_rights = memory_object_rights resizable\<rparr> p)))"

section \<open>Objects of a provider endpoint\<close>

definition resolve_provider_endpoint_native ::
  "thread_queue \<Rightarrow> hprocs \<Rightarrow> u64 option \<Rightarrow> u64 \<Rightarrow> status_error + u64 \<times> u16 \<times> u64" where
  "resolve_provider_endpoint_native tq ps cur raw =
     (case object_native cur raw R_RECEIVE ps of
        Inl e \<Rightarrow> Inl e
      | Inr (O_IpcEndpoint thread_id slot generation) \<Rightarrow>
          if \<not> endpoint_is_valid tq \<lparr>ep_thread_id = thread_id, ep_slot = slot, ep_generation = generation\<rparr>
          then Inl InvalidArgument
          else Inr (thread_id, slot, generation)
      | Inr _ \<Rightarrow> Inl InvalidArgument)"

definition I64_MAX :: u64 where
  "I64_MAX = 0x7fffffffffffffff"

definition provider_object_create ::
  "thread_queue \<Rightarrow> hprocs \<Rightarrow> (u64 \<times> u16 \<times> u64 \<Rightarrow> u64 \<Rightarrow> status_error + unit) \<Rightarrow> arc option \<Rightarrow> bool \<Rightarrow> bool \<Rightarrow> u64 option \<Rightarrow>
   u64 \<Rightarrow> u64 \<Rightarrow> u64 \<Rightarrow> hprocs \<Rightarrow> u64 \<times> hprocs" where
  "provider_object_create tq ps0 provider new_arc registered mem cur endpoint object_id requested_rights ps =
     (if object_id > I64_MAX then (into_raw InvalidArgument, ps)
      else case cur of
        None \<Rightarrow> (into_raw NotReady, ps)
      | Some pid \<Rightarrow>
          (case rights_from_bits requested_rights of
             None \<Rightarrow> (into_raw InvalidArgument, ps)
           | Some rights \<Rightarrow>
               (case resolve_provider_endpoint_native tq ps0 cur endpoint of
                  Inl e \<Rightarrow> (into_raw e, ps)
                | Inr resolved \<Rightarrow>
                    (case provider resolved object_id of
                       Inl e \<Rightarrow> (into_raw e, ps)
                     | Inr _ \<Rightarrow>
                         (case new_arc of
                            None \<Rightarrow> (into_raw ResourceUnavailable, ps)
                          | Some a \<Rightarrow>
                              if \<not> registered then (into_raw AlreadyExists, ps)
                              else map_prod native id (with_process_mut ps pid
                                     (insert_in mem \<lparr>he_object = O_Provider a, he_rights = rights\<rparr>)))))))"

definition provider_key ::
  "thread_queue \<Rightarrow> hprocs \<Rightarrow> u64 option \<Rightarrow> u64 \<Rightarrow> u64 \<Rightarrow> status_error + (u64 \<times> u16 \<times> u64) \<times> u64" where
  "provider_key tq ps cur endpoint identity =
     (if identity = 0 then Inl InvalidArgument
      else case resolve_provider_endpoint_native tq ps cur endpoint of
             Inl e \<Rightarrow> Inl e
           | Inr resolved \<Rightarrow> Inr (resolved, identity))"

definition create_admission ::
  "thread_queue \<Rightarrow> hprocs \<Rightarrow> ((u64 \<times> u16 \<times> u64) \<times> u64 \<Rightarrow> status_error + unit) \<Rightarrow> arc option \<Rightarrow> bool \<Rightarrow> u64 option \<Rightarrow>
   u64 \<Rightarrow> u64 \<Rightarrow> hprocs \<Rightarrow> u64 \<times> hprocs" where
  "create_admission tq ps0 admission new_arc mem cur endpoint identity ps =
     (case cur of
        None \<Rightarrow> (into_raw NotReady, ps)
      | Some pid \<Rightarrow>
          (case provider_key tq ps0 cur endpoint identity of
             Inl e \<Rightarrow> (into_raw e, ps)
           | Inr key \<Rightarrow>
               (case admission key of
                  Inl e \<Rightarrow> (into_raw e, ps)
                | Inr _ \<Rightarrow>
                    (case new_arc of
                       None \<Rightarrow> (into_raw ResourceUnavailable, ps)
                     | Some a \<Rightarrow> map_prod native id (with_process_mut ps pid
                         (insert_in mem \<lparr>he_object = O_MemoryAdmission a, he_rights = rights_union R_WAIT R_TRANSFER\<rparr>))))))"

text \<open>
  The extent transaction is prepared for the key, or under the admission the caller names; \<open>acquire\<close>
  is what the admission with that identity answers.
\<close>

definition memory_update_create ::
  "thread_queue \<Rightarrow> hprocs \<Rightarrow> ((u64 \<times> u16 \<times> u64) \<times> u64 \<Rightarrow> u64 + unit) \<Rightarrow> hprocs \<Rightarrow>
   (arc \<Rightarrow> (u64 \<times> u16 \<times> u64) \<times> u64 \<Rightarrow> status_error + unit) \<Rightarrow> (arc \<Rightarrow> u64 + unit) \<Rightarrow> arc option \<Rightarrow> bool \<Rightarrow> u64 option \<Rightarrow>
   u64 \<Rightarrow> u64 \<Rightarrow> u64 \<Rightarrow> hprocs \<Rightarrow> u64 \<times> hprocs" where
  "memory_update_create tq ps0 prepare_provider ps1 acquire prepare_admitted new_arc mem cur endpoint identity admission ps =
     (case cur of
        None \<Rightarrow> (into_raw NotReady, ps)
      | Some pid \<Rightarrow>
          (case provider_key tq ps0 cur endpoint identity of
             Inl e \<Rightarrow> (into_raw e, ps)
           | Inr key \<Rightarrow>
               (case (if admission = 0 then prepare_provider key
                      else case object_native cur admission R_WAIT ps1 of
                             Inl e \<Rightarrow> Inl (into_raw e)
                           | Inr (O_MemoryAdmission a) \<Rightarrow>
                               (case acquire a key of
                                  Inl e \<Rightarrow> Inl (into_raw e)
                                | Inr _ \<Rightarrow> prepare_admitted a)
                           | Inr _ \<Rightarrow> Inl (into_raw InvalidArgument)) of
                  Inl raw \<Rightarrow> (raw, ps)
                | Inr _ \<Rightarrow>
                    (case new_arc of
                       None \<Rightarrow> (into_raw ResourceUnavailable, ps)
                     | Some a \<Rightarrow> map_prod native id (with_process_mut ps pid
                         (insert_in mem \<lparr>he_object = O_MemoryUpdate a, he_rights = R_CONTROL\<rparr>))))))"

section \<open>Process handles\<close>

definition PROCESS_HANDLE_RIGHTS :: handle_rights where
  "PROCESS_HANDLE_RIGHTS = rights_union (rights_union R_WAIT R_DUPLICATE) R_TRANSFER"

definition PROCESS_ADMIN_HANDLE_RIGHTS :: handle_rights where
  "PROCESS_ADMIN_HANDLE_RIGHTS = rights_union PROCESS_HANDLE_RIGHTS R_SIGNAL"

text \<open>The process being created is not in the table yet; its object is given.\<close>

definition retain_created_process :: "bool \<Rightarrow> arc \<Rightarrow> u64 option \<Rightarrow> hprocs \<Rightarrow> (status_error + u64) \<times> hprocs" where
  "retain_created_process mem target_object cur ps =
     (case cur of
        None \<Rightarrow> (Inl NotReady, ps)
      | Some owner \<Rightarrow>
          (case with_process_mut ps owner (\<lambda>p.
             case table_insert mem \<lparr>he_object = O_Process target_object, he_rights = PROCESS_ADMIN_HANDLE_RIGHTS\<rparr> (hp_handles p) of
               (Some h, t) \<Rightarrow> (Inr (ucast h), p\<lparr>hp_handles := t\<rparr>)
             | (None, t) \<Rightarrow> (Inl ResourceUnavailable, p\<lparr>hp_handles := t\<rparr>)) of
             (None, ps') \<Rightarrow> (Inl NotReady, ps')
           | (Some r, ps') \<Rightarrow> (r, ps')))"

definition insert_process_handle ::
  "bool \<Rightarrow> hprocs \<Rightarrow> u64 \<Rightarrow> handle_rights \<Rightarrow> u64 option \<Rightarrow> hprocs \<Rightarrow> u64 \<times> hprocs" where
  "insert_process_handle mem ps0 target rights cur ps =
     (case with_process ps0 target hp_object of
        None \<Rightarrow> (into_raw NotFound, ps)
      | Some target_object \<Rightarrow>
          (case cur of
             None \<Rightarrow> (into_raw NotReady, ps)
           | Some pid \<Rightarrow> map_prod native id (with_process_mut ps pid
               (insert_in mem \<lparr>he_object = O_Process target_object, he_rights = rights\<rparr>))))"

definition process_has_any_capability :: "process_table \<Rightarrow> u64 \<Rightarrow> capability list \<Rightarrow> bool" where
  "process_has_any_capability table pid caps = list_ex (process_has_capability table pid) caps"

definition caller_has_any_capability :: "process_table \<Rightarrow> u64 option \<Rightarrow> capability list \<Rightarrow> bool" where
  "caller_has_any_capability table cur caps =
     (case cur of Some pid \<Rightarrow> process_has_any_capability table pid caps | None \<Rightarrow> False)"

definition process_open ::
  "process_table \<Rightarrow> thread_queue \<Rightarrow> endpoint_registry \<Rightarrow> thread_queue \<Rightarrow> bool \<Rightarrow> hprocs \<Rightarrow> u64 option \<Rightarrow> u64 \<Rightarrow> u64 \<Rightarrow>
   hprocs \<Rightarrow> u64 \<times> hprocs" where
  "process_open table tq reg tq' mem ps0 cur endpoint requested_rights ps =
     (if \<not> caller_has_any_capability table cur [ProcessInspect] then (into_raw AccessDenied, ps)
      else case rights_from_bits requested_rights of
        None \<Rightarrow> (into_raw InvalidArgument, ps)
      | Some rights \<Rightarrow>
          if \<not> rights_contains PROCESS_ADMIN_HANDLE_RIGHTS rights then (into_raw InvalidArgument, ps)
          else if rights_contains rights R_SIGNAL \<and> \<not> caller_has_any_capability table cur [ProcessKill]
          then (into_raw AccessDenied, ps)
          else case resolve_endpoint_handle tq reg endpoint of
                 None \<Rightarrow> (into_raw InvalidArgument, ps)
               | Some thread_id \<Rightarrow>
                   (case thread_to_process_id tq' thread_id of
                      None \<Rightarrow> (into_raw NotFound, ps)
                    | Some target \<Rightarrow> insert_process_handle mem ps0 target rights cur ps))"

definition process_open_by_id ::
  "process_table \<Rightarrow> bool \<Rightarrow> hprocs \<Rightarrow> u64 option \<Rightarrow> u64 \<Rightarrow> u64 \<Rightarrow> hprocs \<Rightarrow> u64 \<times> hprocs" where
  "process_open_by_id table mem ps0 cur process_id requested_rights ps =
     (if process_id = 0 then (into_raw InvalidArgument, ps)
      else if \<not> caller_has_any_capability table cur [ProcessInspect] then (into_raw AccessDenied, ps)
      else case rights_from_bits requested_rights of
        None \<Rightarrow> (into_raw InvalidArgument, ps)
      | Some rights \<Rightarrow>
          if \<not> rights_contains PROCESS_ADMIN_HANDLE_RIGHTS rights then (into_raw InvalidArgument, ps)
          else if rights_contains rights R_SIGNAL \<and> \<not> caller_has_any_capability table cur [ProcessKill]
          then (into_raw AccessDenied, ps)
          else insert_process_handle mem ps0 process_id rights cur ps)"

section \<open>Endpoints, threads, address spaces and completions\<close>

definition endpoint_entry :: "ipc_endpoint \<Rightarrow> u8 \<Rightarrow> handle_entry" where
  "endpoint_entry endpoint endpoint_rights =
     (let rights = rights_union R_DUPLICATE R_TRANSFER;
          rights = (if ep_contains endpoint_rights EP_SEND then rights_union rights R_SEND else rights);
          rights = (if ep_contains endpoint_rights EP_RECV
                    then rights_union (rights_union rights R_RECEIVE) R_WAIT else rights)
      in \<lparr>he_object = O_IpcEndpoint (ep_thread_id endpoint) (ep_slot endpoint) (ep_generation endpoint),
          he_rights = rights\<rparr>)"

definition create_handle ::
  "thread_queue \<Rightarrow> thread_queue \<Rightarrow> process_table \<Rightarrow> bool \<Rightarrow> u64 option \<Rightarrow> u64 \<Rightarrow> hprocs \<Rightarrow> u64 \<times> hprocs" where
  "create_handle tq tq' table mem current_thread flags ps =
     (if flags \<noteq> 0 then (into_raw InvalidArgument, ps)
      else case current_thread of
        None \<Rightarrow> (into_raw NotReady, ps)
      | Some thread_id \<Rightarrow>
          (case thread_to_process_id tq thread_id of
             None \<Rightarrow> (into_raw NotReady, ps)
           | Some pid \<Rightarrow>
               (case endpoint_for_thread tq' thread_id of
                  None \<Rightarrow> (into_raw NotReady, ps)
                | Some endpoint \<Rightarrow>
                    map_prod native id (with_process_mut ps pid
                      (insert_in mem (endpoint_entry endpoint (endpoint_rights_for_process table pid)))))))"

definition THREAD_HANDLE_RIGHTS :: handle_rights where
  "THREAD_HANDLE_RIGHTS = rights_union (rights_union (rights_union R_WAIT R_SIGNAL) R_DUPLICATE) R_TRANSFER"

definition create_thread_handle :: "thread_queue \<Rightarrow> bool \<Rightarrow> u64 option \<Rightarrow> hprocs \<Rightarrow> u64 \<times> hprocs" where
  "create_thread_handle tq mem current_thread ps =
     (case current_thread of
        None \<Rightarrow> (into_raw NotReady, ps)
      | Some thread_id \<Rightarrow>
          (case thread_to_process_id tq thread_id of
             None \<Rightarrow> (into_raw NotReady, ps)
           | Some pid \<Rightarrow> map_prod native id (with_process_mut ps pid
               (insert_in mem \<lparr>he_object = O_Thread thread_id, he_rights = THREAD_HANDLE_RIGHTS\<rparr>))))"

datatype clone_error = BorrowedMapping | Backing status_error | Allocation | MissingPageTable

definition clone_error_raw :: "clone_error \<Rightarrow> u64" where
  "clone_error_raw e = (case e of
       BorrowedMapping \<Rightarrow> into_raw AccessDenied
     | Backing error \<Rightarrow> into_raw error
     | Allocation \<Rightarrow> into_raw ResourceUnavailable
     | MissingPageTable \<Rightarrow> into_raw NotReady)"

definition address_space_rights :: handle_rights where
  "address_space_rights = rights_union (rights_union R_CONTROL R_DUPLICATE) R_TRANSFER"

definition clone_in :: "clone_error + unit \<Rightarrow> bool \<Rightarrow> bool \<Rightarrow> arc option \<Rightarrow> bool \<Rightarrow> hproc \<Rightarrow> u64 \<times> hproc" where
  "clone_in captured cloned invalidated new_arc mem p =
     (case captured of
        Inl e \<Rightarrow> (clone_error_raw e, p)
      | Inr _ \<Rightarrow>
          if \<not> invalidated then (into_raw BackingFailure, p)
          else if \<not> cloned then (into_raw ResourceUnavailable, p)
          else case new_arc of
                 None \<Rightarrow> (into_raw ResourceUnavailable, p)
               | Some a \<Rightarrow> insert_in mem \<lparr>he_object = O_AddressSpace a, he_rights = address_space_rights\<rparr> p)"

definition clone_address_space ::
  "process_table \<Rightarrow> bool \<Rightarrow> u64 option \<Rightarrow> clone_error + unit \<Rightarrow> bool \<Rightarrow> bool \<Rightarrow> arc option \<Rightarrow> bool \<Rightarrow> u64 option \<Rightarrow>
   hprocs \<Rightarrow> u64 \<times> hprocs" where
  "clone_address_space table transition current_thread captured cloned invalidated new_arc mem cur ps =
     (if \<not> caller_has_any_capability table cur [ProcessSpawn] then (into_raw AccessDenied, ps)
      else case cur of
        None \<Rightarrow> (into_raw NotReady, ps)
      | Some pid \<Rightarrow>
          if \<not> transition then (into_raw NotReady, ps)
          else case current_thread of
                 None \<Rightarrow> (into_raw NotReady, ps)
               | Some _ \<Rightarrow> map_prod native id
                   (with_process_mut ps pid (clone_in captured cloned invalidated new_arc mem)))"

definition completion_rights :: handle_rights where
  "completion_rights = rights_union (rights_union (rights_union R_READ R_WAIT) R_DUPLICATE) R_TRANSFER"

text \<open>
  The executor answers with the worker to wake, or rejects the submission; the entry is then taken
  back before the table is unlocked.
\<close>

definition submit_in :: "bool \<Rightarrow> arc \<Rightarrow> status_error + u64 \<Rightarrow> hproc \<Rightarrow> u64 \<times> hproc" where
  "submit_in mem receipt accepted p =
     (case table_insert mem \<lparr>he_object = O_Completion receipt, he_rights = completion_rights\<rparr> (hp_handles p) of
        (None, t) \<Rightarrow> (into_raw ResourceUnavailable, p\<lparr>hp_handles := t\<rparr>)
      | (Some h, t) \<Rightarrow>
          (case accepted of
             Inr _ \<Rightarrow> (ucast h, p\<lparr>hp_handles := t\<rparr>)
           | Inl e \<Rightarrow> (into_raw e, p\<lparr>hp_handles := snd (table_take_entry h t)\<rparr>)))"

definition submit :: "status_error + arc \<Rightarrow> bool \<Rightarrow> status_error + u64 \<Rightarrow> u64 \<Rightarrow> hprocs \<Rightarrow> u64 \<times> hprocs" where
  "submit prepared mem accepted pid ps =
     (case prepared of
        Inl e \<Rightarrow> (into_raw e, ps)
      | Inr receipt \<Rightarrow> map_prod native id (with_process_mut ps pid (submit_in mem receipt accepted)))"

section \<open>Stream pairs\<close>

definition stream_read_rights :: handle_rights where
  "stream_read_rights =
     rights_union (rights_union (rights_union (rights_union R_READ R_WAIT) R_CONTROL) R_DUPLICATE) R_TRANSFER"

definition stream_write_rights :: handle_rights where
  "stream_write_rights =
     rights_union (rights_union (rights_union (rights_union R_WRITE R_WAIT) R_CONTROL) R_DUPLICATE) R_TRANSFER"

definition stream_pair_in ::
  "bool \<Rightarrow> bool \<Rightarrow> arc \<Rightarrow> arc \<Rightarrow> hproc \<Rightarrow> (object_handle \<times> object_handle) option \<times> hproc" where
  "stream_pair_in mem_read mem_write read_arc write_arc p =
     (case table_insert mem_read \<lparr>he_object = O_File read_arc, he_rights = stream_read_rights\<rparr> (hp_handles p) of
        (None, t) \<Rightarrow> (None, p\<lparr>hp_handles := t\<rparr>)
      | (Some r, t) \<Rightarrow>
          (case table_insert mem_write \<lparr>he_object = O_File write_arc, he_rights = stream_write_rights\<rparr> t of
             (None, t') \<Rightarrow> (None, p\<lparr>hp_handles := snd (table_close r t')\<rparr>)
           | (Some w, t') \<Rightarrow> (Some (r, w), p\<lparr>hp_handles := t'\<rparr>)))"

text \<open>The section that runs when the selectors could not be copied out.\<close>

definition stream_rollback_in :: "object_handle \<Rightarrow> object_handle \<Rightarrow> hproc \<Rightarrow> unit \<times> hproc" where
  "stream_rollback_in r w p =
     ((), p\<lparr>hp_handles := snd (table_close w (snd (table_close r (hp_handles p))))\<rparr>)"

definition stream_pair_create ::
  "bool \<Rightarrow> status_error + unit \<Rightarrow> arc option \<Rightarrow> arc option \<Rightarrow> bool \<Rightarrow> bool \<Rightarrow> (u8 list \<Rightarrow> status_error + unit) \<Rightarrow>
   (hprocs \<Rightarrow> hprocs) \<Rightarrow> u64 option \<Rightarrow> u64 \<Rightarrow> hprocs \<Rightarrow> u64 \<times> hprocs" where
  "stream_pair_create stream pair read_arc write_arc mem_read mem_write copy env cur output ps =
     (if output = 0 then (into_raw InvalidAddress, ps)
      else case cur of
        None \<Rightarrow> (into_raw NotReady, ps)
      | Some pid \<Rightarrow>
          if \<not> stream then (into_raw ResourceUnavailable, ps)
          else case pair of
            Inl e \<Rightarrow> (into_raw e, ps)
          | Inr _ \<Rightarrow>
              (case (read_arc, write_arc) of
                 (Some ra, Some wa) \<Rightarrow>
                   (case with_process_mut ps pid (stream_pair_in mem_read mem_write ra wa) of
                      (None, ps1) \<Rightarrow> (into_raw NotReady, ps1)
                    | (Some None, ps1) \<Rightarrow> (into_raw ResourceUnavailable, ps1)
                    | (Some (Some (r, w)), ps1) \<Rightarrow>
                        (case copy (to_le_bytes r @ to_le_bytes w) of
                           Inr _ \<Rightarrow> (SUCCESS, env ps1)
                         | Inl e \<Rightarrow> (into_raw e, snd (with_process_mut (env ps1) pid (stream_rollback_in r w)))))
               | _ \<Rightarrow> (into_raw ResourceUnavailable, ps)))"

section \<open>What a call does to the entries of a table\<close>

definition entry_le :: "handle_entry \<Rightarrow> handle_entry \<Rightarrow> bool" where
  "entry_le e' e \<longleftrightarrow> he_object e' = he_object e \<and> rights_contains (he_rights e) (he_rights e')"

definition table_entries :: "handle_table \<Rightarrow> handle_entry set" where
  "table_entries t = ran (published t) \<union> snd ` set (ht_pending t)"

definition transferable :: "handle_entry \<Rightarrow> bool" where
  "transferable e \<longleftrightarrow> rights_contains (he_rights e) R_TRANSFER"

text \<open>
  A process stays well formed, keeps its context live, and afterwards has only entries it had, weakened
  copies of them, or entries below the given new ones.
\<close>

definition passes :: "handle_entry set \<Rightarrow> hproc \<Rightarrow> hproc \<Rightarrow> bool" where
  "passes new p p' \<longleftrightarrow> keeps p p' \<and>
     (\<forall>e' \<in> table_entries (hp_handles p'). \<exists>e \<in> table_entries (hp_handles p) \<union> new. entry_le e' e)"

text \<open>A call changes at most one process of the table, in this way.\<close>

definition one_process :: "handle_entry set \<Rightarrow> hprocs \<Rightarrow> hprocs \<Rightarrow> bool" where
  "one_process new ps ps' \<longleftrightarrow>
     ps' = ps \<or> (\<exists>pid p p'. ps pid = Some p \<and> passes new p p' \<and> ps' = ps(pid \<mapsto> p'))"

text \<open>The entries under which an object made by an allocation enters a table.\<close>

definition made :: "(arc \<Rightarrow> kernel_object) \<Rightarrow> handle_rights \<Rightarrow> arc option \<Rightarrow> handle_entry set" where
  "made kind rights new_arc = (\<lambda>a. \<lparr>he_object = kind a, he_rights = rights\<rparr>) ` set_option new_arc"

definition procs_wf :: "hprocs \<Rightarrow> bool" where
  "procs_wf ps \<longleftrightarrow> (\<forall>p \<in> ran ps. hproc_wf p)"

lemma entry_le_refl: "entry_le e e"
  by (simp add: entry_le_def hr.contains_refl)

lemma entry_le_trans: "entry_le a b \<Longrightarrow> entry_le b c \<Longrightarrow> entry_le a c"
  by (auto simp: entry_le_def intro: hr.contains_trans)

lemma entry_le_transferable: "entry_le a b \<Longrightarrow> transferable a \<Longrightarrow> transferable b"
  by (auto simp: entry_le_def transferable_def intro: hr.contains_trans)

lemma passesI:
  "keeps p p' \<Longrightarrow> table_entries (hp_handles p') \<subseteq> table_entries (hp_handles p) \<union> new \<Longrightarrow> passes new p p'"
  by (auto simp: passes_def intro: entry_le_refl)

lemma passes_refl: "hproc_wf p \<Longrightarrow> passes new p p"
  by (rule passesI) (auto intro: keeps_refl)

lemma passes_mono: "passes new p p' \<Longrightarrow> new \<subseteq> new' \<Longrightarrow> passes new' p p'"
  unfolding passes_def by blast

lemma passes_wf: "passes new p p' \<Longrightarrow> hproc_wf p'"
  by (auto simp: passes_def intro: keeps_wf)

lemma passes_trans: "passes new p q \<Longrightarrow> passes new q r \<Longrightarrow> passes new p r"
  unfolding passes_def by (meson UnE UnI2 entry_le_trans keeps_trans)

lemma table_entries_mono:
  "published t' \<subseteq>\<^sub>m published t \<Longrightarrow> set (ht_pending t') \<subseteq> set (ht_pending t) \<Longrightarrow> table_entries t' \<subseteq> table_entries t"
proof -
  assume le: "published t' \<subseteq>\<^sub>m published t" and pending: "set (ht_pending t') \<subseteq> set (ht_pending t)"
  have "published t h = Some e" if "published t' h = Some e" for h e using le that by (metis map_le_def domI)
  then have "ran (published t') \<subseteq> ran (published t)" by (auto simp: ran_def)
  then show ?thesis using pending by (auto simp: table_entries_def)
qed

lemma table_entries_upd:
  "published t' = (published t)(h \<mapsto> e) \<Longrightarrow> ht_pending t' = ht_pending t \<Longrightarrow> table_entries t' \<subseteq> insert e (table_entries t)"
  by (auto simp: table_entries_def ran_def split: if_splits)

lemma insert_passes:
  assumes "hproc_wf p" and "table_insert mem e (hp_handles p) = (h, t)"
  shows "passes {e} p (p\<lparr>hp_handles := t\<rparr>)"
proof (rule passesI)
  show "keeps p (p\<lparr>hp_handles := t\<rparr>)" by (rule insert_keeps [OF assms])
  show "table_entries (hp_handles (p\<lparr>hp_handles := t\<rparr>)) \<subseteq> table_entries (hp_handles p) \<union> {e}"
    using table_insert_spec [OF hproc_wfD(1) [OF assms(1)] assms(2)] table_entries_upd
    by (cases h) (auto simp: table_entries_def)
qed

lemma insert_in_passes:
  assumes "hproc_wf p" and "insert_in mem e p = (r, p')"
  shows "passes {e} p p'"
proof -
  obtain h t where t: "table_insert mem e (hp_handles p) = (h, t)" by fastforce
  then have "p' = p\<lparr>hp_handles := t\<rparr>" using assms(2) by (auto simp: insert_in_def split: option.splits)
  then show ?thesis using insert_passes [OF assms(1) t] by simp
qed

lemma one_process_refl: "one_process new ps ps"
  by (simp add: one_process_def)

lemma one_process_mut:
  assumes "procs_wf ps" and "with_process_mut ps pid f = (x, ps')"
    and "\<And>p r p'. hproc_wf p \<Longrightarrow> f p = (r, p') \<Longrightarrow> passes new p p'"
  shows "one_process new ps ps'"
proof (cases "ps pid")
  case None
  then show ?thesis using assms(2) by (simp add: with_process_mut_def one_process_refl)
next
  case (Some p)
  obtain r p' where f: "f p = (r, p')" by fastforce
  then have "ps' = ps(pid \<mapsto> p')" using assms(2) Some by (simp add: with_process_mut_def)
  moreover have "passes new p p'" using assms(1) Some f by (intro assms(3)) (auto simp: procs_wf_def ran_def)
  ultimately show ?thesis using Some by (auto simp: one_process_def)
qed

lemma one_process_call:
  assumes "procs_wf ps" and "map_prod native id (with_process_mut ps pid f) = (r, ps')"
    and "\<And>p r p'. hproc_wf p \<Longrightarrow> f p = (r, p') \<Longrightarrow> passes new p p'"
  shows "one_process new ps ps'"
  using assms(2) one_process_mut [OF assms(1) _ assms(3)] by (cases "with_process_mut ps pid f") auto

lemma one_process_insert:
  assumes "procs_wf ps" and "map_prod native id (with_process_mut ps pid (insert_in mem e)) = (r, ps')" and "e \<in> new"
  shows "one_process new ps ps'"
  by (rule one_process_call [OF assms(1,2)]) (use insert_in_passes passes_mono assms(3) in blast)

lemma made_Some [simp]: "made kind rights (Some a) = {\<lparr>he_object = kind a, he_rights = rights\<rparr>}"
  by (simp add: made_def)

lemma rights_from_bits_Some: "rights_from_bits bits = Some rights \<Longrightarrow> rights = bits"
  by (simp add: rights_from_bits_def split: if_splits)

subsection \<open>The calls that make an object\<close>

lemma memory_object_create_makes:
  assumes "procs_wf ps" and "memory_object_create backing memory_arc object_arc mem cur size_bytes options ps = (r, ps')"
  shows "one_process (made O_VmObject (memory_object_rights (options AND MEMORY_OBJECT_RESIZABLE \<noteq> 0)) object_arc) ps ps'"
proof (cases "options AND NOT MEMORY_OBJECT_RESIZABLE \<noteq> 0 \<or> cur = None")
  case True
  then show ?thesis using assms(2) by (auto simp: memory_object_create_def one_process_refl split: if_splits)
next
  case False
  then obtain pid where run: "cur = Some pid" "\<not> options AND NOT MEMORY_OBJECT_RESIZABLE \<noteq> 0" by auto
  show ?thesis
    by (rule one_process_call [OF assms(1) assms(2) [unfolded memory_object_create_def if_not_P [OF run(2)] run(1) option.case]])
      (auto simp: Let_def intro: passes_refl insert_in_passes split: sum.splits if_splits option.splits)
qed

lemma provider_object_create_makes:
  assumes "procs_wf ps"
    and "provider_object_create tq ps0 provider new_arc registered mem cur endpoint object_id requested ps = (r, ps')"
  shows "one_process (made O_Provider requested new_arc) ps ps'"
  using assms(2)
  by (auto simp: provider_object_create_def dest: rights_from_bits_Some intro: one_process_refl one_process_insert [OF assms(1)]
      split: if_splits option.splits sum.splits)

lemma create_admission_makes:
  assumes "procs_wf ps" and "create_admission tq ps0 admission new_arc mem cur endpoint identity ps = (r, ps')"
  shows "one_process (made O_MemoryAdmission (rights_union R_WAIT R_TRANSFER) new_arc) ps ps'"
  using assms(2)
  by (auto simp: create_admission_def intro: one_process_refl one_process_insert [OF assms(1)] split: option.splits sum.splits)

lemma memory_update_create_makes:
  assumes "procs_wf ps"
    and "memory_update_create tq ps0 prepare_provider ps1 acquire prepare_admitted new_arc mem cur endpoint identity admission ps = (r, ps')"
  shows "one_process (made O_MemoryUpdate R_CONTROL new_arc) ps ps'"
proof -
  from assms(2) consider "ps' = ps" | pid a where "new_arc = Some a" "map_prod native id (with_process_mut ps pid
      (insert_in mem \<lparr>he_object = O_MemoryUpdate a, he_rights = R_CONTROL\<rparr>)) = (r, ps')"
    unfolding memory_update_create_def by (simp only: split: option.splits sum.splits) auto
  then show ?thesis by cases (auto intro: one_process_refl one_process_insert [OF assms(1)])
qed

lemma clone_address_space_makes:
  assumes "procs_wf ps"
    and "clone_address_space table transition thread captured cloned invalidated new_arc mem cur ps = (r, ps')"
  shows "one_process (made O_AddressSpace address_space_rights new_arc) ps ps'"
proof -
  have "passes (made O_AddressSpace address_space_rights new_arc) p p'"
    if "hproc_wf p" "clone_in captured cloned invalidated new_arc mem p = (x, p')" for p x p'
    using that by (auto simp: clone_in_def intro: passes_refl insert_in_passes split: sum.splits if_splits option.splits)
  from one_process_call [OF assms(1) _ this] assms(2) show ?thesis
    by (auto simp: clone_address_space_def intro: one_process_refl split: if_splits option.splits)
qed

text \<open>An entry that is inserted and removed again before the table is unlocked leaves the published entries as they were.\<close>

lemma taken_back_passes:
  assumes "hproc_wf p" and "table_ok t" and "published t = (published (hp_handles p))(h \<mapsto> e)"
    and "published (hp_handles p) h = None" and "ht_pending t = ht_pending (hp_handles p)"
    and "table_ok t'" and "published t' = (published t)(h := None)" and "ht_pending t' = ht_pending t"
  shows "passes new p (p\<lparr>hp_handles := t'\<rparr>)"
proof (rule passesI)
  have same: "published t' = published (hp_handles p)" using assms(3,4,7) by (simp add: fun_upd_idem)
  show "keeps p (p\<lparr>hp_handles := t'\<rparr>)" by (rule more_handles_keeps [OF assms(1,6)]) (simp add: same)
  show "table_entries (hp_handles (p\<lparr>hp_handles := t'\<rparr>)) \<subseteq> table_entries (hp_handles p) \<union> new"
    using same assms(5,8) by (auto simp: table_entries_def)
qed

lemma submit_in_passes:
  assumes "hproc_wf p" and "submit_in mem receipt accepted p = (r, p')"
  shows "passes (made O_Completion completion_rights (Some receipt)) p p'"
proof -
  obtain h t where t: "table_insert mem \<lparr>he_object = O_Completion receipt, he_rights = completion_rights\<rparr> (hp_handles p) = (h, t)"
    by fastforce
  note spec = table_insert_spec [OF hproc_wfD(1) [OF assms(1)] t]
  consider "p' = p\<lparr>hp_handles := t\<rparr>" | k where "h = Some k" "p' = p\<lparr>hp_handles := snd (table_take_entry k t)\<rparr>"
    using assms(2) t by (auto simp: submit_in_def split: option.splits sum.splits)
  then show ?thesis
  proof cases
    case 1
    then show ?thesis using insert_passes [OF assms(1) t] by simp
  next
    case 2
    obtain x t' where t': "table_take_entry k t = (x, t')" by fastforce
    have ok: "table_ok t" using spec 2 by simp
    note taken = table_take_entry_spec [OF ok t']
    show ?thesis
      unfolding 2(2) t' snd_conv
      by (rule taken_back_passes [OF assms(1) ok, of k "\<lparr>he_object = O_Completion receipt, he_rights = completion_rights\<rparr>"])
        (use spec taken 2 in auto)
  qed
qed

lemma submit_makes:
  assumes "procs_wf ps" and "submit prepared mem accepted pid ps = (r, ps')"
  shows "one_process (case prepared of Inl _ \<Rightarrow> {} | Inr receipt \<Rightarrow> made O_Completion completion_rights (Some receipt)) ps ps'"
proof (cases prepared)
  case (Inl e)
  then show ?thesis using assms(2) by (simp add: submit_def one_process_refl)
next
  case (Inr receipt)
  then show ?thesis
    using one_process_call [OF assms(1) _ submit_in_passes [where receipt = receipt]] assms(2) by (simp add: submit_def)
qed

lemma stream_pair_in_passes:
  assumes "hproc_wf p" and "stream_pair_in mem_read mem_write ra wa p = (x, p')"
  shows "passes (made O_File stream_read_rights (Some ra) \<union> made O_File stream_write_rights (Some wa)) p p'"
proof -
  let ?r = "\<lparr>he_object = O_File ra, he_rights = stream_read_rights\<rparr>"
  let ?w = "\<lparr>he_object = O_File wa, he_rights = stream_write_rights\<rparr>"
  obtain h t where t: "table_insert mem_read ?r (hp_handles p) = (h, t)" by fastforce
  note first = insert_passes [OF assms(1) t] and spec = table_insert_spec [OF hproc_wfD(1) [OF assms(1)] t]
  show ?thesis
  proof (cases h)
    case None
    then have "p' = p\<lparr>hp_handles := t\<rparr>" using assms(2) t by (simp add: stream_pair_in_def)
    then show ?thesis using passes_mono [OF first] by simp
  next
    case (Some r)
    obtain k t2 where t2: "table_insert mem_write ?w t = (k, t2)" by fastforce
    have "table_insert mem_write ?w (hp_handles (p\<lparr>hp_handles := t\<rparr>)) = (k, t2)" using t2 by simp
    from insert_passes [OF passes_wf [OF first] this] have both: "passes {?r, ?w} p (p\<lparr>hp_handles := t2\<rparr>)"
      using passes_trans [OF passes_mono [OF first] passes_mono] by auto
    show ?thesis
    proof (cases k)
      case no: None
      obtain y t3 where t3: "table_close r t2 = (y, t3)" by fastforce
      then have p': "p' = p\<lparr>hp_handles := t3\<rparr>" using assms(2) t t2 Some no by (simp add: stream_pair_in_def)
      have ok: "table_ok t" using spec Some by simp
      note spec2 = table_insert_spec [OF ok t2]
      from spec2 no have ok2: "table_ok t2" "published t2 = published t" "ht_pending t2 = ht_pending t" by simp_all
      note closed = table_close_spec [OF ok2(1) t3]
      show ?thesis unfolding p' by (rule taken_back_passes [OF assms(1) ok2(1), of r ?r]) (use spec Some ok2 closed in auto)
    next
      case (Some w)
      then have "p' = p\<lparr>hp_handles := t2\<rparr>" using assms(2) t t2 \<open>h = Some r\<close> by (simp add: stream_pair_in_def)
      then show ?thesis using both by (simp add: insert_commute)
    qed
  qed
qed

text \<open>The rollback of a stream pair takes entries away, but leaves the launch context as it is.\<close>

lemma stream_rollback_in_spec:
  assumes "hproc_wf p" and "stream_rollback_in r w p = (x, p')"
  shows "hproc_wf p'" and "hp_launch p' = hp_launch p"
    and "published (hp_handles p') = (published (hp_handles p))(r := None, w := None)"
    and "ht_pending (hp_handles p') = ht_pending (hp_handles p)"
proof -
  obtain y t z t' where t: "table_close r (hp_handles p) = (y, t)" "table_close w t = (z, t')" by fastforce
  note first = table_close_spec [OF hproc_wfD(1) [OF assms(1)] t(1)]
  then have "table_ok t" by blast
  note second = table_close_spec [OF this t(2)]
  have p': "p' = p\<lparr>hp_handles := t'\<rparr>" using assms(2) t by (simp add: stream_rollback_in_def)
  show "hproc_wf p'" "hp_launch p' = hp_launch p"
    "published (hp_handles p') = (published (hp_handles p))(r := None, w := None)"
    "ht_pending (hp_handles p') = ht_pending (hp_handles p)"
    using first second hproc_wfD(2) [OF assms(1)] by (simp_all add: p' hproc_wf_def)
qed

subsection \<open>The calls that open an object\<close>

lemma retain_created_process_opens:
  assumes "procs_wf ps" and "retain_created_process mem a cur ps = (r, ps')"
  shows "one_process {\<lparr>he_object = O_Process a, he_rights = PROCESS_ADMIN_HANDLE_RIGHTS\<rparr>} ps ps'"
proof (cases cur)
  case None
  then show ?thesis using assms(2) by (simp add: retain_created_process_def one_process_refl)
next
  case (Some owner)
  let ?e = "\<lparr>he_object = O_Process a, he_rights = PROCESS_ADMIN_HANDLE_RIGHTS\<rparr>"
  let ?f = "\<lambda>p. case table_insert mem ?e (hp_handles p) of
      (Some h, t) \<Rightarrow> (Inr (ucast h) :: status_error + u64, p\<lparr>hp_handles := t\<rparr>)
    | (None, t) \<Rightarrow> (Inl ResourceUnavailable, p\<lparr>hp_handles := t\<rparr>)"
  obtain x where run: "with_process_mut ps owner ?f = (x, ps')"
    using assms(2) Some by (cases "with_process_mut ps owner ?f") (auto simp: retain_created_process_def split: option.splits)
  have "passes {?e} p p'" if p: "hproc_wf p" "?f p = (y, p')" for p y p'
  proof -
    obtain h t where t: "table_insert mem ?e (hp_handles p) = (h, t)" by fastforce
    then have "p' = p\<lparr>hp_handles := t\<rparr>" using p(2) by (auto split: option.splits)
    then show ?thesis using insert_passes [OF p(1) t] by simp
  qed
  from one_process_mut [OF assms(1) run this] show ?thesis .
qed

lemma insert_process_handle_opens:
  assumes "procs_wf ps" and "insert_process_handle mem ps0 target rights cur ps = (r, ps')" and "ps0 target = Some q"
  shows "one_process {\<lparr>he_object = O_Process (hp_object q), he_rights = rights\<rparr>} ps ps'"
  using assms(2,3)
  by (auto simp: insert_process_handle_def with_process_def intro: one_process_refl one_process_insert [OF assms(1)]
      split: option.splits)

lemma insert_process_handle_missing:
  "insert_process_handle mem ps0 target rights cur ps = (r, ps') \<Longrightarrow> ps0 target = None \<Longrightarrow> ps' = ps"
  by (simp add: insert_process_handle_def with_process_def)

lemma process_open_by_id_opens:
  assumes "procs_wf ps" and "process_open_by_id table mem ps0 cur process_id requested ps = (r, ps')"
    and "ps0 process_id = Some q"
  shows "one_process {\<lparr>he_object = O_Process (hp_object q), he_rights = requested\<rparr>} ps ps'"
  using assms(2) insert_process_handle_opens [where ?ps0.0 = ps0 and target = process_id and q = q, OF assms(1) _ assms(3)]
  by (auto simp: process_open_by_id_def dest: rights_from_bits_Some intro: one_process_refl split: if_splits option.splits)

lemma process_open_opens:
  assumes "procs_wf ps" and "process_open table tq reg tq' mem ps0 cur endpoint requested ps = (r, ps')"
    and "resolve_endpoint_handle tq reg endpoint = Some thread_id" and "thread_to_process_id tq' thread_id = Some target"
    and "ps0 target = Some q"
  shows "one_process {\<lparr>he_object = O_Process (hp_object q), he_rights = requested\<rparr>} ps ps'"
  using assms(2-4) insert_process_handle_opens [where ?ps0.0 = ps0 and target = target and q = q, OF assms(1) _ assms(5)]
  by (auto simp: process_open_def dest: rights_from_bits_Some intro: one_process_refl split: if_splits option.splits)

lemma create_handle_opens:
  assumes "procs_wf ps" and "create_handle tq tq' table mem (Some thread_id) flags ps = (r, ps')"
    and "thread_to_process_id tq thread_id = Some pid" and "endpoint_for_thread tq' thread_id = Some endpoint"
  shows "one_process {endpoint_entry endpoint (endpoint_rights_for_process table pid)} ps ps'"
  using assms(2-4) by (auto simp: create_handle_def intro: one_process_refl one_process_insert [OF assms(1)] split: if_splits)

lemma create_thread_handle_opens:
  assumes "procs_wf ps" and "create_thread_handle tq mem (Some thread_id) ps = (r, ps')"
  shows "one_process {\<lparr>he_object = O_Thread thread_id, he_rights = THREAD_HANDLE_RIGHTS\<rparr>} ps ps'"
  using assms(2) by (auto simp: create_thread_handle_def intro: one_process_refl one_process_insert [OF assms(1)] split: option.splits)

text \<open>Without the object they would open these calls change nothing.\<close>

lemma opens_nothing:
  "process_open_by_id table mem ps0 cur process_id requested ps = (r, ps') \<Longrightarrow> ps0 process_id = None \<Longrightarrow> ps' = ps"
  "process_open table tq reg tq' mem ps0 cur endpoint requested ps = (r, ps') \<Longrightarrow>
    resolve_endpoint_handle tq reg endpoint = None \<or>
    (\<exists>thread_id. resolve_endpoint_handle tq reg endpoint = Some thread_id \<and>
       (case thread_to_process_id tq' thread_id of None \<Rightarrow> True | Some target \<Rightarrow> ps0 target = None)) \<Longrightarrow> ps' = ps"
  "create_handle tq tq' table mem cur flags ps = (r, ps') \<Longrightarrow>
    cur = None \<or> (\<exists>tid. cur = Some tid \<and> (thread_to_process_id tq tid = None \<or> endpoint_for_thread tq' tid = None)) \<Longrightarrow> ps' = ps"
  by (auto simp: process_open_by_id_def process_open_def create_handle_def dest: insert_process_handle_missing
      split: if_splits option.splits)

section \<open>Properties\<close>

lemma stream_pair_in_handles:
  assumes "hproc_wf p" and "stream_pair_in mem_read mem_write ra wa p = (Some (r, w), p')"
  shows "hproc_wf p'" and "hp_launch p' = hp_launch p" and "r \<noteq> w" and "r \<noteq> 0" and "w \<noteq> 0"
    and "published (hp_handles p) r = None" and "published (hp_handles p) w = None"
    and "published (hp_handles p') = (published (hp_handles p))
      (r \<mapsto> \<lparr>he_object = O_File ra, he_rights = stream_read_rights\<rparr>, w \<mapsto> \<lparr>he_object = O_File wa, he_rights = stream_write_rights\<rparr>)"
proof -
  from assms(2) obtain t t' where
    t: "table_insert mem_read \<lparr>he_object = O_File ra, he_rights = stream_read_rights\<rparr> (hp_handles p) = (Some r, t)"
      "table_insert mem_write \<lparr>he_object = O_File wa, he_rights = stream_write_rights\<rparr> t = (Some w, t')"
    and p': "p' = p\<lparr>hp_handles := t'\<rparr>" by (auto simp: stream_pair_in_def split: prod.splits option.splits)
  note first = table_insert_spec [OF hproc_wfD(1) [OF assms(1)] t(1)]
  then have "table_ok t" by simp
  note second = table_insert_spec [OF this t(2)]
  show "r \<noteq> w" using first second by auto
  show "r \<noteq> 0" "w \<noteq> 0" using first second by (auto simp: selector_ok_def)
  show "published (hp_handles p) r = None" using first by simp
  show "published (hp_handles p) w = None" using first second \<open>r \<noteq> w\<close> by simp
  show "hproc_wf p'" using second hproc_wfD(2) [OF assms(1)] by (simp add: p' hproc_wf_def)
  show "hp_launch p' = hp_launch p" by (simp add: p')
  show "published (hp_handles p') = (published (hp_handles p))
      (r \<mapsto> \<lparr>he_object = O_File ra, he_rights = stream_read_rights\<rparr>, w \<mapsto> \<lparr>he_object = O_File wa, he_rights = stream_write_rights\<rparr>)"
    using first second by (simp add: p')
qed

text \<open>C40: the rollback of a stream pair leaves a dangling key. The two handles of a new pair are in the
  table before their selectors are copied out. When a sibling thread stores one of them under a key of
  the launch context in between, and the copy then fails, the call closes both handles but, unlike
  \<open>close\<close>, does not remove the key: the context keeps naming a selector that resolves to nothing, and
  reading the key reports an invalid handle instead of a missing key.\<close>

theorem stream_rollback_leaves_key:
  assumes "ps pid = Some p" and "hproc_wf p" and "output \<noteq> 0"
    and "stream_pair_in mem_read mem_write ra wa p = (Some (r, w), p1)"
    and "env = (\<lambda>qs. snd (context_handle_set grow (Some pid) key (ucast r) qs))"
    and "fst (context_handle_set grow (Some pid) key (ucast r) (ps(pid \<mapsto> p1))) = SUCCESS"
    and "copy (to_le_bytes r @ to_le_bytes w) = Inl e"
    and "stream_pair_create True (Inr ()) (Some ra) (Some wa) mem_read mem_write copy env (Some pid) output ps = (x, ps')"
  shows "x = into_raw e \<and> launch_get (Some pid) key ps' = into_raw InvalidArgument \<and>
    (\<exists>p'. ps' pid = Some p' \<and> lc_get key (hp_launch p') = Some r \<and> published (hp_handles p') r = None)"
proof -
  note pair = stream_pair_in_handles [OF assms(2,4)]
  have h: "handle_from_u64 (ucast r) = Some r" by (rule handle_from_ucast [OF pair(4)])
  obtain y p2 where set: "context_set_in grow key r p1 = (y, p2)" by fastforce
  have sib: "context_handle_set grow (Some pid) key (ucast r) (ps(pid \<mapsto> p1)) = (y, ps(pid \<mapsto> p2))"
    by (simp add: context_handle_set_def h with_process_mut_def set native_def)
  have y: "y = SUCCESS" using assms(6) sib by simp
  obtain c where c: "lc_set grow key r (hp_launch p1) = (True, c)" "p2 = p1\<lparr>hp_launch := c\<rparr>"
    using set y by (auto simp: context_set_in_def split: if_splits prod.splits bool.splits)
  note stored = lc_set_spec [OF hproc_wfD(2) [OF pair(1)] c(1)]
  have wf2: "hproc_wf p2" using pair(1) stored(1) c(2) by (simp add: hproc_wf_def)
  obtain p3 where undo: "stream_rollback_in r w p2 = ((), p3)" by (cases "stream_rollback_in r w p2") auto
  note rolled = stream_rollback_in_spec [OF wf2 undo]
  have run: "x = into_raw e" "ps' = ps(pid \<mapsto> p3)"
    using assms(8) by (auto simp: stream_pair_create_def assms(1,3,4,5,7) with_process_mut_def sib undo)
  have key: "handle_map (hp_launch p3) key = Some r" using stored(2) rolled(2) c(2) by simp
  have gone: "published (hp_handles p3) r = None" using rolled(3) by simp
  have get: "lc_get key (hp_launch p3) = Some r" using key hproc_wfD(2) [OF rolled(1)] by (simp add: lc_get_map)
  have "launch_get (Some pid) key ps' = into_raw InvalidArgument"
    using get gone table_get_published [OF hproc_wfD(1) [OF rolled(1)]]
    by (simp add: launch_get_def with_process_def native_def run)
  then show ?thesis using get gone run by simp
qed

definition demo_pair :: hproc where
  "demo_pair = demo_hproc\<lparr>hp_handles := demo_table\<lparr>ht_next := 4,
     ht_entries := [(1, demo_entry), (2, \<lparr>he_object = O_File 20, he_rights = stream_read_rights\<rparr>),
       (3, \<lparr>he_object = O_File 21, he_rights = stream_write_rights\<rparr>)]\<rparr>\<rparr>"

lemma demo_second_selector:
  "free_selector (demo_table\<lparr>ht_next := 3, ht_entries := [(1, demo_entry), (2, e)]\<rparr>) =
     (Some (3, 2), demo_table\<lparr>ht_next := 4, ht_entries := [(1, demo_entry), (2, e)]\<rparr>)"
proof -
  have "PROCESS_MAX_OBJECT_HANDLES = Suc 4095" by (simp add: PROCESS_MAX_OBJECT_HANDLES_def)
  then have "free_selector t = free_selector_loop (Suc 4095) t" for t by (simp only: free_selector_def)
  then show ?thesis
    unfolding free_selector_loop.simps
    by (simp add: demo_table_def clamp_selector_def next_selector_def handle_pending_def search_base.simps
        binary_search_by_key_def Let_def PROCESS_MAX_OBJECT_HANDLES_def)
qed

lemma demo_stream_pair: "stream_pair_in True True 20 21 demo_hproc = (Some (2, 3), demo_pair)"
proof -
  have first: "table_insert True e demo_table = (Some 2, demo_table\<lparr>ht_next := 3, ht_entries := [(1, demo_entry), (2, e)]\<rparr>)" for e
    by (simp add: table_insert_def demo_selector) (simp add: reserve_publication_storage_def demo_table_def vec_insert_def
        PROCESS_MAX_OBJECT_HANDLES_def)
  have second: "table_insert True e' (demo_table\<lparr>ht_next := 3, ht_entries := [(1, demo_entry), (2, e)]\<rparr>) =
      (Some 3, demo_table\<lparr>ht_next := 4, ht_entries := [(1, demo_entry), (2, e), (3, e')]\<rparr>)" for e e'
    by (simp add: table_insert_def demo_second_selector) (simp add: reserve_publication_storage_def demo_table_def vec_insert_def
        PROCESS_MAX_OBJECT_HANDLES_def)
  have p: "hp_handles demo_hproc = demo_table" by (simp add: demo_hproc_def)
  show ?thesis by (simp add: stream_pair_in_def p first second demo_pair_def)
qed

lemma demo_sibling: "fst (context_handle_set True (Some 7) 5 (ucast (2 :: u32)) ([7 \<mapsto> demo_hproc](7 \<mapsto> demo_pair))) = SUCCESS"
proof -
  have "handle_from_u64 (ucast (2 :: u32)) = Some 2" by (rule handle_from_ucast) simp
  moreover have "table_get 2 (hp_handles demo_pair) \<noteq> None"
    by (simp add: demo_pair_def demo_hproc_def table_get_def demo_table_def binary_search_by_key_def search_base.simps)
  moreover have "lc_set True 5 2 (hp_launch demo_pair) =
      (True, \<lparr>lc_handles = \<lparr>en_items = [(5, 2), (9, 1)], en_capacity = 4\<rparr>, lc_values = entries_new\<rparr>)"
    by (simp add: demo_pair_def demo_hproc_def lc_set_def entries_insert_def entries_index_def entries_len_def binary_search_by_key_def search_base.simps
        vec_insert_def PROCESS_MAX_INHERITED_HANDLES_def)
  ultimately show ?thesis by (simp add: context_handle_set_def with_process_mut_def context_set_in_def native_def)
qed

theorem stream_rollback_leaves_key_witness:
  "\<exists>env ps'. stream_pair_create True (Inr ()) (Some 20) (Some 21) True True (\<lambda>_. Inl InvalidAddress) env (Some 7) 0x1000
      [7 \<mapsto> demo_hproc] = (into_raw InvalidAddress, ps') \<and>
    launch_get (Some 7) 5 ps' = into_raw InvalidArgument"
proof -
  let ?env = "\<lambda>qs. snd (context_handle_set True (Some 7) 5 (ucast (2 :: u32)) qs)"
  obtain x ps' where run: "stream_pair_create True (Inr ()) (Some 20) (Some 21) True True (\<lambda>_. Inl InvalidAddress) ?env (Some 7)
      0x1000 [7 \<mapsto> demo_hproc] = (x, ps')" by fastforce
  have "[7 \<mapsto> demo_hproc] 7 = Some demo_hproc" by simp
  from stream_rollback_leaves_key [where ps = "[7 \<mapsto> demo_hproc]" and pid = 7, OF this hproc_ok_wf [OF demo_hproc_ok] _
      demo_stream_pair refl demo_sibling _ run]
  show ?thesis using run by auto
qed

end
