(* ===== verification/Object_Flow.thy ===== *)
theory Object_Flow
  imports Handle_Creation
begin

text \<open>
  How kernel objects move between processes. The handle system calls, the calls that make or open an
  object, message deliveries, captures, image replacements and process creation are put together as
  steps of one system; each is shown to be a step of an abstract flow, in which an object leaves a
  process only through a transferable entry and never gains a right. The interface \<open>attenuation\<close> is
  interpreted on these steps.
\<close>

section \<open>Objects in the system\<close>

text \<open>
  Every process, the entries on their way between processes (attached to a message, or granted
  to a process being created), the captures, and the entries under which a call has made or opened
  an object so far. Each step is one locked section; what a call has read before is arbitrary.

  An identity names one allocation, not an address: an object that is made is none of those that
  were made before. Endpoints, processes and threads have calls that open them anew; every other
  object enters a table only when it is made.
\<close>

record hworld =
  hw_procs :: hprocs
  hw_transit :: "handle_entry set"
  hw_snapshots :: "arc \<Rightarrow> handle_snapshot"
  hw_issued :: "handle_entry set"

definition reopenable :: "kernel_object \<Rightarrow> bool" where
  "reopenable obj \<longleftrightarrow>
     (case obj of O_IpcEndpoint _ _ _ \<Rightarrow> True | O_Process _ \<Rightarrow> True | O_Thread _ \<Rightarrow> True | _ \<Rightarrow> False)"

definition fresh :: "(arc \<Rightarrow> kernel_object) \<Rightarrow> arc option \<Rightarrow> hworld \<Rightarrow> bool" where
  "fresh kind new_arc w \<longleftrightarrow> kind ` set_option new_arc \<inter> he_object ` hw_issued w = {}"

definition store_capture :: "(arc \<times> handle_snapshot) option \<Rightarrow> (arc \<Rightarrow> handle_snapshot) \<Rightarrow> arc \<Rightarrow> handle_snapshot" where
  "store_capture c snapshots = (case c of None \<Rightarrow> snapshots | Some (a, s) \<Rightarrow> snapshots(a := s))"

inductive call_step :: "hworld \<Rightarrow> hworld \<Rightarrow> bool" where
  close: "close cur raw (hw_procs w) = (r, ps') \<Longrightarrow> call_step w (w\<lparr>hw_procs := ps'\<rparr>)"
| duplicate: "duplicate mem cur raw requested (hw_procs w) = (r, ps') \<Longrightarrow> call_step w (w\<lparr>hw_procs := ps'\<rparr>)"
| context_handle_set: "context_handle_set grow cur key raw (hw_procs w) = (r, ps') \<Longrightarrow> call_step w (w\<lparr>hw_procs := ps'\<rparr>)"
| context_handle_remove: "context_handle_remove cur key (hw_procs w) = (r, ps') \<Longrightarrow> call_step w (w\<lparr>hw_procs := ps'\<rparr>)"
| context_value_set: "context_value_set grow cur key v (hw_procs w) = (r, ps') \<Longrightarrow> call_step w (w\<lparr>hw_procs := ps'\<rparr>)"
| context_value_remove: "context_value_remove cur key (hw_procs w) = (r, ps') \<Longrightarrow> call_step w (w\<lparr>hw_procs := ps'\<rparr>)"
| capture: "fresh O_HandleSnapshot new_arc w \<Longrightarrow>
    table_capture_call mem_records new_arc mem cur (hw_procs w) = ((r, c), ps') \<Longrightarrow>
    call_step w (w\<lparr>hw_procs := ps', hw_snapshots := store_capture c (hw_snapshots w),
      hw_issued := hw_issued w \<union> made O_HandleSnapshot capture_rights new_arc\<rparr>)"
| memory_object_create: "fresh O_VmObject object_arc w \<Longrightarrow>
    memory_object_create backing memory_arc object_arc mem cur size_bytes options (hw_procs w) = (r, ps') \<Longrightarrow>
    call_step w (w\<lparr>hw_procs := ps', hw_issued := hw_issued w \<union>
      made O_VmObject (memory_object_rights (options AND MEMORY_OBJECT_RESIZABLE \<noteq> 0)) object_arc\<rparr>)"
| provider_object_create: "fresh O_Provider new_arc w \<Longrightarrow>
    provider_object_create tq ps0 provider new_arc registered mem cur endpoint object_id requested (hw_procs w) = (r, ps') \<Longrightarrow>
    call_step w (w\<lparr>hw_procs := ps', hw_issued := hw_issued w \<union> made O_Provider requested new_arc\<rparr>)"
| create_admission: "fresh O_MemoryAdmission new_arc w \<Longrightarrow>
    create_admission tq ps0 admission new_arc mem cur endpoint identity (hw_procs w) = (r, ps') \<Longrightarrow>
    call_step w (w\<lparr>hw_procs := ps', hw_issued := hw_issued w \<union>
      made O_MemoryAdmission (rights_union R_WAIT R_TRANSFER) new_arc\<rparr>)"
| memory_update_create: "fresh O_MemoryUpdate new_arc w \<Longrightarrow>
    memory_update_create tq ps0 prepare_provider ps1 acquire prepare_admitted new_arc mem cur endpoint identity admission
      (hw_procs w) = (r, ps') \<Longrightarrow>
    call_step w (w\<lparr>hw_procs := ps', hw_issued := hw_issued w \<union> made O_MemoryUpdate R_CONTROL new_arc\<rparr>)"
| clone_address_space: "fresh O_AddressSpace new_arc w \<Longrightarrow>
    clone_address_space table transition thread captured cloned invalidated new_arc mem cur (hw_procs w) = (r, ps') \<Longrightarrow>
    call_step w (w\<lparr>hw_procs := ps', hw_issued := hw_issued w \<union> made O_AddressSpace address_space_rights new_arc\<rparr>)"
| submit: "fresh O_Completion (Some receipt) w \<Longrightarrow> submit (Inr receipt) mem accepted pid (hw_procs w) = (r, ps') \<Longrightarrow>
    call_step w (w\<lparr>hw_procs := ps', hw_issued := hw_issued w \<union> made O_Completion completion_rights (Some receipt)\<rparr>)"
| stream_pair: "fresh O_File (Some ra) w \<Longrightarrow> fresh O_File (Some wa) w \<Longrightarrow> ra \<noteq> wa \<Longrightarrow>
    with_process_mut (hw_procs w) pid (stream_pair_in mem_read mem_write ra wa) = (handles, ps') \<Longrightarrow>
    call_step w (w\<lparr>hw_procs := ps', hw_issued := hw_issued w \<union>
      (made O_File stream_read_rights (Some ra) \<union> made O_File stream_write_rights (Some wa))\<rparr>)"
| retain_created_process: "retain_created_process mem a cur (hw_procs w) = (x, ps') \<Longrightarrow>
    call_step w (w\<lparr>hw_procs := ps', hw_issued := hw_issued w \<union>
      {\<lparr>he_object = O_Process a, he_rights = PROCESS_ADMIN_HANDLE_RIGHTS\<rparr>}\<rparr>)"
| process_open: "resolve_endpoint_handle tq reg endpoint = Some thread_id \<Longrightarrow> thread_to_process_id tq' thread_id = Some target \<Longrightarrow>
    ps0 target = Some q \<Longrightarrow> process_open table tq reg tq' mem ps0 cur endpoint requested (hw_procs w) = (r, ps') \<Longrightarrow>
    call_step w (w\<lparr>hw_procs := ps', hw_issued := hw_issued w \<union>
      {\<lparr>he_object = O_Process (hp_object q), he_rights = requested\<rparr>}\<rparr>)"
| process_open_by_id: "ps0 process_id = Some q \<Longrightarrow>
    process_open_by_id table mem ps0 cur process_id requested (hw_procs w) = (r, ps') \<Longrightarrow>
    call_step w (w\<lparr>hw_procs := ps', hw_issued := hw_issued w \<union>
      {\<lparr>he_object = O_Process (hp_object q), he_rights = requested\<rparr>}\<rparr>)"
| create_handle: "thread_to_process_id tq thread_id = Some pid \<Longrightarrow> endpoint_for_thread tq' thread_id = Some endpoint \<Longrightarrow>
    create_handle tq tq' table mem (Some thread_id) flags (hw_procs w) = (r, ps') \<Longrightarrow>
    call_step w (w\<lparr>hw_procs := ps', hw_issued := hw_issued w \<union>
      {endpoint_entry endpoint (endpoint_rights_for_process table pid)}\<rparr>)"
| create_thread_handle: "create_thread_handle tq mem (Some thread_id) (hw_procs w) = (r, ps') \<Longrightarrow>
    call_step w (w\<lparr>hw_procs := ps', hw_issued := hw_issued w \<union>
      {\<lparr>he_object = O_Thread thread_id, he_rights = THREAD_HANDLE_RIGHTS\<rparr>}\<rparr>)"
| replace_image: "hw_procs w pid = Some p \<Longrightarrow> decode bytes = Inr img \<Longrightarrow>
    replace_image_handles outcomes (context_updates img) p = (r, p') \<Longrightarrow>
    call_step w (w\<lparr>hw_procs := (hw_procs w)(pid \<mapsto> p')\<rparr>)"
| attach: "export_object_handle pid h requested (hw_procs w) = Inr e \<Longrightarrow>
    call_step w (w\<lparr>hw_transit := insert e (hw_transit w)\<rparr>)"
| admit: "attachments_ok at \<Longrightarrow> oa_count at \<le> MAX_OBJECT_HANDLES \<Longrightarrow>
    \<not> list_ex (\<lambda>e. e = None) (take (oa_count at) (oa_handles at)) \<Longrightarrow> set (attached at) \<subseteq> hw_transit w \<Longrightarrow>
    hw_procs w pid = Some p \<Longrightarrow> admit_in memf tid at p = (x, p') \<Longrightarrow>
    call_step w (w\<lparr>hw_procs := (hw_procs w)(pid \<mapsto> p')\<rparr>)"
| publish: "hw_procs w pid = Some p \<Longrightarrow> publish_in cnt reserved p = (q, p') \<Longrightarrow>
    call_step w (w\<lparr>hw_procs := (hw_procs w)(pid \<mapsto> p')\<rparr>)"
| cancel: "call_step w (w\<lparr>hw_procs := cancel_received_reservations pid reserved (hw_procs w)\<rparr>)"
| thread_exit: "call_step w (w\<lparr>hw_procs := clear_reservations pid tid (hw_procs w)\<rparr>)"
| grant: "export_inherited_handles mem source_process specs (hw_procs w) = Inr grants \<Longrightarrow>
    call_step w (w\<lparr>hw_transit := hw_transit w \<union> ig_entry ` set grants\<rparr>)"
| grant_captured: "export_captured mem (hw_snapshots w) cur raw specs (hw_procs w) = Inr grants \<Longrightarrow>
    call_step w (w\<lparr>hw_transit := hw_transit w \<union> ig_entry ` set grants\<rparr>)"
| spawn: "hw_procs w pid = None \<Longrightarrow> ig_entry ` set grants \<subseteq> hw_transit w \<Longrightarrow>
    install_inherited_handles memg grants (hproc_new a) = (Inr (), p) \<Longrightarrow>
    install_inherited_values growv values p = (Inr (), p') \<Longrightarrow>
    call_step w (w\<lparr>hw_procs := (hw_procs w)(pid \<mapsto> p')\<rparr>)"
| process_exit: "call_step w (w\<lparr>hw_procs := (hw_procs w)(pid := None)\<rparr>)"

text \<open>
  The rollback of a stream pair is the one section that takes published handles away without looking
  at the launch context; the steps of the whole system are the calls and this rollback.
\<close>

inductive world_step :: "hworld \<Rightarrow> hworld \<Rightarrow> bool" where
  call: "call_step w w' \<Longrightarrow> world_step w w'"
| stream_rollback: "hw_procs w pid = Some p \<Longrightarrow> stream_rollback_in rh wh p = (u, p') \<Longrightarrow>
    world_step w (w\<lparr>hw_procs := (hw_procs w)(pid \<mapsto> p')\<rparr>)"

definition exportables :: "handle_snapshot \<Rightarrow> handle_entry set" where
  "exportables s = {e. Some e \<in> ch_exportable ` set s}"

definition world_entries :: "hworld \<Rightarrow> handle_entry set" where
  "world_entries w = (\<Union>p \<in> ran (hw_procs w). table_entries (hp_handles p)) \<union> hw_transit w \<union> (\<Union>a. exportables (hw_snapshots w a))"

definition exists_in :: "hworld \<Rightarrow> kernel_object \<Rightarrow> bool" where
  "exists_in w obj \<longleftrightarrow> obj \<in> he_object ` hw_issued w"

text \<open>
  A world is well formed when its processes and captures are and every object somebody has, other
  than the reopenable ones, has been made. It is live when every launch context is.
\<close>

definition world_ok :: "hworld \<Rightarrow> bool" where
  "world_ok w \<longleftrightarrow> procs_wf (hw_procs w) \<and> (\<forall>a. sorted_wrt (<) (map ch_handle (hw_snapshots w a))) \<and>
     (\<forall>e \<in> world_entries w. reopenable (he_object e) \<or> exists_in w (he_object e))"

definition world_live :: "hworld \<Rightarrow> bool" where
  "world_live w \<longleftrightarrow> (\<forall>p \<in> ran (hw_procs w). launch_live p)"

subsection \<open>What a step may do\<close>

text \<open>
  The flow of objects: a process rearranges what it has, weakens it, takes entries out of transit,
  or gets an entry for an object that is new or reopenable; entries enter the transit only from
  transferable entries of a process or of a capture; a process disappears.
\<close>

definition exportable_from :: "hworld \<Rightarrow> handle_entry \<Rightarrow> bool" where
  "exportable_from w e' \<longleftrightarrow> (\<exists>e. entry_le e' e \<and>
     ((\<exists>pid p. hw_procs w pid = Some p \<and> e \<in> table_entries (hp_handles p) \<and> transferable e) \<or>
      (\<exists>a. e \<in> exportables (hw_snapshots w a))))"

definition issuable :: "hworld \<Rightarrow> handle_entry set \<Rightarrow> bool" where
  "issuable w issue \<longleftrightarrow> (\<forall>e \<in> issue. reopenable (he_object e) \<or> \<not> exists_in w (he_object e))"

inductive flow :: "hworld \<Rightarrow> hworld \<Rightarrow> bool" where
  local: "hw_procs w pid = Some p \<or> hw_procs w pid = None \<and> p = hproc_new a \<Longrightarrow> passes new p p' \<Longrightarrow>
    new \<subseteq> hw_transit w \<union> issue \<Longrightarrow> issuable w issue \<Longrightarrow> (\<forall>a. hw_snapshots w' a = hw_snapshots w a \<or>
      sorted_wrt (<) (map ch_handle (hw_snapshots w' a)) \<and>
      exportables (hw_snapshots w' a) \<subseteq> {e \<in> table_entries (hp_handles p). transferable e}) \<Longrightarrow>
    hw_procs w' = (hw_procs w)(pid \<mapsto> p') \<Longrightarrow> hw_transit w' = hw_transit w \<Longrightarrow>
    hw_issued w' = hw_issued w \<union> issue \<Longrightarrow> flow w w'"
| export: "\<forall>e' \<in> new. exportable_from w e' \<Longrightarrow> flow w (w\<lparr>hw_transit := hw_transit w \<union> new\<rparr>)"
| vanish: "flow w (w\<lparr>hw_procs := (hw_procs w)(pid := None)\<rparr>)"
| unused: "issuable w issue \<Longrightarrow> flow w (w\<lparr>hw_issued := hw_issued w \<union> issue\<rparr>)"

definition withdraws :: "hworld \<Rightarrow> hworld \<Rightarrow> bool" where
  "withdraws w w' \<longleftrightarrow> (\<exists>pid p p'. hw_procs w pid = Some p \<and> hproc_wf p' \<and>
     table_entries (hp_handles p') \<subseteq> table_entries (hp_handles p) \<and> w' = w\<lparr>hw_procs := (hw_procs w)(pid \<mapsto> p')\<rparr>)"

definition object_flow :: "hworld \<Rightarrow> hworld \<Rightarrow> bool" where
  "object_flow w w' \<longleftrightarrow> flow w w' \<or> withdraws w w'"

lemma flow_idle: "flow w w"
  using flow.unused [of w "{}"] by (simp add: issuable_def)

lemma close_in_passes:
  assumes "hproc_wf p" and "close_in h p = (r, p')"
  shows "passes {} p p'"
proof (rule passesI)
  obtain ok t where t: "table_close h (hp_handles p) = (ok, t)" by fastforce
  then have "hp_handles p' = t" using assms(2) by (auto simp: close_in_def split: bool.splits)
  then show "table_entries (hp_handles p') \<subseteq> table_entries (hp_handles p) \<union> {}"
    using table_close_spec [OF hproc_wfD(1) [OF assms(1)] t] table_entries_mono [of t "hp_handles p"]
    by (auto simp: map_le_def)
qed (rule close_in_keeps [OF assms])

lemma duplicate_in_passes:
  assumes "hproc_wf p" and "duplicate_in mem h rights p = (r, p')"
  shows "passes {} p p'"
proof -
  obtain d t where t: "table_duplicate_restricted mem h rights (hp_handles p) = (d, t)" by fastforce
  have p': "hp_handles p' = hp_handles p \<or> hp_handles p' = t"
    using assms(2) t by (auto simp: duplicate_in_def split: option.splits if_splits)
  note spec = table_duplicate_spec [OF hproc_wfD(1) [OF assms(1)] t]
  have "\<exists>e \<in> table_entries (hp_handles p). entry_le e' e" if "e' \<in> table_entries t" for e'
  proof (cases d)
    case None
    then have "table_entries t = table_entries (hp_handles p)" using spec by (simp add: table_entries_def)
    then show ?thesis using that entry_le_refl by blast
  next
    case (Some d')
    then obtain e where e: "published (hp_handles p) h = Some e" "rights_contains (he_rights e) rights"
      "published t = (published (hp_handles p))(d' \<mapsto> \<lparr>he_object = he_object e, he_rights = rights\<rparr>)"
      "ht_pending t = ht_pending (hp_handles p)" using spec by auto
    have "e \<in> table_entries (hp_handles p)" using e(1) by (auto simp: table_entries_def ran_def)
    moreover have "entry_le \<lparr>he_object = he_object e, he_rights = rights\<rparr> e" using e(2) by (simp add: entry_le_def)
    ultimately show ?thesis using that table_entries_upd [OF e(3,4)] entry_le_refl by blast
  qed
  with p' have "\<forall>e' \<in> table_entries (hp_handles p'). \<exists>e \<in> table_entries (hp_handles p). entry_le e' e"
    using entry_le_refl by metis
  then show ?thesis using duplicate_in_keeps [OF assms] by (simp add: passes_def)
qed

lemma capture_in_passes:
  assumes "hproc_wf p" and "capture_in mem_records new_arc mem p = ((r, c), p')"
  shows "passes (made O_HandleSnapshot capture_rights new_arc) p p'"
    and "c = Some (a, s) \<Longrightarrow> sorted_wrt (<) (map ch_handle s) \<and> exportables s \<subseteq> {e \<in> table_entries (hp_handles p). transferable e}"
proof -
  show "passes (made O_HandleSnapshot capture_rights new_arc) p p'"
  proof (cases "table_capture mem_records (hp_handles p) = None \<or> new_arc = None")
    case True
    then have "p' = p" using assms(2) by (auto simp: capture_in_def split: option.splits)
    then show ?thesis using assms(1) by (simp add: passes_refl)
  next
    case False
    then obtain s' a' where sa: "table_capture mem_records (hp_handles p) = Some s'" "new_arc = Some a'" by auto
    let ?e = "\<lparr>he_object = O_HandleSnapshot a', he_rights = capture_rights\<rparr>"
    obtain h t where t: "table_insert mem ?e (hp_handles p) = (h, t)" by fastforce
    then have "p' = p\<lparr>hp_handles := t\<rparr>" using assms(2) sa by (auto simp: capture_in_def split: option.splits)
    then show ?thesis using insert_passes [OF assms(1) t] sa(2) by simp
  qed
  assume "c = Some (a, s)"
  then have "table_capture mem_records (hp_handles p) = Some s"
    using assms(2) by (auto simp: capture_in_def split: option.splits prod.splits)
  then have s: "s = map (\<lambda>(h, e). \<lparr>ch_handle = h, ch_rights = he_rights e,
      ch_exportable = (if transferable e then Some e else None)\<rparr>) (ht_entries (hp_handles p))"
    by (auto simp: table_capture_def snapshot_capture_def transferable_def split: if_splits)
  have ok: "keys_sorted (ht_entries (hp_handles p))" using hproc_wfD(1) [OF assms(1)] by auto
  have "map ch_handle s = map fst (ht_entries (hp_handles p))" by (simp add: s case_prod_unfold)
  moreover have "exportables s \<subseteq> {e \<in> table_entries (hp_handles p). transferable e}"
    using ok by (auto simp: s exportables_def table_entries_def ran_distinct keys_sorted_def strict_sorted_iff
        image_iff split: if_splits) force
  ultimately show "sorted_wrt (<) (map ch_handle s) \<and> exportables s \<subseteq> {e \<in> table_entries (hp_handles p). transferable e}"
    using ok by (simp add: keys_sorted_def)
qed

lemma admit_in_passes:
  assumes "hproc_wf p" and "attachments_ok at" and "oa_count at \<le> MAX_OBJECT_HANDLES"
    and "\<not> list_ex (\<lambda>e. e = None) (take (oa_count at) (oa_handles at))" and "admit_in mem tid at p = (x, p')"
  shows "passes (set (attached at)) p p'"
proof -
  obtain r reserved out where x: "x = (r, reserved, out)" by (cases x)
  from admit_in_spec [OF assms(1-4) assms(5) [unfolded x]] obtain tickets where
    adm: "admitted tid (attached at) tickets (hp_handles p) (hp_handles p')" "hp_launch p' = hp_launch p" by blast
  then have "keeps p p'" using assms(1) by (simp add: keeps_def hproc_wf_def launch_live_def admitted_def)
  moreover have "table_entries (hp_handles p') \<subseteq> table_entries (hp_handles p) \<union> set (attached at)"
    using adm(1) by (auto simp: admitted_def table_entries_def image_Un dest!: set_zip_rightD in_set_takeD)
  ultimately show ?thesis by (rule passesI)
qed

lemma take_fold_spec:
  assumes "table_ok t" and "t' = fold (\<lambda>ticket t. snd (table_take_entry (hr_handle ticket) t)) tickets t"
  shows "table_ok t' \<and> ht_pending t' = ht_pending t \<and> published t' = published t |` (- hr_handle ` set tickets)"
  using assms
proof (induction tickets arbitrary: t)
  case (Cons ticket tickets)
  obtain r u where u: "table_take_entry (hr_handle ticket) t = (r, u)" by fastforce
  note spec = table_take_entry_spec [OF Cons.prems(1) u]
  have "published u |` (- hr_handle ` set tickets) = published t |` (- hr_handle ` set (ticket # tickets))"
    using spec by (auto simp: restrict_map_def fun_eq_iff)
  moreover have "table_ok u" "ht_pending u = ht_pending t" using spec by blast+
  moreover have "t' = fold (\<lambda>ticket t. snd (table_take_entry (hr_handle ticket) t)) tickets u"
    using Cons.prems(2) u by simp
  ultimately show ?case using Cons.IH [of u] by metis
qed (simp add: restrict_map_def)

text \<open>
  For any list of tickets: the publication only moves reserved entries to the published ones, and a
  failure on the way takes back only what it has published.
\<close>

lemma publish_loop_any:
  assumes "table_ok t" and "publish_loop earlier tickets t = (r, t')" and "D \<subseteq> dom (published t)"
    and "hr_handle ` set earlier \<inter> D = {}"
  shows "table_ok t' \<and> D \<subseteq> dom (published t') \<and> table_entries t' \<subseteq> table_entries t"
  using assms
proof (induction earlier tickets t arbitrary: r t' rule: publish_loop.induct)
  case (1 earlier t)
  then show ?case by simp
next
  case (2 earlier ticket rest t)
  obtain ok u where u: "table_publish_reserved ticket t = (ok, u)" by fastforce
  note spec = table_publish_spec [OF 2(2) u]
  show ?case
  proof (cases ok)
    case False
    then have t': "t' = fold (\<lambda>ticket t. snd (table_take_entry (hr_handle ticket) t)) earlier t" using 2(3) u spec by auto
    note taken = take_fold_spec [OF 2(2) t']
    have "D \<subseteq> dom (published t')" using taken 2(4,5) by auto
    moreover have "table_entries t' \<subseteq> table_entries t"
      using taken by (intro table_entries_mono) (auto simp: map_le_def restrict_map_def split: if_splits)
    ultimately show ?thesis using taken by blast
  next
    case True
    then obtain e where e: "(ticket, e) \<in> set (ht_pending t)" "published u = (published t)(hr_handle ticket \<mapsto> e)"
      "set (ht_pending u) = set (ht_pending t) - {(ticket, e)}" "table_ok u" using spec by blast
    have "hr_handle ticket \<notin> D" using 2(2,4) e(1) by (force simp: table_ok_def)
    then have "hr_handle ` set (earlier @ [ticket]) \<inter> D = {}" "D \<subseteq> dom (published u)" using 2(4,5) e(2) by auto
    moreover have "table_entries u \<subseteq> table_entries t"
    proof -
      have "e \<in> snd ` set (ht_pending t)" using e(1) by force
      moreover have "ran (published u) \<subseteq> insert e (ran (published t))" by (auto simp: e(2) ran_def split: if_splits)
      moreover have "snd ` set (ht_pending u) \<subseteq> snd ` set (ht_pending t)" unfolding e(3) by blast
      ultimately show ?thesis unfolding table_entries_def by blast
    qed
    moreover have "publish_loop (earlier @ [ticket]) rest u = (r, t')" using 2(3) u True by simp
    ultimately show ?thesis using 2(1) [OF u [symmetric], of r t'] True e(4) by auto
  qed
qed

lemma publish_in_passes:
  assumes "hproc_wf p" and "publish_in cnt reserved p = (r, p')"
  shows "passes {} p p'"
proof -
  obtain q t where t: "publish_loop [] (List.map_filter id (take cnt reserved)) (hp_handles p) = (q, t)" by fastforce
  note spec = publish_loop_any [OF hproc_wfD(1) [OF assms(1)] t order_refl]
  have "p' = p \<or> p' = p\<lparr>hp_handles := t\<rparr>" using assms(2) t by (auto simp: publish_in_def split: if_splits)
  moreover have "keeps p (p\<lparr>hp_handles := t\<rparr>)" using spec by (intro more_handles_keeps assms(1)) auto
  ultimately show ?thesis using spec assms(1) by (auto intro!: passesI keeps_refl)
qed

lemma same_published_passes:
  assumes "hproc_wf p" and "table_ok t" and "ht_entries t = ht_entries (hp_handles p)"
    and "set (ht_pending t) \<subseteq> set (ht_pending (hp_handles p))"
  shows "passes {} p (p\<lparr>hp_handles := t\<rparr>)"
proof (rule passesI)
  show "keeps p (p\<lparr>hp_handles := t\<rparr>)" using assms by (simp add: more_handles_keeps)
  show "table_entries (hp_handles (p\<lparr>hp_handles := t\<rparr>)) \<subseteq> table_entries (hp_handles p) \<union> {}"
    using table_entries_mono [of t "hp_handles p"] assms(3,4) by simp
qed

lemma lc_install_spec:
  assumes "context_ok c" and "lc_install grow key h c = (r, c')"
  shows "context_ok c'" and "ran (handle_map c') \<subseteq> insert h (ran (handle_map c))"
proof -
  obtain ok e where e: "entries_insert grow key h (lc_handles c) = (ok, e)" by fastforce
  note spec = entries_insert_spec [OF _ e]
  have "c' = c \<or> c' = c\<lparr>lc_handles := e\<rparr>"
    using assms(2) e by (auto simp: lc_install_def split: if_splits bool.splits)
  then show "context_ok c'" "ran (handle_map c') \<subseteq> insert h (ran (handle_map c))"
    using assms(1) spec by (auto simp: context_ok_def ran_def split: if_splits)
qed

lemma install_passes:
  assumes "hproc_wf p" and "table_ok t" and "published t = (published (hp_handles p))(h \<mapsto> e)"
    and "ht_pending t = ht_pending (hp_handles p)" and "lc_install grow key h (hp_launch p) = (r, c)"
  shows "passes {e} p (p\<lparr>hp_handles := t, hp_launch := c\<rparr>)"
proof (rule passesI)
  show "keeps p (p\<lparr>hp_handles := t, hp_launch := c\<rparr>)"
    using lc_install_spec [OF hproc_wfD(2) [OF assms(1)] assms(5)] assms(1-3)
    by (intro keepsI) (auto simp: launch_live_def)
  show "table_entries (hp_handles (p\<lparr>hp_handles := t, hp_launch := c\<rparr>)) \<subseteq> table_entries (hp_handles p) \<union> {e}"
    using table_entries_upd [OF assms(3,4)] by simp
qed

lemma unpublished_passes:
  assumes "hproc_wf p" and "table_ok t" and "published t = published (hp_handles p)" and "ht_pending t = ht_pending (hp_handles p)"
  shows "passes new p (p\<lparr>hp_handles := t\<rparr>)"
  using assms more_handles_keeps [of p t] by (intro passesI) (auto simp: table_entries_def)

lemma install_grant_passes:
  assumes "hproc_wf p" and "install_grant mem grow g p = (r, p')"
  shows "passes {ig_entry g} p p'"
proof (cases "lc_get (ig_key g) (hp_launch p) \<noteq> None")
  case True
  then show ?thesis using assms by (simp add: install_grant_def passes_refl)
next
  case new: False
  note tok = hproc_wfD(1) [OF assms(1)]
  show ?thesis
  proof (cases "ig_target g = 0")
    case True
    obtain x t where t: "table_insert mem (ig_entry g) (hp_handles p) = (x, t)" by fastforce
    note spec = table_insert_spec [OF tok t]
    show ?thesis
    proof (cases x)
      case None
      then have "p' = p\<lparr>hp_handles := t\<rparr>" using assms(2) new True t by (simp add: install_grant_def)
      then show ?thesis using unpublished_passes [OF assms(1)] spec None by simp
    next
      case (Some h)
      obtain y c where c: "lc_install grow (ig_key g) h (hp_launch p) = (y, c)" by fastforce
      then have "p' = p\<lparr>hp_handles := t, hp_launch := c\<rparr>" using assms(2) new True t Some by (simp add: install_grant_def)
      then show ?thesis using install_passes [OF assms(1) _ _ _ c] spec Some by simp
    qed
  next
    case False
    show ?thesis
    proof (cases "ig_target g > of_nat PROCESS_MAX_OBJECT_HANDLES \<or> table_get (ig_target g) (hp_handles p) \<noteq> None")
      case True
      then have "p' = p"
        using assms(2) new False by (auto simp: install_grant_def object_handle_from_raw_def split: if_splits)
      then show ?thesis using assms(1) by (simp add: passes_refl)
    next
      case fits: False
      obtain ok t where t: "table_insert_at mem (ig_target g) (ig_entry g) (hp_handles p) = (ok, t)" by fastforce
      note spec = table_insert_at_spec [OF tok False t]
      show ?thesis
      proof (cases ok)
        case no: False
        then have "p' = p\<lparr>hp_handles := t\<rparr>"
          using assms(2) new False t fits by (simp add: install_grant_def object_handle_from_raw_def)
        then show ?thesis using unpublished_passes [OF assms(1)] spec no by simp
      next
        case yes: True
        obtain y c where c: "lc_install grow (ig_key g) (ig_target g) (hp_launch p) = (y, c)" by fastforce
        then have "p' = p\<lparr>hp_handles := t, hp_launch := c\<rparr>"
          using assms(2) new False t fits yes by (simp add: install_grant_def object_handle_from_raw_def)
        then show ?thesis using install_passes [OF assms(1) _ _ _ c] spec yes by simp
      qed
    qed
  qed
qed

lemma install_grants_passes:
  assumes "hproc_wf p" and "install_grants mem gs p = (r, p')"
  shows "passes (ig_entry ` set gs) p p'"
  using assms
proof (induction gs arbitrary: p)
  case (Cons g gs)
  obtain x q where q: "install_grant (fst (mem g)) (snd (mem g)) g p = (x, q)" by fastforce
  have first: "passes (ig_entry ` set (g # gs)) p q"
    using install_grant_passes [OF Cons.prems(1) q] by (rule passes_mono) simp
  show ?case
  proof (cases x)
    case (Inl e)
    then show ?thesis using Cons.prems(2) q first by simp
  next
    case (Inr u)
    then have "install_grants mem gs q = (r, p')" using Cons.prems(2) q by simp
    from Cons.IH [OF passes_wf [OF first] this] have "passes (ig_entry ` set (g # gs)) q p'"
      by (rule passes_mono) auto
    with first show ?thesis by (rule passes_trans)
  qed
qed (simp add: passes_refl)

lemma install_values_passes:
  assumes "hproc_wf p" and "install_inherited_values grow vs p = (r, p')"
  shows "passes {} p p'"
  using assms
proof (induction vs arbitrary: p)
  case (Cons v vs)
  obtain x c where c: "lc_install_value (grow v) (iv_key v) (iv_value v) (hp_launch p) = (x, c)" by fastforce
  obtain ok e where e: "entries_insert (grow v) (iv_key v) (iv_value v) (lc_values (hp_launch p)) = (ok, e)" by fastforce
  have "c = hp_launch p \<or> c = (hp_launch p)\<lparr>lc_values := e\<rparr>"
    using c e by (auto simp: lc_install_value_def split: if_splits bool.splits)
  then have "context_ok c" "handle_map c = handle_map (hp_launch p)"
    using hproc_wfD(2) [OF Cons.prems(1)] entries_insert_spec [OF _ e] by (auto simp: context_ok_def)
  then have first: "passes {} p (p\<lparr>hp_launch := c\<rparr>)"
    using Cons.prems(1) by (intro passesI same_context_keeps) auto
  show ?case
  proof (cases x)
    case (Inl e)
    then show ?thesis using Cons.prems(2) c first by simp
  next
    case (Inr u)
    then have "install_inherited_values grow vs (p\<lparr>hp_launch := c\<rparr>) = (r, p')" using Cons.prems(2) c by simp
    from passes_trans [OF first Cons.IH [OF passes_wf [OF first] this]] show ?thesis .
  qed
qed (simp add: passes_refl)

lemma inherited_passes:
  assumes "install_inherited_handles mem gs (hproc_new a) = (r, p)" and "install_inherited_values grow vs p = (s, p')"
  shows "passes (ig_entry ` set gs) (hproc_new a) p'"
proof -
  have first: "passes (ig_entry ` set gs) (hproc_new a) p"
    using install_grants_passes [OF hproc_ok_wf [OF hproc_new_ok] assms(1) [unfolded install_inherited_handles_def]]
    by (rule passes_mono) auto
  from install_values_passes [OF passes_wf [OF first] assms(2)] have "passes (ig_entry ` set gs) p p'"
    by (rule passes_mono) simp
  with first show ?thesis by (rule passes_trans)
qed

subsection \<open>Every step is a step of the flow\<close>

lemma world_okD: "world_ok w \<Longrightarrow> hw_procs w pid = Some p \<Longrightarrow> hproc_wf p"
  by (auto simp: world_ok_def procs_wf_def ran_def)

lemma world_ok_procs: "world_ok w \<Longrightarrow> procs_wf (hw_procs w)"
  by (simp add: world_ok_def)

lemma flow_at:
  assumes "hw_procs w pid = Some p" and "passes new p p'" and "new \<subseteq> hw_transit w"
  shows "flow w (w\<lparr>hw_procs := (hw_procs w)(pid \<mapsto> p')\<rparr>)"
  by (rule flow.local [of w pid p _ new p' "{}"]) (use assms in \<open>simp_all add: issuable_def\<close>)

lemma flow_one:
  assumes "one_process {} (hw_procs w) ps'"
  shows "flow w (w\<lparr>hw_procs := ps'\<rparr>)"
  using assms flow_at [where new = "{}"] by (auto simp: one_process_def flow_idle)

lemma flow_issue:
  assumes "one_process issue (hw_procs w) ps'" and "issuable w issue"
  shows "flow w (w\<lparr>hw_procs := ps', hw_issued := hw_issued w \<union> issue\<rparr>)"
proof -
  consider "ps' = hw_procs w" | pid p p' where "hw_procs w pid = Some p" "passes issue p p'" "ps' = (hw_procs w)(pid \<mapsto> p')"
    using assms(1) by (auto simp: one_process_def)
  then show ?thesis
  proof cases
    case 1
    then show ?thesis using flow.unused [OF assms(2)] by simp
  next
    case 2
    show ?thesis by (rule flow.local [OF disjI1 [OF 2(1)] 2(2) Un_upper2 assms(2)]) (use 2(3) in simp_all)
  qed
qed

lemma fresh_issuable:
  "fresh kind new_arc w \<Longrightarrow> issuable w (made kind rights new_arc)"
  by (auto simp: fresh_def issuable_def made_def exists_in_def)

lemma reopenable_issuable: "reopenable (he_object e) \<Longrightarrow> issuable w {e}"
  by (simp add: issuable_def)

lemma issuable_Un: "issuable w a \<Longrightarrow> issuable w b \<Longrightarrow> issuable w (a \<union> b)"
  by (auto simp: issuable_def)

lemma launch_passes: "keeps p (p\<lparr>hp_launch := c\<rparr>) \<Longrightarrow> passes {} p (p\<lparr>hp_launch := c\<rparr>)"
  by (rule passesI) simp_all

lemma context_set_in_passes: "hproc_wf p \<Longrightarrow> context_set_in grow key h p = (r, p') \<Longrightarrow> passes {} p p'"
proof (rule passesI)
  assume "hproc_wf p" and run: "context_set_in grow key h p = (r, p')"
  then show "keeps p p'" by (rule context_set_in_keeps)
  show "table_entries (hp_handles p') \<subseteq> table_entries (hp_handles p) \<union> {}"
    using run by (auto simp: context_set_in_def split: if_splits prod.splits bool.splits)
qed

lemma value_set_passes:
  assumes "hproc_wf p"
    and "(case lc_set_value grow key v (hp_launch p) of
        (False, c) \<Rightarrow> (into_raw ResourceUnavailable, p\<lparr>hp_launch := c\<rparr>)
      | (True, c) \<Rightarrow> (SUCCESS, p\<lparr>hp_launch := c\<rparr>)) = (r, p')"
  shows "passes {} p p'"
proof -
  obtain ok c where c: "lc_set_value grow key v (hp_launch p) = (ok, c)" by fastforce
  then have "p' = p\<lparr>hp_launch := c\<rparr>" using assms(2) by (cases ok) simp_all
  then show ?thesis using launch_passes context_value_set_keeps [OF assms(1) c] by simp
qed

lemma replace_image_passes:
  assumes "hproc_wf p" and "decode bytes = Inr img" and "replace_image_handles outcomes (context_updates img) p = (r, p')"
  shows "passes {} p p'"
proof (rule passesI)
  note spec = replace_image_keeps [OF assms(1) decoded_updates [OF assms(2)] assms(3)]
  show "keeps p p'" by (rule spec)
  show "table_entries (hp_handles p') \<subseteq> table_entries (hp_handles p) \<union> {}"
    using table_entries_mono [OF spec(2)] spec(3) by simp
qed

lemma exported_entry:
  assumes "table_ok t" and "table_export_restricted source requested t = Some e'"
  shows "\<exists>e. e \<in> table_entries t \<and> transferable e \<and> entry_le e' e"
proof -
  from assms obtain e where e: "published t source = Some e" "rights_contains (he_rights e) R_TRANSFER"
    "rights_contains (he_rights e) requested" "e' = \<lparr>he_object = he_object e, he_rights = requested\<rparr>"
    using table_export_spec [OF assms(1)] by blast
  then have "e \<in> table_entries t" by (auto simp: table_entries_def ran_def)
  with e show ?thesis by (intro exI [of _ e]) (simp add: transferable_def entry_le_def)
qed

lemma export_object_handle_entry:
  assumes "world_ok w" and "export_object_handle pid h requested (hw_procs w) = Inr e'"
  shows "\<exists>p e. hw_procs w pid = Some p \<and> e \<in> table_entries (hp_handles p) \<and> transferable e \<and> entry_le e' e"
proof -
  from assms(2) obtain p where p: "hw_procs w pid = Some p" "table_export_restricted h requested (hp_handles p) = Some e'"
    by (auto simp: export_object_handle_def with_process_def split: option.splits if_splits)
  from exported_entry [OF hproc_wfD(1) [OF world_okD [OF assms(1) p(1)]] p(2)] p(1) show ?thesis by blast
qed

lemma export_specs_entries:
  assumes "table_ok (hp_handles p)" and "export_specs p specs = Inr grants" and "g \<in> set grants"
  shows "\<exists>e. e \<in> table_entries (hp_handles p) \<and> transferable e \<and> entry_le (ig_entry g) e"
  using assms(2,3)
proof (induction specs arbitrary: grants)
  case (Cons spec specs)
  then obtain e rest where e: "table_export_restricted (is_source spec) (is_rights spec) (hp_handles p) = Some e"
    "export_specs p specs = Inr rest" "grants = \<lparr>ig_key = is_key spec, ig_target = is_target spec, ig_entry = e\<rparr> # rest"
    by (cases "export_specs p specs") (auto split: option.splits if_splits)
  then show ?case using Cons.IH [OF e(2)] Cons.prems(2) exported_entry [OF assms(1) e(1)] by auto
qed simp

lemma export_captured_entries:
  assumes "sorted_wrt (<) (map ch_handle s)" and "export_captured_specs s specs = Inr grants" and "g \<in> set grants"
  shows "\<exists>e. e \<in> exportables s \<and> entry_le (ig_entry g) e"
  using assms(2,3)
proof (induction specs arbitrary: grants)
  case (Cons spec specs)
  then obtain e rest where e: "snapshot_export_restricted (is_source spec) (is_rights spec) s = Inr e"
    "export_captured_specs s specs = Inr rest"
    "grants = \<lparr>ig_key = is_key spec, ig_target = is_target spec, ig_entry = e\<rparr> # rest"
    by (cases "export_captured_specs s specs") (auto split: sum.splits export_error.splits)
  from e(1) obtain i src where i: "binary_search_by_key ch_handle (is_source spec) s = Inr i"
    "ch_exportable (s ! i) = Some src" "entry_restricted src (is_rights spec) = Some e"
    by (auto simp: snapshot_export_restricted_def split: sum.splits option.splits bind_splits)
  have "i < length s" using binary_search_Inr [OF assms(1) i(1)] by simp
  then have "Some src \<in> ch_exportable ` set s" using i(2) by (metis image_eqI nth_mem)
  then have "src \<in> exportables s" by (simp add: exportables_def)
  moreover have "entry_le e src" using i(3) by (auto simp: entry_restricted_def entry_le_def split: if_splits)
  ultimately show ?case using Cons.IH [OF e(2)] Cons.prems(2) e(3) by auto
qed simp

lemma capture_call_cases:
  assumes "table_capture_call mem_records new_arc mem cur ps = ((r, c), ps')"
  shows "ps' = ps \<and> c = None \<or> (\<exists>pid p p'. ps pid = Some p \<and> capture_in mem_records new_arc mem p = ((r, c), p') \<and> ps' = ps(pid \<mapsto> p'))"
proof (cases cur)
  case None
  then show ?thesis using assms by (simp add: table_capture_call_def)
next
  case (Some pid)
  show ?thesis
  proof (cases "ps pid")
    case None
    then show ?thesis using assms Some by (simp add: table_capture_call_def with_process_mut_def)
  next
    case p: (Some p)
    obtain x p' where x: "capture_in mem_records new_arc mem p = (x, p')" by fastforce
    then have "x = (r, c)" "ps' = ps(pid \<mapsto> p')"
      using assms Some p by (simp_all add: table_capture_call_def with_process_mut_def)
    then show ?thesis using p x by blast
  qed
qed

lemma cancel_in_passes: "hproc_wf p \<Longrightarrow> cancel_in tickets p = (r, p') \<Longrightarrow> passes {} p p'"
  using cancel_fold_spec [OF hproc_wfD(1) refl, of p tickets] by (auto simp: cancel_in_def intro!: same_published_passes)

lemma drain_passes:
  "hproc_wf p \<Longrightarrow> passes {} p (p\<lparr>hp_handles := snd (drain_reservations tid (hp_handles p))\<rparr>)"
  using drain_spec [OF hproc_wfD(1), of p tid "fst (drain_reservations tid (hp_handles p))"]
  by (auto intro!: same_published_passes)

lemma one_process_snd:
  assumes "procs_wf ps" and "\<And>p r p'. hproc_wf p \<Longrightarrow> f p = (r, p') \<Longrightarrow> passes {} p p'"
  shows "one_process {} ps (snd (with_process_mut ps pid f))"
  using one_process_mut [OF assms(1) _ assms(2)] by (cases "with_process_mut ps pid f") auto

lemma table_calls_one_process:
  assumes "procs_wf ps"
  shows "close cur raw ps = (r, ps') \<Longrightarrow> one_process {} ps ps'"
    and "duplicate mem cur raw requested ps = (r, ps') \<Longrightarrow> one_process {} ps ps'"
    and "context_handle_set grow cur key raw ps = (r, ps') \<Longrightarrow> one_process {} ps ps'"
    and "context_handle_remove cur key ps = (r, ps') \<Longrightarrow> one_process {} ps ps'"
    and "context_value_set grow cur key v ps = (r, ps') \<Longrightarrow> one_process {} ps ps'"
    and "context_value_remove cur key ps = (r, ps') \<Longrightarrow> one_process {} ps ps'"
proof -
  note call = one_process_call [OF assms]
  show "close cur raw ps = (r, ps') \<Longrightarrow> one_process {} ps ps'"
    by (auto simp: close_def one_process_refl intro: call close_in_passes split: option.splits)
  show "duplicate mem cur raw requested ps = (r, ps') \<Longrightarrow> one_process {} ps ps'"
    by (auto simp: duplicate_def one_process_refl intro: call duplicate_in_passes split: option.splits)
  show "context_handle_set grow cur key raw ps = (r, ps') \<Longrightarrow> one_process {} ps ps'"
    by (auto simp: context_handle_set_def one_process_refl intro: call context_set_in_passes split: option.splits)
  show "context_handle_remove cur key ps = (r, ps') \<Longrightarrow> one_process {} ps ps'"
    by (auto simp: context_handle_remove_def one_process_refl intro!: launch_passes context_removals_keep
        elim!: call split: option.splits)
  show "context_value_set grow cur key v ps = (r, ps') \<Longrightarrow> one_process {} ps ps'"
    by (auto simp: context_value_set_def one_process_refl elim!: call value_set_passes split: option.splits)
  show "context_value_remove cur key ps = (r, ps') \<Longrightarrow> one_process {} ps ps'"
    by (auto simp: context_value_remove_def one_process_refl intro!: launch_passes context_removals_keep
        elim!: call split: option.splits)
qed

lemma capture_flow:
  assumes "world_ok w" and "fresh O_HandleSnapshot new_arc w"
    and "table_capture_call mem_records new_arc mem cur (hw_procs w) = ((r, c), ps')"
  shows "flow w (w\<lparr>hw_procs := ps', hw_snapshots := store_capture c (hw_snapshots w),
    hw_issued := hw_issued w \<union> made O_HandleSnapshot capture_rights new_arc\<rparr>)"
proof -
  note issue = fresh_issuable [OF assms(2), of capture_rights]
  from capture_call_cases [OF assms(3)] show ?thesis
  proof (elim disjE exE conjE)
    assume "ps' = hw_procs w" "c = None"
    then show ?thesis using flow.unused [OF issue] by (simp add: store_capture_def)
  next
    fix pid p p'
    assume p: "hw_procs w pid = Some p" "capture_in mem_records new_arc mem p = ((r, c), p')" "ps' = (hw_procs w)(pid \<mapsto> p')"
    note spec = capture_in_passes [OF world_okD [OF assms(1) p(1)] p(2)]
    show ?thesis
      by (rule flow.local [OF disjI1 [OF p(1)] spec(1) Un_upper2 issue])
        (use spec(2) p(3) in \<open>auto simp: store_capture_def split: option.splits\<close>)
  qed
qed

lemma grants_exportable:
  assumes "world_ok w"
  shows "export_inherited_handles mem source specs (hw_procs w) = Inr grants \<Longrightarrow> g \<in> set grants \<Longrightarrow> exportable_from w (ig_entry g)"
    and "export_captured mem (hw_snapshots w) cur raw specs (hw_procs w) = Inr grants \<Longrightarrow> g \<in> set grants \<Longrightarrow>
      exportable_from w (ig_entry g)"
proof -
  assume "export_inherited_handles mem source specs (hw_procs w) = Inr grants" and g: "g \<in> set grants"
  then obtain pid p where p: "hw_procs w pid = Some p" "export_specs p specs = Inr grants"
    by (auto simp: export_inherited_handles_def with_process_def split: if_splits option.splits)
  from export_specs_entries [OF hproc_wfD(1) [OF world_okD [OF assms p(1)]] p(2) g] p(1)
  show "exportable_from w (ig_entry g)" unfolding exportable_from_def by blast
next
  assume "export_captured mem (hw_snapshots w) cur raw specs (hw_procs w) = Inr grants" and g: "g \<in> set grants"
  then obtain a where a: "export_captured_specs (hw_snapshots w a) specs = Inr grants"
    by (auto simp: export_captured_def split: sum.splits kernel_object.splits if_splits)
  have "sorted_wrt (<) (map ch_handle (hw_snapshots w a))" using assms by (simp add: world_ok_def)
  from export_captured_entries [OF this a g] show "exportable_from w (ig_entry g)"
    unfolding exportable_from_def by blast
qed

lemma spawn_flow:
  assumes "hw_procs w pid = None" and "ig_entry ` set grants \<subseteq> hw_transit w"
    and "install_inherited_handles memg grants (hproc_new a) = (Inr (), p)"
    and "install_inherited_values growv vals p = (Inr (), p')"
  shows "flow w (w\<lparr>hw_procs := (hw_procs w)(pid \<mapsto> p')\<rparr>)"
  by (rule flow.local [of w pid "hproc_new a" a, OF _ inherited_passes [OF assms(3,4)], of "{}"])
    (use assms(1,2) in \<open>auto simp: issuable_def\<close>)

lemmas makes = memory_object_create_makes provider_object_create_makes create_admission_makes memory_update_create_makes
  clone_address_space_makes

lemma call_step_flow:
  assumes "call_step w w'" and "world_ok w"
  shows "flow w w'"
proof -
  note wf = world_ok_procs [OF assms(2)]
  note issue = flow_issue [OF _ fresh_issuable] and reopen = flow_issue [OF _ reopenable_issuable]
  from assms(1) show ?thesis
  proof cases
    case (admit at pid p memf tid x p')
    then show ?thesis using flow_at [OF admit(6) admit_in_passes [OF world_okD [OF assms(2) admit(6)] admit(2-4,7)]] by simp
  next
    case (submit receipt mem accepted pid r ps')
    then show ?thesis using issue [OF submit_makes [OF wf submit(3), unfolded sum.case]] by simp
  next
    case (stream_pair ra wa pid mem_read mem_write handles ps')
    have "one_process (made O_File stream_read_rights (Some ra) \<union> made O_File stream_write_rights (Some wa)) (hw_procs w) ps'"
      by (rule one_process_mut [OF wf stream_pair(5)]) (rule stream_pair_in_passes)
    then show ?thesis
      unfolding stream_pair(1) by (rule flow_issue) (intro issuable_Un fresh_issuable stream_pair)
  next
    case (retain_created_process mem a cur x ps')
    then show ?thesis using reopen [OF retain_created_process_opens [OF wf retain_created_process(2)]] by (simp add: reopenable_def)
  next
    case (process_open tq reg endpoint thread_id tq' target ps0 q table mem cur requested r ps')
    then show ?thesis using reopen [OF process_open_opens [OF wf process_open(5,2-4)]] by (simp add: reopenable_def)
  next
    case (process_open_by_id ps0 process_id q table mem cur requested r ps')
    then show ?thesis using reopen [OF process_open_by_id_opens [OF wf process_open_by_id(3,2)]] by (simp add: reopenable_def)
  next
    case (create_handle tq thread_id pid tq' endpoint table mem flags r ps')
    then show ?thesis
      using reopen [OF create_handle_opens [OF wf create_handle(4,2,3)]] by (simp add: reopenable_def endpoint_entry_def Let_def)
  next
    case (create_thread_handle tq mem thread_id r ps')
    then show ?thesis using reopen [OF create_thread_handle_opens [OF wf create_thread_handle(2)]] by (simp add: reopenable_def)
  next
    case (attach pid h requested e)
    from export_object_handle_entry [OF assms(2) attach(2)] have "\<forall>e' \<in> {e}. exportable_from w e'"
      by (auto simp: exportable_from_def)
    from flow.export [OF this] show ?thesis by (simp add: attach)
  next
    case (thread_exit pid tid)
    then show ?thesis
      unfolding clear_reservations_def thread_exit
      by (intro flow_one one_process_snd [OF wf]) (auto simp del: drain_reservations.simps intro: drain_passes)
  next
    case (cancel pid reserved)
    then show ?thesis
      unfolding cancel_received_reservations_def cancel by (intro flow_one one_process_snd [OF wf] cancel_in_passes)
  next
    case (grant mem source_process specs grants)
    then show ?thesis using grants_exportable(1) [OF assms(2)] by (auto intro!: flow.export)
  next
    case (grant_captured mem cur raw specs grants)
    then show ?thesis using grants_exportable(2) [OF assms(2)] by (auto intro!: flow.export)
  next
    case (replace_image pid p bytes img outcomes r p')
    then show ?thesis using flow_at [OF _ replace_image_passes] world_okD [OF assms(2)] by auto
  next
    case (publish pid p cnt reserved q p')
    then show ?thesis using flow_at [OF _ publish_in_passes] world_okD [OF assms(2)] by auto
  qed (auto intro: flow_one table_calls_one_process [OF wf] capture_flow [OF assms(2)] issue makes [OF wf] spawn_flow flow.vanish)
qed

lemma world_step_flow:
  assumes "world_step w w'" and "world_ok w"
  shows "object_flow w w'"
  using assms(1)
proof cases
  case call
  then show ?thesis using call_step_flow assms(2) by (simp add: object_flow_def)
next
  case (stream_rollback pid p rh wh u p')
  note spec = stream_rollback_in_spec [OF world_okD [OF assms(2) stream_rollback(2)] stream_rollback(3)]
  have "table_entries (hp_handles p') \<subseteq> table_entries (hp_handles p)"
    using spec by (intro table_entries_mono) (auto simp: map_le_def)
  then show ?thesis
    unfolding object_flow_def withdraws_def using stream_rollback(1,2) spec(1) by blast
qed

section \<open>Rights and confinement\<close>

text \<open>
  What is held of an object, together with what may still be issued for it: anything while it is not
  made or when it is reopenable.
\<close>

definition held :: "hworld \<Rightarrow> (kernel_object \<times> handle_rights) set" where
  "held w = {(obj, r). (\<exists>e \<in> world_entries w. he_object e = obj \<and> he_rights e = r) \<or> reopenable obj \<or> \<not> exists_in w obj}"

lemma world_entriesI:
  "hw_procs w pid = Some p \<Longrightarrow> e \<in> table_entries (hp_handles p) \<Longrightarrow> e \<in> world_entries w"
  "e \<in> hw_transit w \<Longrightarrow> e \<in> world_entries w"
  "e \<in> exportables (hw_snapshots w a) \<Longrightarrow> e \<in> world_entries w"
  by (auto simp: world_entries_def ran_def)

lemma world_entriesE:
  assumes "e \<in> world_entries w"
  obtains (proc) pid p where "hw_procs w pid = Some p" "e \<in> table_entries (hp_handles p)"
    | (transit) "e \<in> hw_transit w"
    | (snapshot) a where "e \<in> exportables (hw_snapshots w a)"
  using assms by (auto simp: world_entries_def ran_def)

lemma hproc_new_entries: "table_entries (hp_handles (hproc_new a)) = {}"
  by (simp add: table_entries_def hproc_new_def table_new_def)

text \<open>Every entry after a step is below one before it or below one issued by the step.\<close>

lemma flow_entries:
  assumes "flow w w'" and "e' \<in> world_entries w'"
  shows "\<exists>issue. issuable w issue \<and> issue \<subseteq> hw_issued w' \<and> (\<exists>e \<in> world_entries w \<union> issue. entry_le e' e)"
proof -
  have old: ?thesis if "e' \<in> world_entries w"
    using that entry_le_refl by (intro exI [of _ "{}"]) (auto simp: issuable_def)
  from assms(1) show ?thesis
  proof cases
    case (local pid p a new p' issue)
    have mine: "e \<in> world_entries w" if "e \<in> table_entries (hp_handles p)" for e
      using local(1) that by (auto simp: hproc_new_entries intro: world_entriesI)
    from assms(2) show ?thesis
    proof (cases rule: world_entriesE)
      case (proc pid' q)
      show ?thesis
      proof (cases "pid' = pid")
        case True
        then have "e' \<in> table_entries (hp_handles p')" using proc local(6) by simp
        then obtain e where e: "e \<in> table_entries (hp_handles p) \<union> new" "entry_le e' e" using local(2) by (auto simp: passes_def)
        then have "e \<in> world_entries w \<union> issue" using mine local(3) world_entriesI(2) by blast
        then show ?thesis using e(2) local(4,8) by (intro exI [of _ issue]) auto
      next
        case False
        then show ?thesis using proc local(6) by (intro old) (auto intro: world_entriesI)
      qed
    next
      case transit
      then show ?thesis using local(7) by (intro old) (auto intro: world_entriesI)
    next
      case (snapshot b)
      then have "e' \<in> exportables (hw_snapshots w b) \<or> e' \<in> table_entries (hp_handles p)"
        using local(5) [rule_format, of b] by auto
      then show ?thesis using mine world_entriesI(3) by (intro old) blast
    qed
  next
    case (export new)
    then have "e' \<in> world_entries w \<or> exportable_from w e'" using assms(2) by (auto simp: world_entries_def)
    then show ?thesis
    proof
      assume "exportable_from w e'"
      then obtain e where "e \<in> world_entries w" "entry_le e' e"
        unfolding exportable_from_def using world_entriesI(1,3) by blast
      then show ?thesis by (intro exI [of _ "{}"]) (auto simp: issuable_def)
    qed (rule old)
  next
    case (vanish pid)
    then show ?thesis using assms(2) by (intro old) (auto simp: world_entries_def ran_def split: if_splits)
  next
    case (unused issue)
    then show ?thesis using assms(2) by (intro old) (simp add: world_entries_def)
  qed
qed

lemma withdraws_entries: "withdraws w w' \<Longrightarrow> world_entries w' \<subseteq> world_entries w \<and> hw_issued w' = hw_issued w"
  by (fastforce simp: withdraws_def world_entries_def ran_def split: if_splits)

lemma object_flow_entries:
  assumes "object_flow w w'" and "e' \<in> world_entries w'"
  shows "\<exists>issue. issuable w issue \<and> issue \<subseteq> hw_issued w' \<and> (\<exists>e \<in> world_entries w \<union> issue. entry_le e' e)"
proof (cases "flow w w'")
  case False
  then have "e' \<in> world_entries w" using assms withdraws_entries by (auto simp: object_flow_def)
  then show ?thesis using entry_le_refl by (intro exI [of _ "{}"]) (auto simp: issuable_def)
qed (use flow_entries assms(2) in blast)

lemma flow_issued: "flow w w' \<Longrightarrow> hw_issued w \<subseteq> hw_issued w'"
  by (induction rule: flow.induct) auto

lemma object_flow_issued: "object_flow w w' \<Longrightarrow> hw_issued w \<subseteq> hw_issued w'"
  using flow_issued withdraws_entries by (auto simp: object_flow_def)

interpretation of_flow: attenuation rights_contains rights_union held object_flow
proof unfold_locales
  fix w w' obj r' assume step: "object_flow w w'" and "(obj, r') \<in> held w'"
  then consider e' where "e' \<in> world_entries w'" "he_object e' = obj" "he_rights e' = r'"
    | "reopenable obj \<or> \<not> exists_in w' obj" by (auto simp: held_def)
  then show "\<exists>r. (obj, r) \<in> held w \<and> rights_contains r r'"
  proof cases
    case (1 e')
    from object_flow_entries [OF step 1(1)] obtain issue e where
      e: "issuable w issue" "e \<in> world_entries w \<union> issue" "entry_le e' e" by blast
    then have "(obj, he_rights e) \<in> held w" using 1(2) by (auto simp: held_def entry_le_def issuable_def)
    then show ?thesis using e(3) 1(3) by (auto simp: entry_le_def)
  next
    case 2
    then have "(obj, r') \<in> held w" using object_flow_issued [OF step] by (auto simp: held_def exists_in_def)
    then show ?thesis using hr.contains_refl by blast
  qed
qed

lemma ran_fun_upd_subset: "x \<in> ran (m(k \<mapsto> v)) \<Longrightarrow> x = v \<or> x \<in> ran m"
  by (auto simp: ran_def split: if_splits)

lemma flow_procs_wf: "flow w w' \<Longrightarrow> procs_wf (hw_procs w) \<Longrightarrow> procs_wf (hw_procs w')"
proof (induction rule: flow.induct)
  case (local w pid p a new p' issue w')
  then show ?case using passes_wf [OF local(2)] by (auto simp: procs_wf_def ran_def split: if_splits)
qed (auto simp: procs_wf_def ran_def split: if_splits)

lemma flow_snapshots:
  "flow w w' \<Longrightarrow> \<forall>a. sorted_wrt (<) (map ch_handle (hw_snapshots w a)) \<Longrightarrow> sorted_wrt (<) (map ch_handle (hw_snapshots w' a))"
proof (induction rule: flow.induct)
  case (local w pid p a' new p' issue w')
  then show ?case by metis
qed simp_all

lemma object_flow_ok:
  assumes "object_flow w w'" and "world_ok w"
  shows "world_ok w'"
proof -
  have wf: "procs_wf (hw_procs w)" and sorted: "\<forall>a. sorted_wrt (<) (map ch_handle (hw_snapshots w a))"
    and made: "\<And>e. e \<in> world_entries w \<Longrightarrow> reopenable (he_object e) \<or> exists_in w (he_object e)"
    using assms(2) by (auto simp: world_ok_def)
  have "procs_wf (hw_procs w') \<and> (\<forall>a. sorted_wrt (<) (map ch_handle (hw_snapshots w' a)))"
  proof (cases "flow w w'")
    case True
    then show ?thesis using flow_procs_wf flow_snapshots wf sorted by blast
  next
    case False
    then obtain pid p' where w': "w' = w\<lparr>hw_procs := (hw_procs w)(pid \<mapsto> p')\<rparr>" "hproc_wf p'"
      using assms(1) by (auto simp: object_flow_def withdraws_def)
    then show ?thesis using wf sorted by (auto simp: procs_wf_def dest: ran_fun_upd_subset)
  qed
  moreover have "reopenable (he_object e') \<or> exists_in w' (he_object e')" if e': "e' \<in> world_entries w'" for e'
  proof -
    from object_flow_entries [OF assms(1) e'] obtain issue e where
      e: "issue \<subseteq> hw_issued w'" "e \<in> world_entries w \<union> issue" "entry_le e' e" by blast
    then have "reopenable (he_object e) \<or> exists_in w' (he_object e)"
      using made [of e] object_flow_issued [OF assms(1)] by (auto simp: exists_in_def)
    then show ?thesis using e(3) by (simp add: entry_le_def)
  qed
  ultimately show ?thesis by (simp add: world_ok_def)
qed

lemma world_run_flow: "world_step\<^sup>*\<^sup>* w w' \<Longrightarrow> world_ok w \<Longrightarrow> object_flow\<^sup>*\<^sup>* w w' \<and> world_ok w'"
proof (induction rule: rtranclp_induct)
  case (step x y)
  then have "object_flow x y" using world_step_flow by blast
  then show ?case using step object_flow_ok by (meson rtranclp.rtrancl_into_rtrancl)
qed simp

lemma flow_run_entries:
  "object_flow\<^sup>*\<^sup>* w w' \<Longrightarrow> e' \<in> world_entries w' \<Longrightarrow> \<exists>e \<in> world_entries w \<union> hw_issued w'. entry_le e' e"
proof (induction arbitrary: e' rule: rtranclp_induct)
  case base
  then show ?case using entry_le_refl by blast
next
  case (step x y)
  from object_flow_entries [OF step.hyps(2) step.prems] obtain issue e where
    e: "issue \<subseteq> hw_issued y" "e \<in> world_entries x \<union> issue" "entry_le e' e" by blast
  show ?case
  proof (cases "e \<in> world_entries x")
    case True
    from step.IH [OF this] obtain e0 where "e0 \<in> world_entries w \<union> hw_issued x" "entry_le e e0" by blast
    then show ?thesis using e(3) entry_le_trans object_flow_issued [OF step.hyps(2)] by blast
  qed (use e in blast)
qed

lemma flow_live:
  assumes "flow w w'" and "world_live w"
  shows "world_live w'"
  using assms
proof (induction rule: flow.induct)
  case (local w pid p a new p' issue w')
  have "launch_live (hproc_new a)" using hproc_new_ok by (simp add: hproc_ok_def)
  then have "launch_live p" using local(1,9) by (auto simp: world_live_def ran_def)
  then have "launch_live p'" using local(2) by (simp add: passes_def keeps_def)
  then show ?case using local(6,9) by (auto simp: world_live_def ran_def split: if_splits)
qed (auto simp: world_live_def ran_def split: if_splits)

lemma call_run_live:
  "call_step\<^sup>*\<^sup>* w w' \<Longrightarrow> world_ok w \<Longrightarrow> world_live w \<Longrightarrow> world_ok w' \<and> world_live w'"
proof (induction rule: rtranclp_induct)
  case (step x y)
  then have "flow x y" using call_step_flow by blast
  then show ?case using step flow_live object_flow_ok by (auto simp: object_flow_def)
qed simp

text \<open>An object that nobody can transfer and only one process has.\<close>

definition confined :: "u64 \<Rightarrow> kernel_object \<Rightarrow> hworld \<Rightarrow> bool" where
  "confined pid obj w \<longleftrightarrow>
     (\<forall>p. hw_procs w pid = Some p \<longrightarrow> (\<forall>e \<in> table_entries (hp_handles p). he_object e = obj \<longrightarrow> \<not> transferable e)) \<and>
     (\<forall>pid' p. pid' \<noteq> pid \<longrightarrow> hw_procs w pid' = Some p \<longrightarrow> obj \<notin> he_object ` table_entries (hp_handles p)) \<and>
     obj \<notin> he_object ` hw_transit w \<and> (\<forall>a. obj \<notin> he_object ` exportables (hw_snapshots w a))"

lemma confined_transferable:
  assumes "confined pid obj w" and "hw_procs w pid' = Some p \<or> p = hproc_new a" and "e \<in> table_entries (hp_handles p)"
    and "he_object e = obj"
  shows "pid' = pid \<and> \<not> transferable e"
  using assms by (cases "pid' = pid") (auto simp: confined_def hproc_new_entries)

lemma confinedI:
  assumes "\<And>pid' q e. hw_procs w pid' = Some q \<Longrightarrow> e \<in> table_entries (hp_handles q) \<Longrightarrow> he_object e = obj \<Longrightarrow>
      pid' = pid \<and> \<not> transferable e"
    and "obj \<notin> he_object ` hw_transit w" and "\<And>a. obj \<notin> he_object ` exportables (hw_snapshots w a)"
  shows "confined pid obj w"
  using assms by (force simp: confined_def)

lemma confined_exportable: "confined pid obj w \<Longrightarrow> exportable_from w e' \<Longrightarrow> he_object e' \<noteq> obj"
  unfolding exportable_from_def entry_le_def confined_def by (metis imageI)

lemma flow_confined:
  assumes "flow w w'" and "confined pid obj w" and "\<not> reopenable obj" and "exists_in w obj"
  shows "confined pid obj w'"
  using assms(1)
proof cases
  case (local pid0 p a new p' issue)
  have p: "hw_procs w pid0 = Some p \<or> p = hproc_new a" using local(1) by blast
  have here: "pid0 = pid \<and> \<not> transferable e'" if e': "e' \<in> table_entries (hp_handles p')" "he_object e' = obj" for e'
  proof -
    from local(2) e'(1) obtain e where e: "entry_le e' e" "e \<in> table_entries (hp_handles p) \<union> new"
      by (auto simp: passes_def)
    have eo: "he_object e = obj" using e(1) e'(2) by (simp add: entry_le_def)
    then have "e \<notin> hw_transit w" "e \<notin> issue" using assms(2-4) local(4) by (auto simp: confined_def issuable_def)
    then have "e \<in> table_entries (hp_handles p)" using e(2) local(3) by blast
    from confined_transferable [OF assms(2) p this eo] show ?thesis using e(1) entry_le_transferable by blast
  qed
  show ?thesis
  proof (rule confinedI)
    fix pid' q e assume q: "hw_procs w' pid' = Some q" "e \<in> table_entries (hp_handles q)" "he_object e = obj"
    show "pid' = pid \<and> \<not> transferable e"
    proof (cases "pid' = pid0")
      case True
      then show ?thesis using here q local(6) by simp
    next
      case False
      then have "hw_procs w pid' = Some q" using q(1) local(6) by simp
      then show ?thesis using confined_transferable [OF assms(2) disjI1 q(2,3)] by blast
    qed
  next
    show "obj \<notin> he_object ` hw_transit w'" using assms(2) local(7) by (simp add: confined_def)
    show "obj \<notin> he_object ` exportables (hw_snapshots w' b)" for b
    proof (cases "hw_snapshots w' b = hw_snapshots w b")
      case True
      then show ?thesis using assms(2) by (simp add: confined_def)
    next
      case False
      then show ?thesis using local(5) [rule_format, of b] confined_transferable [OF assms(2) p] by blast
    qed
  qed
next
  case (export new)
  then show ?thesis using assms(2) confined_exportable [OF assms(2)] by (auto simp: confined_def)
next
  case (vanish pid0)
  then show ?thesis using assms(2) by (simp add: confined_def)
next
  case (unused issue)
  then show ?thesis using assms(2) by (simp add: confined_def)
qed

lemma object_flow_confined:
  assumes "object_flow w w'" and "confined pid obj w" and "\<not> reopenable obj" and "exists_in w obj"
  shows "confined pid obj w' \<and> exists_in w' obj"
proof (cases "flow w w'")
  case True
  then show ?thesis using flow_confined [OF True assms(2-4)] assms(4) flow_issued [OF True] by (auto simp: exists_in_def)
next
  case False
  then obtain pid0 p p' where w': "hw_procs w pid0 = Some p" "table_entries (hp_handles p') \<subseteq> table_entries (hp_handles p)"
    "w' = w\<lparr>hw_procs := (hw_procs w)(pid0 \<mapsto> p')\<rparr>" using assms(1) by (auto simp: object_flow_def withdraws_def)
  have "confined pid obj w'"
  proof (rule confinedI)
    fix pid' q e assume q: "hw_procs w' pid' = Some q" "e \<in> table_entries (hp_handles q)" "he_object e = obj"
    then obtain q0 where "hw_procs w pid' = Some q0" "e \<in> table_entries (hp_handles q0)"
      using w' by (cases "pid' = pid0") auto
    then show "pid' = pid \<and> \<not> transferable e" using confined_transferable [OF assms(2) disjI1] q(3) by blast
  qed (use assms(2) w'(3) in \<open>simp_all add: confined_def\<close>)
  then show ?thesis using assms(4) w'(3) by (simp add: exists_in_def)
qed

lemma flow_run_confined:
  "object_flow\<^sup>*\<^sup>* w w' \<Longrightarrow> confined pid obj w \<Longrightarrow> \<not> reopenable obj \<Longrightarrow> exists_in w obj \<Longrightarrow> confined pid obj w' \<and> exists_in w' obj"
  by (induction rule: rtranclp_induct) (auto dest: object_flow_confined)

lemma resolved_entry:
  assumes "world_ok w" and "object_with_rights_native (Some pid) raw required (hw_procs w) = Inr (obj, r)"
  shows "\<exists>p e. hw_procs w pid = Some p \<and> e \<in> table_entries (hp_handles p) \<and> he_object e = obj \<and> he_rights e = r"
proof -
  from assms(2) obtain p h e where p: "hw_procs w pid = Some p" "table_get h (hp_handles p) = Some e"
    "obj = he_object e" "r = he_rights e"
    by (auto simp: object_with_rights_native_def with_process_def split: option.splits if_splits)
  moreover from this have "published (hp_handles p) h = Some e"
    using table_get_published hproc_wfD(1) world_okD [OF assms(1)] by fastforce
  ultimately show ?thesis by (auto simp: table_entries_def ran_def)
qed

section \<open>Properties\<close>


definition demo_world :: hworld where
  "demo_world = \<lparr>hw_procs = [7 \<mapsto> demo_hproc], hw_transit = {}, hw_snapshots = (\<lambda>_. []), hw_issued = {demo_entry}\<rparr>"

lemma demo_world_entries: "world_entries demo_world = {demo_entry}"
  by (simp add: world_entries_def demo_world_def demo_hproc_def demo_table_def table_entries_def exportables_def)

lemma demo_world_ok: "world_ok demo_world"
  using hproc_ok_wf [OF demo_hproc_ok] demo_world_entries
  by (simp add: world_ok_def procs_wf_def exists_in_def) (simp add: demo_world_def)

lemma demo_world_live: "world_live demo_world"
  using demo_hproc_ok by (simp add: world_live_def demo_world_def hproc_ok_def)

lemma demo_world_step: "world_step demo_world (demo_world\<lparr>hw_procs := [7 \<mapsto> demo_hproc\<lparr>hp_handles := demo_duplicated\<rparr>]\<rparr>)"
  by (rule world_step.call, rule call_step.duplicate [of True "Some 7" 1 R_READ _ 2]) (simp add: demo_world_def demo_duplicate)

lemma demo_world_read:
  "object_with_rights_native (Some 7) 2 R_READ [7 \<mapsto> demo_hproc\<lparr>hp_handles := demo_duplicated\<rparr>] = Inr (O_File 1, R_READ)"
proof -
  have "handle_from_u64 2 = Some 2" by (simp add: handle_from_u64_def object_handle_from_raw_def)
  moreover have "published demo_duplicated 2 = Some \<lparr>he_object = O_File 1, he_rights = R_READ\<rparr>"
    by (simp add: demo_duplicated_def)
  ultimately show ?thesis
    using object_with_rights_eq [OF hproc_ok_wf [OF demo_duplicated_ok], of 2 2 "[7 \<mapsto> demo_hproc\<lparr>hp_handles := demo_duplicated\<rparr>]" 7 R_READ]
    by (simp add: hr.contains_refl)
qed



definition private_entry :: handle_entry where
  "private_entry = \<lparr>he_object = O_File 5, he_rights = R_READ\<rparr>"

definition private_proc :: hproc where
  "private_proc = \<lparr>hp_object = 7, hp_handles = table_new\<lparr>ht_entries := [(1, private_entry)]\<rparr>, hp_launch = lc_new\<rparr>"

lemma private_proc_wf: "hproc_wf private_proc"
proof -
  have "table_ok (table_new\<lparr>ht_entries := [(1, private_entry)]\<rparr>)"
    by (simp add: table_ok_def keys_sorted_def selector_ok_def table_new_def PROCESS_MAX_OBJECT_HANDLES_def)
  then show ?thesis using hproc_wfD(2) [OF hproc_ok_wf [OF hproc_new_ok]] by (simp add: hproc_wf_def private_proc_def hproc_new_def)
qed

definition private_world :: hworld where
  "private_world = \<lparr>hw_procs = [7 \<mapsto> private_proc], hw_transit = {}, hw_snapshots = (\<lambda>_. []), hw_issued = {private_entry}\<rparr>"




end
