(* ===== verification/Byte_Ranges.thy ===== *)
theory Byte_Ranges
  imports Status
begin

text \<open>
  The kernel's pure arithmetic on address and byte ranges: cutting an interval and page coverage
  (\<^verbatim>\<open>src/task/memory_range.rs\<close>), resize plans (\<^verbatim>\<open>src/mem/byte_extent.rs\<close>), range plans
  (\<^verbatim>\<open>src/mem/range_plan.rs\<close>), overlays (\<^verbatim>\<open>src/mem/cache_range.rs\<close>), copy-on-write flags
  (\<^verbatim>\<open>src/mem/cow_access.rs\<close>) and resident-page counters (\<^verbatim>\<open>src/mem/residency.rs\<close>).

  A closure argument of the source is a function argument here. The loop of \<^verbatim>\<open>covers_pages\<close>
  runs on natural numbers: it starts and ends on page boundaries, so no addition in it overflows.
\<close>

section \<open>Cutting an interval\<close>

record u64_range =
  rg_start :: u64
  rg_end :: u64

record cut_pieces =
  cut_before :: "u64_range option"
  cut_removed :: "u64_range option"
  cut_after :: "u64_range option"

definition cut_region :: "u64_range \<Rightarrow> u64_range \<Rightarrow> cut_pieces option" where
  "cut_region region removal =
     (if rg_start region \<ge> rg_end region \<or> rg_start removal \<ge> rg_end removal then None
      else
        let s = max (rg_start region) (rg_start removal); e = min (rg_end region) (rg_end removal)
        in if s \<ge> e then Some \<lparr>cut_before = Some region, cut_removed = None, cut_after = None\<rparr>
           else Some
             \<lparr>cut_before = (if rg_start region < s then Some \<lparr>rg_start = rg_start region, rg_end = s\<rparr> else None),
              cut_removed = Some \<lparr>rg_start = s, rg_end = e\<rparr>,
              cut_after = (if e < rg_end region then Some \<lparr>rg_start = e, rg_end = rg_end region\<rparr> else None)\<rparr>)"

definition in_range :: "u64 \<Rightarrow> u64_range \<Rightarrow> bool" where
  "in_range a r \<longleftrightarrow> rg_start r \<le> a \<and> a < rg_end r"

lemma cut_Some_iff:
  "(\<exists>c. cut_region region removal = Some c) \<longleftrightarrow> rg_start region < rg_end region \<and> rg_start removal < rg_end removal"
  by (auto simp: cut_region_def Let_def)

text \<open>The pieces partition the region, and every piece is a non-empty part of it.\<close>

lemma cut_pieces:
  assumes "cut_region region removal = Some c"
  shows "(\<exists>r. cut_removed c = Some r \<and> in_range a r) \<longleftrightarrow> in_range a region \<and> in_range a removal"
    and "(\<exists>r \<in> set_option (cut_before c) \<union> set_option (cut_after c). in_range a r) \<longleftrightarrow> in_range a region \<and> \<not> in_range a removal"
proof -
  define s e where "s = max (rg_start region) (rg_start removal)" and "e = min (rg_end region) (rg_end removal)"
  have inside: "in_range a region \<and> in_range a removal \<longleftrightarrow> s \<le> a \<and> a < e"
    by (auto simp: in_range_def s_def e_def)
  have bounds: "rg_start region \<le> s" "e \<le> rg_end region"
    by (simp_all add: s_def e_def)
  show "(\<exists>r. cut_removed c = Some r \<and> in_range a r) \<longleftrightarrow> in_range a region \<and> in_range a removal"
    unfolding inside using assms
    by (auto simp: cut_region_def Let_def in_range_def simp flip: s_def e_def split: if_splits)
  have "(\<exists>r \<in> set_option (cut_before c) \<union> set_option (cut_after c). in_range a r) \<longleftrightarrow> in_range a region \<and> \<not> (s \<le> a \<and> a < e)"
    using assms bounds
    by (auto simp: cut_region_def Let_def in_range_def simp flip: s_def e_def split: if_splits)
  with inside show "(\<exists>r \<in> set_option (cut_before c) \<union> set_option (cut_after c). in_range a r) \<longleftrightarrow>
      in_range a region \<and> \<not> in_range a removal"
    by blast
qed

lemma cut_part:
  assumes "cut_region region removal = Some c"
    and "r \<in> set_option (cut_before c) \<union> set_option (cut_removed c) \<union> set_option (cut_after c)"
  shows "rg_start region \<le> rg_start r \<and> rg_start r < rg_end r \<and> rg_end r \<le> rg_end region"
proof -
  define s e where "s = max (rg_start region) (rg_start removal)" and "e = min (rg_end region) (rg_end removal)"
  have bounds: "rg_start region \<le> s" "e \<le> rg_end region"
    by (simp_all add: s_def e_def)
  show ?thesis
    using assms bounds by (auto simp: cut_region_def Let_def not_le simp flip: s_def e_def split: if_splits)
qed

section \<open>Pages of an interval\<close>

function any_page_loop :: "(u64 \<Rightarrow> bool) \<Rightarrow> u64 \<Rightarrow> u64 \<Rightarrow> bool option" where
  "any_page_loop occupied page final =
     (if occupied page then Some True
      else if page = final then Some False
      else case checked_add page 4096 of
             None \<Rightarrow> None
           | Some next \<Rightarrow> any_page_loop occupied next final)"
  by pat_completeness auto

termination any_page_loop
  by (relation "measure (\<lambda>(_, page, _). 2 ^ 64 - unat page)")
    (use unsigned_less [where 'b = 64 and 'a = nat] in \<open>auto simp: checked_add_Some_iff intro!: diff_less_mono2\<close>)

declare any_page_loop.simps [simp del]

definition any_page :: "u64 \<Rightarrow> u64 \<Rightarrow> (u64 \<Rightarrow> bool) \<Rightarrow> bool option" where
  "any_page start len occupied =
     (if len = 0 then Some False
      else case checked_add start (len - 1) of
             None \<Rightarrow> None
           | Some high \<Rightarrow> any_page_loop occupied (start AND NOT 4095) (high AND NOT 4095))"

function covers_loop :: "(nat \<Rightarrow> nat option) \<Rightarrow> (nat \<Rightarrow> bool) \<Rightarrow> nat \<Rightarrow> nat \<Rightarrow> bool" where
  "covers_loop region_end retained page e =
     (if page < e then
        (case region_end page of
           Some limit \<Rightarrow>
             if page + 4096 \<le> limit then covers_loop region_end retained (min (limit div 4096 * 4096) e) e
             else if retained page then covers_loop region_end retained (page + 4096) e
             else False
         | None \<Rightarrow> if retained page then covers_loop region_end retained (page + 4096) e else False)
      else True)"
  by pat_completeness auto

lemma floor_progress: "page + 4096 \<le> limit \<Longrightarrow> page < limit div 4096 * (4096 :: nat)"
  using div_mult_mod_eq [of limit 4096] mod_less_divisor [of 4096 limit] by linarith

termination covers_loop
  by (relation "measure (\<lambda>(_, _, page, e). e - page)") (auto simp: min_def dest: floor_progress)

declare covers_loop.simps [simp del]

definition covers_pages :: "u64 \<Rightarrow> u64 \<Rightarrow> (nat \<Rightarrow> nat option) \<Rightarrow> (nat \<Rightarrow> bool) \<Rightarrow> bool" where
  "covers_pages start e region_end retained =
     (if start > e \<or> start AND 4095 \<noteq> 0 \<or> e AND 4095 \<noteq> 0 then False
      else covers_loop region_end retained (unat start) (unat e))"

section \<open>Resizing\<close>

datatype size_error = SizeInvalid | SizeLimitExceeded

record resize_plan =
  rp_length :: u64
  rp_capacity :: u64
  rp_invalidate :: "u64_range option"
  rp_zero :: "u64_range option"

definition is_power_of_two :: "u64 \<Rightarrow> bool" where
  "is_power_of_two x \<longleftrightarrow> x \<noteq> 0 \<and> x AND (x - 1) = 0"

definition extent_capacity :: "u64 \<Rightarrow> u64 \<Rightarrow> u64 \<Rightarrow> size_error + u64" where
  "extent_capacity len page_bytes maximum_pages =
     (if \<not> is_power_of_two page_bytes then Inl SizeInvalid
      else case checked_add (len div page_bytes) (of_bool (len mod page_bytes \<noteq> 0)) of
        None \<Rightarrow> Inl SizeLimitExceeded
      | Some pages \<Rightarrow>
          if pages > maximum_pages then Inl SizeLimitExceeded
          else case checked_mul pages page_bytes of None \<Rightarrow> Inl SizeLimitExceeded | Some c \<Rightarrow> Inr c)"

definition resize :: "u64 \<Rightarrow> u64 \<Rightarrow> u64 \<Rightarrow> u64 \<Rightarrow> size_error + resize_plan" where
  "resize old_length len page_bytes maximum_pages =
     (case extent_capacity old_length page_bytes maximum_pages of
        Inl e \<Rightarrow> Inl e
      | Inr old_capacity \<Rightarrow>
          (case extent_capacity len page_bytes maximum_pages of
             Inl e \<Rightarrow> Inl e
           | Inr capacity \<Rightarrow>
               let result = \<lparr>rp_length = len, rp_capacity = capacity, rp_invalidate = None, rp_zero = None\<rparr>
               in if len < old_length then
                    Inr (result\<lparr>rp_invalidate := Some \<lparr>rg_start = len div page_bytes * page_bytes, rg_end = old_capacity\<rparr>,
                                rp_zero := (if len < capacity then Some \<lparr>rg_start = len, rg_end = capacity\<rparr> else None)\<rparr>)
                  else if len > old_length \<and> old_length < old_capacity then
                    Inr (result\<lparr>rp_invalidate := Some \<lparr>rg_start = old_length div page_bytes * page_bytes, rg_end = old_capacity\<rparr>,
                                rp_zero := Some \<lparr>rg_start = old_length, rg_end = old_capacity\<rparr>\<rparr>)
                  else Inr result))"

section \<open>Plans over a covered range\<close>

text \<open>\<open>mem cursor\<close> says whether the list can grow at that point.\<close>

function collect_loop ::
  "(u64 \<Rightarrow> bool) \<Rightarrow> (u64 \<Rightarrow> (u64 \<times> 'a option) option) \<Rightarrow> u64 \<Rightarrow> u64 \<Rightarrow> ('a \<times> u64) list \<Rightarrow> status_error + ('a \<times> u64) list" where
  "collect_loop mem lookup cursor e work =
     (if cursor < e then
        (case lookup cursor of
           None \<Rightarrow> Inl InvalidAddress
         | Some (region_end, item) \<Rightarrow>
             if region_end \<le> cursor then Inl BackingFailure
             else
               let next = min region_end e
               in case item of
                    None \<Rightarrow> collect_loop mem lookup next e work
                  | Some x \<Rightarrow>
                      if \<not> mem cursor then Inl ResourceUnavailable
                      else collect_loop mem lookup next e (work @ [(x, next - cursor)]))
      else Inr work)"
  by pat_completeness auto

termination collect_loop
  by (relation "measure (\<lambda>(_, _, cursor, e, _). unat e - unat cursor)")
    (auto simp: word_less_nat_alt min_def word_le_nat_alt)

declare collect_loop.simps [simp del]

definition collect ::
  "(u64 \<Rightarrow> bool) \<Rightarrow> u64 \<Rightarrow> u64 \<Rightarrow> (u64 \<Rightarrow> (u64 \<times> 'a option) option) \<Rightarrow> status_error + ('a \<times> u64) list" where
  "collect mem start len lookup =
     (case checked_add start len of
        None \<Rightarrow> Inl InvalidAddress
      | Some e \<Rightarrow> collect_loop mem lookup start e [])"

section \<open>Overlays\<close>

definition copy_overlap :: "u64 \<Rightarrow> u8 list \<Rightarrow> u64 \<Rightarrow> u8 list \<Rightarrow> u8 list option" where
  "copy_overlap output_offset out cached_offset cached =
     (case checked_add output_offset (of_nat (length out)) of
        None \<Rightarrow> None
      | Some output_end \<Rightarrow>
          (case checked_add cached_offset (of_nat (length cached)) of
             None \<Rightarrow> None
           | Some cached_end \<Rightarrow>
               let start = max output_offset cached_offset; e = min output_end cached_end
               in if start < e then
                    let destination = unat (start - output_offset); source = unat (start - cached_offset);
                        cnt = unat (e - start)
                    in Some (take destination out @ take cnt (drop source cached) @ drop (destination + cnt) out)
                  else Some out))"

section \<open>Page-table leaf flags\<close>

definition COPY_ON_WRITE :: u64 where "COPY_ON_WRITE = push_bit 9 1"
definition WRITE_DISABLED :: u64 where "WRITE_DISABLED = push_bit 10 1"
definition PTE_WRITABLE :: u64 where "PTE_WRITABLE = push_bit 1 1"
definition PRESENT_USER :: u64 where "PRESENT_USER = 1 OR push_bit 2 1"

lemmas leaf_flags = COPY_ON_WRITE_def WRITE_DISABLED_def PTE_WRITABLE_def PRESENT_USER_def

definition may_resolve :: "u64 \<Rightarrow> bool" where
  "may_resolve flags \<longleftrightarrow>
     flags AND PRESENT_USER = PRESENT_USER \<and> flags AND COPY_ON_WRITE \<noteq> 0
     \<and> flags AND (WRITE_DISABLED OR PTE_WRITABLE) = 0"

definition with_write_access :: "u64 \<Rightarrow> bool \<Rightarrow> u64" where
  "with_write_access flags writable =
     (if flags AND COPY_ON_WRITE \<noteq> 0 \<and> \<not> writable then flags OR WRITE_DISABLED
      else flags AND NOT WRITE_DISABLED)"

definition clone_private :: "u64 \<Rightarrow> bool \<Rightarrow> u64" where
  "clone_private flags write_authorized =
     (let writable = write_authorized \<or> flags AND PTE_WRITABLE \<noteq> 0 \<or> may_resolve flags
      in with_write_access ((flags OR COPY_ON_WRITE) AND NOT PTE_WRITABLE) writable)"

definition RAM_LEAF :: u64 where "RAM_LEAF = push_bit 11 1"
definition PTE_USER :: u64 where "PTE_USER = push_bit 2 1"

definition is_resident :: "u64 \<Rightarrow> bool" where
  "is_resident flags \<longleftrightarrow> flags AND (RAM_LEAF OR PTE_USER) = RAM_LEAF OR PTE_USER"

record residency_snapshot =
  current_bytes :: u64
  peak_bytes :: u64

type_synonym residency_counter = "residency_snapshot option"

definition counter_new :: residency_counter where
  "counter_new = Some \<lparr>current_bytes = 0, peak_bytes = 0\<rparr>"

definition counter_snapshot :: "residency_counter \<Rightarrow> residency_snapshot option" where
  "counter_snapshot c = c"

definition counter_transition :: "u64 \<Rightarrow> u64 \<Rightarrow> residency_counter \<Rightarrow> residency_counter" where
  "counter_transition before after c =
     (case c of
        None \<Rightarrow> None
      | Some v \<Rightarrow>
          map_option (\<lambda>bytes. v\<lparr>current_bytes := bytes, peak_bytes := max (peak_bytes v) bytes\<rparr>)
            (case (is_resident before, is_resident after) of
               (False, True) \<Rightarrow> checked_add (current_bytes v) 4096
             | (True, False) \<Rightarrow> checked_sub (current_bytes v) 4096
             | _ \<Rightarrow> Some (current_bytes v)))"

definition counter_retire :: "residency_counter \<Rightarrow> residency_counter" where
  "counter_retire c = map_option (\<lambda>v. v\<lparr>current_bytes := 0\<rparr>) c"

subsection \<open>What the helpers compute\<close>

lemma next_page_le:
  assumes "4096 dvd unat a" "4096 dvd unat (b :: u64)"
  shows "a < b \<longleftrightarrow> unat a + 4096 \<le> unat b"
  using assms by (auto simp: word_less_nat_alt elim!: dvdE)

lemma any_page_loop_spec:
  assumes "page \<le> final" "4096 dvd unat page" "4096 dvd unat final"
  shows "any_page_loop occupied page final = Some (\<exists>p. page \<le> p \<and> p \<le> final \<and> p AND 4095 = 0 \<and> occupied p)"
  using assms
proof (induction occupied page final rule: any_page_loop.induct)
  case (1 occupied page final)
  show ?case
  proof (cases "occupied page \<or> page = final")
    case True
    with "1.prems" show ?thesis
      by (subst any_page_loop.simps) (auto simp: page_offset_zero_iff)
  next
    case False
    then have "unat page + 4096 \<le> unat final"
      using "1.prems" next_page_le [of page final] by (simp add: less_le)
    then have step: "checked_add page 4096 = Some (page + 4096)" "unat (page + 4096) = unat page + 4096"
      using unsigned_less [where 'b = 64 and 'a = nat, of final]
      by (simp_all add: checked_add_def unat_add_checked)
    have "page \<le> p \<and> p AND 4095 = 0 \<and> p \<noteq> page \<longleftrightarrow> page + 4096 \<le> p \<and> p AND 4095 = 0" for p
      using "1.prems"(2) step(2) next_page_le [of page p]
      by (auto simp: page_offset_zero_iff word_le_nat_alt [of "page + 4096"] less_le)
    then have "(\<exists>p. page \<le> p \<and> p \<le> final \<and> p AND 4095 = 0 \<and> occupied p) \<longleftrightarrow>
        (\<exists>p. page + 4096 \<le> p \<and> p \<le> final \<and> p AND 4095 = 0 \<and> occupied p)"
      using False by metis
    then show ?thesis
      using False step "1.prems" \<open>unat page + 4096 \<le> unat final\<close> 1(1) [OF _ _ step(1)]
      by (subst any_page_loop.simps) (simp add: word_le_nat_alt)
  qed
qed

text \<open>The covering loop accepts exactly the intervals each page of which is covered.\<close>

definition page_covered :: "(nat \<Rightarrow> nat option) \<Rightarrow> (nat \<Rightarrow> bool) \<Rightarrow> nat \<Rightarrow> bool" where
  "page_covered region_end retained page \<longleftrightarrow>
     (\<exists>limit. region_end page = Some limit \<and> page + 4096 \<le> limit) \<or> retained page"

text \<open>A region that ends at \<open>limit\<close> when seen from one page covers the later pages below it as well.\<close>

definition region_end_stable :: "(nat \<Rightarrow> nat option) \<Rightarrow> bool" where
  "region_end_stable region_end \<longleftrightarrow>
     (\<forall>page limit p. region_end page = Some limit \<longrightarrow> page \<le> p \<longrightarrow> p < limit \<longrightarrow> region_end p = Some limit)"

lemma region_end_stableD:
  "region_end_stable region_end \<Longrightarrow> region_end page = Some limit \<Longrightarrow> page \<le> p \<Longrightarrow> p < limit \<Longrightarrow> region_end p = Some limit"
  unfolding region_end_stable_def by blast

lemma covers_loop_spec:
  assumes "region_end_stable region_end" "4096 dvd page" "4096 dvd e"
  shows "covers_loop region_end retained page e \<longleftrightarrow>
           (\<forall>p. 4096 dvd p \<longrightarrow> page \<le> p \<longrightarrow> p < e \<longrightarrow> page_covered region_end retained p)"
  using assms
proof (induction region_end retained page e rule: covers_loop.induct)
  case (1 region_end retained page e)
  have step: "p = page \<or> page + 4096 \<le> p" if "4096 dvd p" "page \<le> p" for p
    using that "1.prems"(2) by (auto elim!: dvdE)
  consider "e \<le> page"
    | limit where "page < e" "region_end page = Some limit" "page + 4096 \<le> limit"
    | "page < e" "\<nexists>limit. region_end page = Some limit \<and> page + 4096 \<le> limit"
    by (meson not_less)
  then show ?case
  proof cases
    case 1
    then show ?thesis
      by (subst covers_loop.simps) auto
  next
    case (2 limit)
    let ?n = "min (limit div 4096 * 4096) e"
    have "page_covered region_end retained p" if "4096 dvd p" "page \<le> p" "p < ?n" for p
    proof -
      have "p + 4096 \<le> limit div 4096 * 4096"
        using that by (auto elim!: dvdE simp: mult.commute)
      then have "p + 4096 \<le> limit"
        by (metis div_times_less_eq_dividend le_trans)
      moreover from this have "region_end p = Some limit"
        by (intro region_end_stableD [OF "1.prems"(1) 2(2) that(2)]) simp
      ultimately show ?thesis
        by (auto simp: page_covered_def)
    qed
    moreover have "covers_loop region_end retained ?n e \<longleftrightarrow>
        (\<forall>p. 4096 dvd p \<longrightarrow> ?n \<le> p \<longrightarrow> p < e \<longrightarrow> page_covered region_end retained p)"
      using "1.IH"(2) [OF 2] "1.prems" by (simp add: min_def)
    moreover have "page < ?n"
      using floor_progress [OF 2(3)] 2(1) by simp
    moreover have "covers_loop region_end retained page e \<longleftrightarrow> covers_loop region_end retained ?n e"
      using 2 by (subst covers_loop.simps) simp
    ultimately show ?thesis
      by (meson le_trans less_imp_le not_le)
  next
    case 3
    then have "covers_loop region_end retained page e \<longleftrightarrow> retained page \<and> covers_loop region_end retained (page + 4096) e"
      by (subst covers_loop.simps) (auto split: option.splits)
    moreover have "covers_loop region_end retained (page + 4096) e \<longleftrightarrow>
        (\<forall>p. 4096 dvd p \<longrightarrow> page + 4096 \<le> p \<longrightarrow> p < e \<longrightarrow> page_covered region_end retained p)" if "retained page"
      using "1.IH"(1,3) "1.prems" 3 that by (cases "region_end page") auto
    moreover have "page_covered region_end retained page \<longleftrightarrow> retained page"
      using 3(2) by (auto simp: page_covered_def)
    moreover have "(\<forall>p. 4096 dvd p \<longrightarrow> page \<le> p \<longrightarrow> p < e \<longrightarrow> page_covered region_end retained p) \<longleftrightarrow>
        page_covered region_end retained page
        \<and> (\<forall>p. 4096 dvd p \<longrightarrow> page + 4096 \<le> p \<longrightarrow> p < e \<longrightarrow> page_covered region_end retained p)"
    proof (intro iffI conjI allI impI)
      fix p
      assume "page_covered region_end retained page
          \<and> (\<forall>p. 4096 dvd p \<longrightarrow> page + 4096 \<le> p \<longrightarrow> p < e \<longrightarrow> page_covered region_end retained p)"
        and "4096 dvd p" "page \<le> p" "p < e"
      then show "page_covered region_end retained p"
        using step [of p] by auto
    qed (use 3(1) "1.prems"(2) in auto)
    ultimately show ?thesis
      by blast
  qed
qed

lemma collect_loop_lengths:
  assumes "collect_loop mem lookup cursor e work = Inr work'" "cursor \<le> e"
  shows "(\<Sum>(_, n) \<leftarrow> work'. unat n) \<le> (\<Sum>(_, n) \<leftarrow> work. unat n) + unat (e - cursor)"
  using assms
proof (induction mem lookup cursor e work rule: collect_loop.induct)
  case (1 mem lookup cursor e work)
  show ?case
  proof (cases "cursor < e")
    case False
    then show ?thesis
      using "1.prems" by (subst (asm) collect_loop.simps) auto
  next
    case True
    then obtain re item where look: "lookup cursor = Some (re, item)" "\<not> re \<le> cursor"
      using "1.prems"(1) by (subst (asm) collect_loop.simps) (auto split: option.splits if_splits)
    let ?n = "min re e"
    have n: "cursor < ?n" "?n \<le> e"
      using look True by auto
    then have split: "unat (e - cursor) = unat (?n - cursor) + unat (e - ?n)"
      by (simp add: unat_sub_le word_le_nat_alt word_less_nat_alt)
    show ?thesis
    proof (cases item)
      case None
      then have "collect_loop mem lookup ?n e work = Inr work'"
        using "1.prems"(1) True look by (subst (asm) collect_loop.simps) (simp add: Let_def)
      then show ?thesis
        using "1.IH"(1) [OF True look(1) refl look(2) refl None] n split by simp
    next
      case (Some x)
      then have "mem cursor" "collect_loop mem lookup ?n e (work @ [(x, ?n - cursor)]) = Inr work'"
        using "1.prems"(1) True look by (auto simp: collect_loop.simps [of _ _ cursor] Let_def split: if_splits)
      then show ?thesis
        using "1.IH"(2) [OF True look(1) refl look(2) refl Some] n split by simp
    qed
  qed
qed

text \<open>An overlay changes exactly the bytes of the cached range.\<close>

lemma splice_nth:
  assumes "d + n \<le> length xs" "s + n \<le> length ys" "i < length xs"
  shows "(take d xs @ take n (drop s ys) @ drop (d + n) xs) ! i
    = (if d \<le> i \<and> i < d + n then ys ! (s + i - d) else xs ! i)"
  using assms by (auto simp: nth_append)

lemma copy_overlap_nth:
  assumes "copy_overlap output_offset out cached_offset cached = Some out'"
    and "length out < 2 ^ 64" "length cached < 2 ^ 64"
  shows "length out' = length out"
    and "i < length out \<Longrightarrow>
      out' ! i = (if unat cached_offset \<le> unat output_offset + i
                    \<and> unat output_offset + i < unat cached_offset + length cached
                  then cached ! (unat output_offset + i - unat cached_offset) else out ! i)"
proof -
  let ?os = "unat output_offset" and ?cs = "unat cached_offset"
  let ?oe = "?os + length out" and ?ce = "?cs + length cached"
  obtain oe ce where ends: "checked_add output_offset (of_nat (length out)) = Some oe"
      "checked_add cached_offset (of_nat (length cached)) = Some ce"
    using assms(1) by (auto simp: copy_overlap_def split: option.splits)
  then have e: "unat oe = ?oe" "unat ce = ?ce"
    using assms(2,3) by (auto simp: checked_add_Some_iff unat_of_nat take_bit_nat_eq_self)
  let ?s = "max output_offset cached_offset" and ?e = "min oe ce"
  have se: "unat ?s = max ?os ?cs" "unat ?e = min ?oe ?ce"
    by (simp_all add: unat_max unat_min e)
  show "length out' = length out"
    using assms(1) ends se
    by (auto simp: copy_overlap_def Let_def word_less_nat_alt unat_sub_le word_le_nat_alt split: if_splits)
  assume i: "i < length out"
  show "out' ! i = (if ?cs \<le> ?os + i \<and> ?os + i < ?ce then cached ! (?os + i - ?cs) else out ! i)"
  proof (cases "?s < ?e")
    case False
    then show ?thesis
      using assms(1) ends se i by (auto simp: copy_overlap_def Let_def word_less_nat_alt)
  next
    case True
    then have sub: "unat (?s - output_offset) = max ?os ?cs - ?os" "unat (?s - cached_offset) = max ?os ?cs - ?cs"
        "unat (?e - ?s) = min ?oe ?ce - max ?os ?cs"
      using se by (simp_all add: unat_sub_le word_le_nat_alt word_less_nat_alt)
    define d n s where "d = max ?os ?cs - ?os" and "n = min ?oe ?ce - max ?os ?cs" and "s = max ?os ?cs - ?cs"
    have lt: "max ?os ?cs < min ?oe ?ce"
      using True se by (simp add: word_less_nat_alt)
    have fits: "d + n \<le> length out" "s + n \<le> length cached"
      using lt by (auto simp: d_def n_def s_def max_def min_def)
    have "out' = take d out @ take n (drop s cached) @ drop (d + n) out"
      using assms(1) ends True by (simp add: copy_overlap_def Let_def sub flip: d_def n_def s_def)
    then have "out' ! i = (if d \<le> i \<and> i < d + n then cached ! (s + i - d) else out ! i)"
      by (simp only: splice_nth [OF fits i])
    moreover have "d \<le> i \<and> i < d + n \<longleftrightarrow> ?cs \<le> ?os + i \<and> ?os + i < ?ce"
      using lt i by (auto simp: d_def n_def max_def min_def split: if_splits)
    moreover have "s + i - d = ?os + i - ?cs" if "d \<le> i"
      using that by (auto simp: d_def s_def max_def)
    ultimately show ?thesis
      by auto
  qed
qed

text \<open>A capacity is the length rounded up to whole pages.\<close>

lemma extent_capacity_bounds:
  assumes "extent_capacity len page_bytes maximum_pages = Inr c"
  shows "unat len \<le> unat c" "unat c < unat len + unat page_bytes" "unat page_bytes dvd unat c"
    "unat c \<le> unat maximum_pages * unat page_bytes"
proof -
  obtain pages where pb: "page_bytes \<noteq> 0" and pages: "pages \<le> maximum_pages"
      and add: "checked_add (len div page_bytes) (of_bool (len mod page_bytes \<noteq> 0)) = Some pages"
      and mul: "checked_mul pages page_bytes = Some c"
    using assms by (auto simp: extent_capacity_def is_power_of_two_def not_less split: if_splits option.splits)
  have p: "unat pages = unat len div unat page_bytes + of_bool (unat len mod unat page_bytes \<noteq> 0)"
    using add by (auto simp: checked_add_Some_iff unat_div unat_mod word_unat_eq_iff split: if_splits)
  have c: "unat c = unat pages * unat page_bytes"
    using mul by (auto simp: checked_mul_def unat_mult_lem [THEN iffD1] split: if_splits)
  have pos: "0 < unat page_bytes"
    using pb by (simp add: unat_gt_0)
  define q r where "q = unat len div unat page_bytes" and "r = unat len mod unat page_bytes"
  have "unat len = q * unat page_bytes + r" "r < unat page_bytes"
    using pos by (simp_all add: q_def r_def)
  then show "unat len \<le> unat c" "unat c < unat len + unat page_bytes"
    by (auto simp: c p distrib_right simp flip: q_def r_def)
  show "unat page_bytes dvd unat c"
    by (simp add: c)
  show "unat c \<le> unat maximum_pages * unat page_bytes"
    using pages by (simp add: c word_le_nat_alt)
qed

text \<open>The storage bytes that stay but are outside the old or the new contents are zeroed.\<close>

lemma resize_zeroes:
  assumes "resize old_length len page_bytes maximum_pages = Inr plan" "len \<noteq> old_length"
    and "extent_capacity old_length page_bytes maximum_pages = Inr old_capacity"
    and "min old_length len \<le> b" "b < old_capacity" "b < rp_capacity plan"
  shows "\<exists>z i. rp_zero plan = Some z \<and> in_range b z \<and> rp_invalidate plan = Some i \<and> in_range b i"
proof -
  have floor: "x div page_bytes * page_bytes \<le> x" for x
  proof -
    have "unat (x div page_bytes) * unat page_bytes \<le> unat x"
      by (simp add: unat_div)
    then show ?thesis
      using unsigned_less [where 'b = 64 and 'a = nat, of x]
      by (simp add: word_le_nat_alt unat_word_ariths)
  qed
  show ?thesis
  proof (cases "len < old_length")
    case True
    then show ?thesis
      using assms order_trans [OF floor [of len]]
      by (auto simp: resize_def Let_def in_range_def min_def split: sum.splits if_splits)
  next
    case False
    then have "old_length < len"
      using assms(2) by auto
    then show ?thesis
      using assms False order_trans [OF floor [of old_length]]
      by (auto simp: resize_def Let_def in_range_def min_def split: sum.splits if_splits)
  qed
qed

lemma flag_bit: "(x :: u64) AND push_bit n 1 \<noteq> 0 \<longleftrightarrow> bit x n"
  by (simp add: push_bit_of_1 and_exp_eq_0_iff_not_bit)

lemma flag_bits:
  "bit (COPY_ON_WRITE) n \<longleftrightarrow> n = 9" "bit (WRITE_DISABLED) n \<longleftrightarrow> n = 10" "bit (PTE_WRITABLE) n \<longleftrightarrow> n = 1"
  "bit (PRESENT_USER) n \<longleftrightarrow> n = 0 \<or> n = 2"
  unfolding leaf_flags push_bit_of_1 bit_or_iff bit_exp_iff bit_1_iff by auto

lemma with_write_access_bits:
  "bit (with_write_access flags writable) n \<longleftrightarrow>
     (if n = 10 then bit flags 9 \<and> \<not> writable else bit flags n)"
proof -
  have "flags AND COPY_ON_WRITE \<noteq> 0 \<longleftrightarrow> bit flags 9"
    unfolding leaf_flags by (rule flag_bit)
  then show ?thesis
    by (auto simp: with_write_access_def bit_simps flag_bits dest: bit_imp_le_length)
qed

lemma two_bits:
  assumes "i < k" "j < (k :: nat)"
  shows "(\<forall>n < k. (P n \<and> (n = i \<or> n = j)) = (n = i \<or> n = j)) \<longleftrightarrow> P i \<and> P j"
    and "(\<forall>n < k. P n \<longrightarrow> n \<noteq> i \<and> n \<noteq> j) \<longleftrightarrow> \<not> P i \<and> \<not> P j"
  using assms by blast+

lemma may_resolve_bits:
  "may_resolve flags \<longleftrightarrow> bit flags 0 \<and> bit flags 2 \<and> bit flags 9 \<and> \<not> bit flags 10 \<and> \<not> bit flags 1"
proof -
  have "flags AND PRESENT_USER = PRESENT_USER \<longleftrightarrow> bit flags 0 \<and> bit flags 2"
    by (simp add: bit_eq_iff [where 'a = "64 word"] bit_and_iff flag_bits two_bits)
  moreover have "flags AND COPY_ON_WRITE \<noteq> 0 \<longleftrightarrow> bit flags 9"
    unfolding leaf_flags by (rule flag_bit)
  moreover have "flags AND (WRITE_DISABLED OR PTE_WRITABLE) = 0 \<longleftrightarrow> \<not> bit flags 10 \<and> \<not> bit flags 1"
    by (simp add: bit_eq_iff [where 'a = "64 word"] bit_and_iff bit_or_iff flag_bits two_bits)
  ultimately show ?thesis
    unfolding may_resolve_def by blast
qed

lemma clone_private_bits:
  "bit (clone_private flags authorized) n \<longleftrightarrow>
     (if n = 1 then False else if n = 9 then True
      else if n = 10 then \<not> (authorized \<or> bit flags 1 \<or> may_resolve flags)
      else bit flags n)"
proof -
  have "flags AND PTE_WRITABLE \<noteq> 0 \<longleftrightarrow> bit flags 1"
    unfolding leaf_flags by (rule flag_bit)
  then show ?thesis
    by (auto simp: clone_private_def Let_def with_write_access_bits bit_simps flag_bits dest: bit_imp_le_length)
qed

text \<open>
  Cloning a private leaf: neither copy is writable, both refer to shared storage, and a later write
  fault may take a copy exactly when the original mapping allowed writing.
\<close>

lemma clone_private_resolves:
  "may_resolve (clone_private flags authorized) \<longleftrightarrow>
     bit flags 0 \<and> bit flags 2 \<and> (authorized \<or> bit flags 1 \<or> may_resolve flags)"
  by (simp only: may_resolve_bits [of "clone_private flags authorized"] clone_private_bits) auto

section \<open>The resident counter\<close>

text \<open>A leaf table with its counter; one edit replaces the flags of one leaf.\<close>

definition leaf_edit :: "'k \<times> u64 \<Rightarrow> ('k \<Rightarrow> u64) \<times> residency_counter \<Rightarrow> ('k \<Rightarrow> u64) \<times> residency_counter" where
  "leaf_edit edit s = (let (k, after) = edit; (leaves, c) = s
     in (leaves(k := after), counter_transition (leaves k) after c))"

definition resident_leaves :: "('k \<Rightarrow> u64) \<Rightarrow> 'k set" where
  "resident_leaves leaves = {k. is_resident (leaves k)}"

definition counts_leaves :: "('k \<Rightarrow> u64) \<times> residency_counter \<Rightarrow> bool" where
  "counts_leaves s \<longleftrightarrow> finite (resident_leaves (fst s)) \<and>
     (\<exists>v. snd s = Some v \<and> unat (current_bytes v) = 4096 * card (resident_leaves (fst s))
        \<and> current_bytes v \<le> peak_bytes v)"

lemma resident_leaves_upd:
  "resident_leaves (leaves(k := f)) =
     (if is_resident f then insert k (resident_leaves leaves) else resident_leaves leaves - {k})"
  by (auto simp: resident_leaves_def)

lemma leaf_edit_counts:
  assumes "counts_leaves s" "4096 * (card (resident_leaves (fst s)) + 1) < 2 ^ 64"
  shows "counts_leaves (leaf_edit edit s)"
proof -
  obtain leaves v k after where s: "s = (leaves, Some v)" "edit = (k, after)"
    using assms(1) by (cases s, cases edit) (auto simp: counts_leaves_def)
  have fin: "finite (resident_leaves leaves)" and v: "unat (current_bytes v) = 4096 * card (resident_leaves leaves)"
    using assms(1) by (auto simp: s counts_leaves_def)
  have same: "resident_leaves (leaves(k := after)) = resident_leaves leaves" if "is_resident (leaves k) = is_resident after"
    using that by (auto simp: resident_leaves_def)
  show ?thesis
  proof (cases "is_resident (leaves k)"; cases "is_resident after")
    assume "\<not> is_resident (leaves k)" "is_resident after"
    moreover from this have "k \<notin> resident_leaves leaves"
      by (simp add: resident_leaves_def)
    moreover have "checked_add (current_bytes v) 4096 = Some (current_bytes v + 4096)"
        "unat (current_bytes v + 4096) = unat (current_bytes v) + 4096"
      using v assms(2) by (simp_all add: s checked_add_def unat_add_checked)
    ultimately show ?thesis
      using fin v by (simp add: s leaf_edit_def counts_leaves_def counter_transition_def resident_leaves_upd)
  next
    assume "is_resident (leaves k)" "\<not> is_resident after"
    moreover from this have k: "k \<in> resident_leaves leaves"
      by (simp add: resident_leaves_def)
    moreover from k fin have "0 < card (resident_leaves leaves)"
      by (auto simp: card_gt_0_iff)
    moreover from this have "checked_sub (current_bytes v) 4096 = Some (current_bytes v - 4096)"
        "unat (current_bytes v - 4096) = unat (current_bytes v) - 4096"
      using v by (simp_all add: checked_sub_def word_le_nat_alt unat_sub_le)
    ultimately show ?thesis
      using fin v
      by (simp add: s leaf_edit_def counts_leaves_def counter_transition_def resident_leaves_upd diff_mult_distrib2)
  qed (use fin v same in \<open>auto simp: s leaf_edit_def counts_leaves_def counter_transition_def\<close>)
qed

lemma leaf_edits_count:
  assumes "counts_leaves s" "4096 * (card (resident_leaves (fst s)) + length edits) < 2 ^ 64"
  shows "counts_leaves (fold leaf_edit edits s)"
  using assms
proof (induction edits arbitrary: s)
  case (Cons edit edits)
  have "card (resident_leaves (fst (leaf_edit edit s))) \<le> card (resident_leaves (fst s)) + 1"
    using Cons.prems(1)
    by (cases edit, cases s)
      (auto simp: leaf_edit_def resident_leaves_upd counts_leaves_def card_insert_if card_Diff_singleton_if)
  then have "counts_leaves (fold leaf_edit edits (leaf_edit edit s))"
    using Cons.prems by (intro Cons.IH leaf_edit_counts) auto
  then show ?case
    by simp
qed simp

text \<open>
  C27. The resident-memory counter of an address space is exact. Starting from an empty page table
  and a new counter, any sequence of leaf edits short of filling the 64-bit byte range leaves the
  counter available, with its current bytes 4096 times the number of resident leaves and never above
  the recorded peak.
\<close>

theorem residency_exact:
  assumes "4096 * length edits < 2 ^ 64"
  shows "counts_leaves (fold leaf_edit edits ((\<lambda>_. 0), counter_new))"
proof (rule leaf_edits_count)
  show "counts_leaves ((\<lambda>_ :: 'a. 0), counter_new)"
    by (simp add: counts_leaves_def resident_leaves_def is_resident_def counter_new_def RAM_LEAF_def PTE_USER_def)
qed (use assms in \<open>simp add: resident_leaves_def is_resident_def RAM_LEAF_def PTE_USER_def\<close>)

theorem residency_exact_witness:
  "4096 * length [(0 :: nat, 0x807 :: u64), (1, 0x805), (0, 0)] < 2 ^ 64
   \<and> counts_leaves (fold leaf_edit [(0 :: nat, 0x807), (1, 0x805), (0, 0)] ((\<lambda>_. 0), counter_new))"
  using residency_exact [of "[(0 :: nat, 0x807), (1, 0x805), (0, 0)]"] by simp

text \<open>
  C26. Resizing a memory object never exposes stale bytes. In every successful plan that changes the
  length, each byte of the storage kept that lies outside the old or the new contents is inside both
  the zeroed range and the range whose mappings are revoked, and the new capacity is the length
  rounded up to whole pages within the page limit.
\<close>

theorem resize_hides_stale_bytes:
  assumes "resize old_length len page_bytes maximum_pages = Inr plan"
    and "extent_capacity old_length page_bytes maximum_pages = Inr old_capacity"
  shows "(len \<noteq> old_length \<longrightarrow> min old_length len \<le> b \<longrightarrow> b < old_capacity \<longrightarrow> b < rp_capacity plan \<longrightarrow>
        (\<exists>z i. rp_zero plan = Some z \<and> in_range b z \<and> rp_invalidate plan = Some i \<and> in_range b i))
    \<and> rp_length plan = len \<and> unat len \<le> unat (rp_capacity plan) \<and> unat (rp_capacity plan) < unat len + unat page_bytes
    \<and> unat page_bytes dvd unat (rp_capacity plan) \<and> unat (rp_capacity plan) \<le> unat maximum_pages * unat page_bytes"
proof (intro conjI)
  show "len \<noteq> old_length \<longrightarrow> min old_length len \<le> b \<longrightarrow> b < old_capacity \<longrightarrow> b < rp_capacity plan \<longrightarrow>
      (\<exists>z i. rp_zero plan = Some z \<and> in_range b z \<and> rp_invalidate plan = Some i \<and> in_range b i)"
    using resize_zeroes [OF assms(1) _ assms(2)] by blast
  have cap: "extent_capacity len page_bytes maximum_pages = Inr (rp_capacity plan)" and len: "rp_length plan = len"
    using assms by (auto simp: resize_def Let_def split: sum.splits if_splits)
  show "rp_length plan = len"
    by (rule len)
  show "unat len \<le> unat (rp_capacity plan)" "unat (rp_capacity plan) < unat len + unat page_bytes"
    "unat page_bytes dvd unat (rp_capacity plan)" "unat (rp_capacity plan) \<le> unat maximum_pages * unat page_bytes"
    by (rule extent_capacity_bounds [OF cap])+
qed

theorem resize_hides_stale_bytes_witness:
  "resize 0x1800 0x2800 0x1000 16 = Inr \<lparr>rp_length = 0x2800, rp_capacity = 0x3000,
     rp_invalidate = Some \<lparr>rg_start = 0x1000, rg_end = 0x2000\<rparr>, rp_zero = Some \<lparr>rg_start = 0x1800, rg_end = 0x2000\<rparr>\<rparr>
   \<and> (\<exists>z i. Some \<lparr>rg_start = 0x1800, rg_end = 0x2000\<rparr> = Some z \<and> in_range 0x1900 z
        \<and> Some \<lparr>rg_start = 0x1000, rg_end = 0x2000 :: u64\<rparr> = Some i \<and> in_range 0x1900 i)"
proof -
  have cap: "extent_capacity 0x1800 0x1000 16 = Inr 0x2000" "extent_capacity 0x2800 0x1000 16 = Inr 0x3000"
    by (simp_all add: extent_capacity_def is_power_of_two_def checked_add_def checked_mul_def
        word_arith_nat_div word_arith_nat_mod)
  have plan: "resize 0x1800 0x2800 0x1000 16 = Inr \<lparr>rp_length = 0x2800, rp_capacity = 0x3000,
     rp_invalidate = Some \<lparr>rg_start = 0x1000, rg_end = 0x2000\<rparr>, rp_zero = Some \<lparr>rg_start = 0x1800, rg_end = 0x2000\<rparr>\<rparr>"
    by (simp add: resize_def cap Let_def word_arith_nat_div)
  show ?thesis
    using plan resize_hides_stale_bytes [OF plan cap(1), of "0x1900"] by simp
qed

end
