(* ===== verification/Page_Walk.thy ===== *)
theory Page_Walk
  imports Byte_Ranges
begin

text \<open>
  The search for the next mapped user page (\<^verbatim>\<open>src/mem/sparse_page_walk.rs\<close>, called by
  \<^verbatim>\<open>next_user_page_entry\<close> of \<^verbatim>\<open>src/mem/paging.rs\<close>) and the accounting of mapped bytes
  (\<^verbatim>\<open>src/mem/mapping_usage.rs\<close>). The search skips absent subtrees; it is shown equal to a walk
  of every page. The accounting meets the search through the locale \<open>leaf_source\<close>.

  The search runs on natural numbers: its guard bounds every address by \<open>2^47\<close>, so no shift or
  addition in it overflows.
\<close>

section \<open>Searching a page table\<close>

datatype page_entry = Absent | Branch u64 | Leaf

datatype 'e walk_error = WalkInvalidRange | WalkInvalidTree | WalkBackend 'e

datatype walk_step = Found | SkipTo nat | Descend u64 | BadTree

definition level_shift :: "nat \<Rightarrow> nat" where
  "level_shift level = 12 + 9 * (level - 1)"

definition walk_entry :: "nat \<Rightarrow> nat \<Rightarrow> page_entry \<Rightarrow> walk_step" where
  "walk_entry level address entry =
     (case entry of
        Absent \<Rightarrow> SkipTo ((address div 2 ^ level_shift level + 1) * 2 ^ level_shift level)
      | Leaf \<Rightarrow> if level = 1 then Found else BadTree
      | Branch child \<Rightarrow> if level > 1 \<and> child \<noteq> 0 \<and> child AND 4095 = 0 then Descend child else BadTree)"

text \<open>
  The levels from the given one down to 1, for one address: \<open>Inr None\<close> when a leaf was found,
  \<open>Inr (Some next)\<close> when the search goes on at \<open>next\<close>. Leaving the final level without either
  starts the outer loop again at the same address, which cannot happen.
\<close>

fun walk_levels ::
  "(u64 \<Rightarrow> nat \<Rightarrow> nat \<Rightarrow> 'e + page_entry) \<Rightarrow> nat \<Rightarrow> nat \<Rightarrow> u64 \<Rightarrow> 'e walk_error + nat option" where
  "walk_levels inspect address 0 table = Inl WalkInvalidTree"
| "walk_levels inspect address (Suc l) table =
     (case inspect table (address div 2 ^ level_shift (Suc l) mod 512) (Suc l) of
        Inl e \<Rightarrow> Inl (WalkBackend e)
      | Inr entry \<Rightarrow>
          (case walk_entry (Suc l) address entry of
             Found \<Rightarrow> Inr None
           | SkipTo next \<Rightarrow> Inr (Some next)
           | Descend child \<Rightarrow> walk_levels inspect address l child
           | BadTree \<Rightarrow> Inl WalkInvalidTree))"

lemma skip_progress: "address < (address div 2 ^ n + 1) * (2 :: nat) ^ n"
  by (metis Suc_eq_plus1 dividend_less_div_times mult.commute mult_Suc_right zero_less_numeral zero_less_power)

lemma walk_levels_next: "walk_levels inspect address level table = Inr (Some next) \<Longrightarrow> address < next"
proof (induction level arbitrary: table)
  case (Suc l)
  then show ?case
    using skip_progress [of address "level_shift (Suc l)"]
    by (auto simp: walk_entry_def split: sum.splits walk_step.splits page_entry.splits if_splits)
qed simp

function sparse_loop ::
  "(u64 \<Rightarrow> nat \<Rightarrow> nat \<Rightarrow> 'e + page_entry) \<Rightarrow> u64 \<Rightarrow> nat \<Rightarrow> nat \<Rightarrow> 'e walk_error + nat option" where
  "sparse_loop inspect root address e =
     (if address < e then
        (case walk_levels inspect address 4 root of
           Inl err \<Rightarrow> Inl err
         | Inr None \<Rightarrow> Inr (Some address)
         | Inr (Some next) \<Rightarrow> sparse_loop inspect root next e)
      else Inr None)"
  by pat_completeness auto

termination sparse_loop
  by (relation "measure (\<lambda>(_, _, address, e). e - address)") (auto dest: walk_levels_next)

declare sparse_loop.simps [simp del]

definition sparse_next ::
  "(u64 \<Rightarrow> nat \<Rightarrow> nat \<Rightarrow> 'e + page_entry) \<Rightarrow> u64 \<Rightarrow> u64 \<Rightarrow> u64 \<Rightarrow> 'e walk_error + u64 option" where
  "sparse_next inspect root start e =
     (if root = 0 \<or> root AND 4095 \<noteq> 0 \<or> start AND 4095 \<noteq> 0 \<or> e AND 4095 \<noteq> 0 \<or> start > e \<or> e > push_bit 47 1
      then Inl WalkInvalidRange
      else map_sum id (map_option of_nat) (sparse_loop inspect root (unat start) (unat e)))"

text \<open>The reference search looks at every page of the range in turn.\<close>

function linear_loop ::
  "(u64 \<Rightarrow> nat \<Rightarrow> nat \<Rightarrow> 'e + page_entry) \<Rightarrow> u64 \<Rightarrow> nat \<Rightarrow> nat \<Rightarrow> 'e walk_error + nat option" where
  "linear_loop inspect root address e =
     (if address < e then
        (case walk_levels inspect address 4 root of
           Inl err \<Rightarrow> Inl err
         | Inr None \<Rightarrow> Inr (Some address)
         | Inr (Some _) \<Rightarrow> linear_loop inspect root (address + 4096) e)
      else Inr None)"
  by pat_completeness auto

termination linear_loop
  by (relation "measure (\<lambda>(_, _, address, e). e - address)") auto

declare linear_loop.simps [simp del]

definition linear_next ::
  "(u64 \<Rightarrow> nat \<Rightarrow> nat \<Rightarrow> 'e + page_entry) \<Rightarrow> u64 \<Rightarrow> u64 \<Rightarrow> u64 \<Rightarrow> 'e walk_error + u64 option" where
  "linear_next inspect root start e =
     (if root = 0 \<or> root AND 4095 \<noteq> 0 \<or> start AND 4095 \<noteq> 0 \<or> e AND 4095 \<noteq> 0 \<or> start > e \<or> e > push_bit 47 1
      then Inl WalkInvalidRange
      else map_sum id (map_option of_nat) (linear_loop inspect root (unat start) (unat e)))"

lemma level_shift_Suc: "level_shift (Suc (Suc l)) = level_shift (Suc l) + 9"
  by (simp add: level_shift_def)

lemma block_end_mono:
  assumes "0 < m" "m dvd M" "0 < M"
  shows "(a div m + 1) * m \<le> (a div M + 1) * (M :: nat)"
proof -
  obtain k where k: "M = m * k"
    using assms(2) by blast
  have "a < (a div M + 1) * M"
    using assms(3) by (metis Suc_eq_plus1 dividend_less_div_times mult.commute mult_Suc_right)
  then have "a < ((a div M + 1) * k) * m"
    by (simp add: k algebra_simps)
  then have "a div m < (a div M + 1) * k"
    using assms(1) by (metis less_mult_imp_div_less)
  then have "(a div m + 1) * m \<le> ((a div M + 1) * k) * m"
    by (metis Suc_eq_plus1 Suc_leI mult_le_mono1)
  then show ?thesis
    by (simp add: k algebra_simps)
qed

lemma same_block:
  assumes "a \<le> b" "b < (a div m + 1) * m"
  shows "b div m = (a :: nat) div m"
proof -
  have "b div m < a div m + 1"
    using assms(2) by (rule less_mult_imp_div_less)
  moreover have "a div m \<le> b div m"
    using assms(1) by (rule div_le_mono)
  ultimately show ?thesis
    by simp
qed

text \<open>A skip stays inside the block of every level above, and ends on a page boundary.\<close>

lemma walk_levels_skip:
  "walk_levels inspect a (Suc l) table = Inr (Some next) \<Longrightarrow>
   next \<le> (a div 2 ^ level_shift (Suc l) + 1) * 2 ^ level_shift (Suc l) \<and> 4096 dvd next"
proof (induction l arbitrary: table)
  case 0
  then show ?case
    by (auto simp: walk_entry_def level_shift_def split: sum.splits walk_step.splits page_entry.splits if_splits)
next
  case (Suc l)
  have mono: "(a div 2 ^ level_shift (Suc l) + 1) * 2 ^ level_shift (Suc l)
      \<le> (a div 2 ^ level_shift (Suc (Suc l)) + 1) * 2 ^ level_shift (Suc (Suc l))"
    by (rule block_end_mono) (simp_all add: level_shift_Suc le_imp_power_dvd)
  have page: "(4096 :: nat) dvd 2 ^ level_shift (Suc (Suc l))"
    using le_imp_power_dvd [of 12 "level_shift (Suc (Suc l))" "2 :: nat"] by (simp add: level_shift_def)
  from Suc.prems consider
      "next = (a div 2 ^ level_shift (Suc (Suc l)) + 1) * 2 ^ level_shift (Suc (Suc l))"
    | child where "walk_levels inspect a (Suc l) child = Inr (Some next)"
    by (auto simp: walk_entry_def simp del: walk_levels.simps(2)
        simp: walk_levels.simps(2) [of inspect a "Suc l"]
        split: sum.splits walk_step.splits page_entry.splits if_splits)
  then show ?case
  proof cases
    case 1
    then show ?thesis
      using page by (simp add: dvd_mult)
  next
    case 2
    then show ?thesis
      using Suc.IH mono le_trans by blast
  qed
qed

lemma walk_levels_block:
  "walk_levels inspect a (Suc l) table = Inr (Some next) \<Longrightarrow> a \<le> b \<Longrightarrow> b < next \<Longrightarrow>
   walk_levels inspect b (Suc l) table = Inr (Some next)"
proof (induction l arbitrary: table)
  case 0
  then have eq: "b div 2 ^ level_shift (Suc 0) = a div 2 ^ level_shift (Suc 0)"
    using walk_levels_skip [OF "0.prems"(1)] by (intro same_block) auto
  show ?case
    using "0.prems"(1) by (auto simp: eq walk_entry_def split: sum.splits walk_step.splits page_entry.splits if_splits)
next
  case (Suc l)
  then have eq: "b div 2 ^ level_shift (Suc (Suc l)) = a div 2 ^ level_shift (Suc (Suc l))"
    using walk_levels_skip [OF Suc.prems(1)] by (intro same_block) auto
  show ?case
    using Suc.prems Suc.IH
    by (auto simp: eq walk_entry_def walk_levels.simps(2) [of _ _ "Suc l"] simp del: walk_levels.simps(2)
        split: sum.splits walk_step.splits page_entry.splits if_splits)
qed

lemma linear_skip:
  assumes "\<forall>b. a \<le> b \<longrightarrow> b < next \<longrightarrow> (\<exists>n. walk_levels inspect b 4 root = Inr (Some n))"
    and "4096 dvd a" "4096 dvd next" "a \<le> next"
  shows "linear_loop inspect root a e = linear_loop inspect root next e"
  using assms
proof (induction "next - a" arbitrary: a rule: less_induct)
  case less
  show ?case
  proof (cases "a = next \<or> e \<le> a")
    case True
    with less.prems(4) show ?thesis
      by (auto simp: linear_loop.simps)
  next
    case False
    with less.prems have "a + 4096 \<le> next"
      by (metis dvd_add_right_iff dvd_imp_le le_add_diff_inverse le_neq_implies_less nat_add_left_cancel_le zero_less_diff)
    then have "linear_loop inspect root (a + 4096) e = linear_loop inspect root next e"
      using False less.prems by (intro less.hyps) auto
    moreover have "\<exists>n. walk_levels inspect a 4 root = Inr (Some n)"
      using less.prems False by auto
    ultimately show ?thesis
      using False by (subst linear_loop.simps) auto
  qed
qed

lemma four: "Suc 3 = 4"
  by simp

lemmas walk_skip = walk_levels_skip [where l = 3, unfolded four]
  and walk_block = walk_levels_block [where l = 3, unfolded four]

lemma sparse_linear:
  "4096 dvd address \<Longrightarrow> sparse_loop inspect root address e = linear_loop inspect root address e"
proof (induction inspect root address e rule: sparse_loop.induct)
  case (1 inspect root address e)
  show ?case
  proof (cases "\<exists>next. address < e \<and> walk_levels inspect address 4 root = Inr (Some next)")
    case True
    then obtain "next" where walk: "address < e" "walk_levels inspect address 4 root = Inr (Some next)"
      by blast
    note skip = walk_skip [OF walk(2), THEN conjunct2] walk_levels_next [OF walk(2)]
    have "\<forall>b. address \<le> b \<longrightarrow> b < next \<longrightarrow> (\<exists>n. walk_levels inspect b 4 root = Inr (Some n))"
      using walk_block [OF walk(2)] by blast
    then have "linear_loop inspect root address e = linear_loop inspect root next e"
      using skip "1.prems" by (intro linear_skip) simp_all
    moreover have "sparse_loop inspect root address e = sparse_loop inspect root next e"
      using walk by (subst sparse_loop.simps) simp
    moreover have "sparse_loop inspect root next e = linear_loop inspect root next e"
      using "1.IH" [OF walk(1) walk(2) refl skip(1)] .
    ultimately show ?thesis
      by simp
  next
    case False
    then show ?thesis
      by (subst sparse_loop.simps, subst linear_loop.simps) (auto split: sum.splits option.splits)
  qed
qed

section \<open>Mapped bytes\<close>

definition USER_END :: u64 where
  "USER_END = push_bit 47 1"

datatype 'e usage_error = UsageInvalidRange | UsageBackend 'e

fun reserved_loop :: "(u64 \<times> u64) list \<Rightarrow> u64 \<Rightarrow> (u64 \<times> u64) list \<Rightarrow> u64 option" where
  "reserved_loop seen acc [] = Some acc"
| "reserved_loop seen acc ((s, e) # rest) =
     (if s \<ge> e \<or> s AND 4095 \<noteq> 0 \<or> e AND 4095 \<noteq> 0 \<or> e > USER_END
         \<or> list_ex (\<lambda>(other_start, other_end). s < other_end \<and> other_start < e) seen
      then None
      else case checked_add acc (e - s) of
             None \<Rightarrow> None
           | Some acc' \<Rightarrow> reserved_loop (seen @ [(s, e)]) acc' rest)"

definition containing :: "(u64 \<times> u64) list \<Rightarrow> u64 \<Rightarrow> (u64 \<times> u64) option" where
  "containing regions page = find (\<lambda>(s, e). s \<le> page \<and> page < e) regions"

lemma containing_Some:
  "containing regions page = Some (s, e) \<Longrightarrow> (s, e) \<in> set regions \<and> s \<le> page \<and> page < e"
  by (auto simp: containing_def find_Some_iff in_set_conv_nth)

lemma containing_None:
  "containing regions page = None \<Longrightarrow> (s, e) \<in> set regions \<Longrightarrow> \<not> (s \<le> page \<and> page < e)"
  by (auto simp: containing_def find_None_iff)

lemma user_page_plus: "page < USER_END \<Longrightarrow> unat (page + 4096) = unat page + 4096"
proof -
  assume "page < USER_END"
  then have "unat page < 2 ^ 47"
    by (simp add: USER_END_def word_less_nat_alt push_bit_eq_mult)
  then show ?thesis
    by (subst unat_add_lem [THEN iffD1]) simp_all
qed

lemma user_page_less: "page < USER_END \<Longrightarrow> page < page + 4096"
  by (simp add: word_less_nat_alt user_page_plus)

lemma cursor_progress: "cursor < (c :: u64) \<Longrightarrow> 2 ^ 64 - unat c < 2 ^ 64 - unat cursor"
  using unsigned_less [where 'b = 64 and 'a = nat, of c] by (intro diff_less_mono2) (auto simp: word_less_nat_alt)

function leaf_loop ::
  "(u64 \<times> u64) list \<Rightarrow> (u64 \<Rightarrow> u64 \<Rightarrow> 'e + u64 option) \<Rightarrow> u64 \<Rightarrow> u64 \<Rightarrow> 'e usage_error + u64" where
  "leaf_loop regions next_leaf cursor acc =
     (case next_leaf cursor USER_END of
        Inl err \<Rightarrow> Inl (UsageBackend err)
      | Inr None \<Rightarrow> Inr acc
      | Inr (Some page) \<Rightarrow>
          if page < cursor \<or> page \<ge> USER_END \<or> page AND 4095 \<noteq> 0 then Inl UsageInvalidRange
          else (case containing regions page of
                  Some (s, e) \<Rightarrow> leaf_loop regions next_leaf e acc
                | None \<Rightarrow>
                    (case checked_add acc 4096 of
                       None \<Rightarrow> Inl UsageInvalidRange
                     | Some acc' \<Rightarrow> leaf_loop regions next_leaf (page + 4096) acc')))"
  by pat_completeness auto

termination leaf_loop
  by (relation "measure (\<lambda>(_, _, cursor, _). 2 ^ 64 - unat cursor)")
    (auto dest!: containing_Some intro!: cursor_progress [simplified] intro: le_less_trans user_page_less simp: not_less not_le)

declare leaf_loop.simps [simp del]

definition usage_bytes ::
  "(u64 \<times> u64) list \<Rightarrow> (u64 \<Rightarrow> u64 \<Rightarrow> 'e + u64 option) \<Rightarrow> 'e usage_error + u64" where
  "usage_bytes regions next_leaf =
     (case reserved_loop [] 0 regions of
        None \<Rightarrow> Inl UsageInvalidRange
      | Some acc \<Rightarrow> leaf_loop regions next_leaf 0 acc)"

definition usage_permits :: "u64 \<Rightarrow> u64 \<Rightarrow> u64 \<Rightarrow> bool" where
  "usage_permits used additional ceiling =
     (case checked_add used additional of Some acc \<Rightarrow> acc \<le> ceiling | None \<Rightarrow> False)"

text \<open>The pages of a list of reservations, as the set of their addresses.\<close>

definition user_pages :: "nat set" where
  "user_pages = {p. p < 2 ^ 47 \<and> 4096 dvd p}"

definition range_pages :: "u64 \<Rightarrow> u64 \<Rightarrow> nat set" where
  "range_pages s e = {p. 4096 dvd p \<and> unat s \<le> p \<and> p < unat e}"

definition reserved_pages :: "(u64 \<times> u64) list \<Rightarrow> nat set" where
  "reserved_pages regions = (\<Union>(s, e) \<in> set regions. range_pages s e)"

lemma card_multiples:
  assumes "k dvd m" "k dvd n" "m \<le> n" "0 < (k :: nat)"
  shows "k * card {p. k dvd p \<and> m \<le> p \<and> p < n} = n - m"
proof -
  obtain a b where ab: "m = k * a" "n = k * b"
    using assms by (auto elim!: dvdE)
  have "{p. k dvd p \<and> m \<le> p \<and> p < n} = (\<lambda>i. k * i) ` {a..<b}"
    using assms(4) by (auto simp: ab elim!: dvdE)
  then have "card {p. k dvd p \<and> m \<le> p \<and> p < n} = b - a"
    using assms(4) by (simp add: card_image inj_on_def)
  then show ?thesis
    by (simp add: ab diff_mult_distrib2)
qed

lemma finite_range_pages [simp]: "finite (range_pages s e)"
  by (rule finite_subset [of _ "{..<unat e}"]) (auto simp: range_pages_def)

lemma finite_reserved_pages [simp]: "finite (reserved_pages regions)"
  by (auto simp: reserved_pages_def)

lemma finite_user_pages [simp]: "finite user_pages"
  by (rule finite_subset [of _ "{..<2 ^ 47}"]) (auto simp: user_pages_def)

lemma card_user_pages: "4096 * card user_pages = 2 ^ 47"
  using card_multiples [of 4096 0 "2 ^ 47"] by (simp add: user_pages_def conj_commute)

lemma USER_END_nat: "unat USER_END = 2 ^ 47"
  by (simp add: USER_END_def push_bit_eq_mult)

lemma reserved_pages_append [simp]:
  "reserved_pages (xs @ ys) = reserved_pages xs \<union> reserved_pages ys"
  "reserved_pages ((s, e) # ys) = range_pages s e \<union> reserved_pages ys"
  "reserved_pages [] = {}"
  by (auto simp: reserved_pages_def)

definition region_fits :: "u64 \<times> u64 \<Rightarrow> bool" where
  "region_fits r \<longleftrightarrow> fst r < snd r \<and> 4096 dvd unat (fst r) \<and> 4096 dvd unat (snd r) \<and> snd r \<le> USER_END"

lemma card_range_pages: "region_fits (s, e) \<Longrightarrow> 4096 * card (range_pages s e) = unat (e - s)"
  using card_multiples [of 4096 "unat s" "unat e"]
  by (simp add: region_fits_def range_pages_def unat_sub_le word_less_nat_alt word_le_nat_alt)

lemma reserved_loop_counts:
  "reserved_loop seen acc rest = Some acc' \<Longrightarrow> unat acc = 4096 * card (reserved_pages seen) \<Longrightarrow>
   unat acc' = 4096 * card (reserved_pages (seen @ rest)) \<and> (\<forall>r \<in> set rest. region_fits r)"
proof (induction seen acc rest rule: reserved_loop.induct)
  case (2 seen acc s e rest)
  from "2.prems"(1) obtain t where step: "checked_add acc (e - s) = Some t"
      "reserved_loop (seen @ [(s, e)]) t rest = Some acc'"
    and fits: "region_fits (s, e)"
    and apart: "\<forall>r \<in> set seen. \<not> (s < snd r \<and> fst r < e)"
    by (auto simp: region_fits_def page_offset_zero_iff not_le not_less list_ex_iff split_beta
        split: if_splits option.splits)
  have "range_pages s e \<inter> reserved_pages seen = {}"
    using apart by (fastforce simp: reserved_pages_def range_pages_def word_less_nat_alt)
  then have "card (reserved_pages (seen @ [(s, e)])) = card (reserved_pages seen) + card (range_pages s e)"
    by (simp add: card_Un_disjoint Int_commute)
  moreover have "unat t = unat acc + unat (e - s)"
    using step(1) by (simp add: checked_add_Some_iff)
  ultimately have "unat t = 4096 * card (reserved_pages (seen @ [(s, e)]))"
    using "2.prems"(2) card_range_pages [OF fits] by simp
  then have "unat acc' = 4096 * card (reserved_pages ((seen @ [(s, e)]) @ rest)) \<and> (\<forall>r \<in> set rest. region_fits r)"
    using "2.prems"(1) step by (intro "2.IH") (auto split: if_splits)
  then show ?case
    using fits by simp
qed simp

lemma reserved_pages_user: "\<forall>r \<in> set regions. region_fits r \<Longrightarrow> reserved_pages regions \<subseteq> user_pages"
  by (fastforce simp: reserved_pages_def range_pages_def user_pages_def region_fits_def word_le_nat_alt USER_END_nat)

section \<open>The contract between the accounting and the search\<close>

text \<open>
  What the accounting relies on: an answer names the first mapped page at or after the cursor, and
  no answer means that there is none. A search may still fail.
\<close>

locale leaf_source =
  fixes next_leaf :: "u64 \<Rightarrow> u64 \<Rightarrow> 'e + u64 option"
    and leaves :: "nat set"
  assumes leaves_user: "leaves \<subseteq> user_pages"
    and next_None: "next_leaf c USER_END = Inr None \<Longrightarrow> p \<in> leaves \<Longrightarrow> p < unat c"
    and next_Some: "next_leaf c USER_END = Inr (Some page) \<Longrightarrow>
          unat page \<in> leaves \<and> c \<le> page \<and> (\<forall>q \<in> leaves. q < unat page \<longrightarrow> q < unat c)"
begin

lemma finite_leaves: "finite leaves"
  using leaves_user finite_user_pages by (rule finite_subset)

lemma page_user: "next_leaf c USER_END = Inr (Some page) \<Longrightarrow> page < USER_END \<and> page AND 4095 = 0 \<and> \<not> page < c"
  using next_Some [of c page] leaves_user
  by (auto simp: user_pages_def word_less_nat_alt word_le_nat_alt USER_END_nat page_offset_zero_iff)

lemma jump_region:
  assumes "next_leaf c USER_END = Inr (Some page)" "(s, e) \<in> set regions" "s \<le> page" "page < e"
  shows "reserved_pages regions \<union> leaves \<inter> {..<unat e} = reserved_pages regions \<union> leaves \<inter> {..<unat c}"
proof -
  have "q \<in> range_pages s e" if "q \<in> leaves" "q < unat e" "\<not> q < unat c" for q
    using that next_Some [OF assms(1)] leaves_user assms(3)
    by (auto simp: range_pages_def user_pages_def word_le_nat_alt not_less)
  moreover have "unat c \<le> unat e"
    using next_Some [OF assms(1)] assms(4) by (simp add: word_le_nat_alt word_less_nat_alt)
  ultimately show ?thesis
    using assms(2) by (auto simp: reserved_pages_def)
qed

lemma count_page:
  assumes "next_leaf c USER_END = Inr (Some page)" "containing regions page = None"
  shows "reserved_pages regions \<union> leaves \<inter> {..<unat (page + 4096)}
      = insert (unat page) (reserved_pages regions \<union> leaves \<inter> {..<unat c})"
    and "unat page \<notin> reserved_pages regions \<union> leaves \<inter> {..<unat c}"
proof -
  note page = next_Some [OF assms(1)] and user = page_user [OF assms(1)]
  have "q < unat c \<or> q = unat page" if "q \<in> leaves" "q < unat page + 4096" for q
  proof -
    have "4096 dvd q" "4096 dvd unat page"
      using that(1) page leaves_user by (auto simp: user_pages_def)
    then have "q \<le> unat page"
      using that(2) by (auto elim!: dvdE)
    then show ?thesis
      using page that(1) by (auto simp: le_less)
  qed
  then show "reserved_pages regions \<union> leaves \<inter> {..<unat (page + 4096)}
      = insert (unat page) (reserved_pages regions \<union> leaves \<inter> {..<unat c})"
    using page user user_page_plus [of page] by (auto simp: word_le_nat_alt)
  show "unat page \<notin> reserved_pages regions \<union> leaves \<inter> {..<unat c}"
    using containing_None [OF assms(2)] page
    by (auto simp: reserved_pages_def range_pages_def word_le_nat_alt word_less_nat_alt)
qed

end

context leaf_source
begin

lemma count_bound:
  assumes "\<forall>r \<in> set regions. region_fits r"
  shows "4096 * card (reserved_pages regions \<union> leaves \<inter> X) \<le> 2 ^ 47"
proof -
  have "card (reserved_pages regions \<union> leaves \<inter> X) \<le> card user_pages"
    using reserved_pages_user [OF assms] leaves_user by (intro card_mono) auto
  then show ?thesis
    using card_user_pages by linarith
qed

text \<open>One turn of the loop: the count covers the leaves below the new cursor.\<close>

lemma leaf_loop_counts:
  assumes fits: "\<forall>r \<in> set regions. region_fits r"
    and "unat acc = 4096 * card (reserved_pages regions \<union> leaves \<inter> {..<unat cursor})"
  shows "case leaf_loop regions next_leaf cursor acc of
           Inr t \<Rightarrow> unat t = 4096 * card (reserved_pages regions \<union> leaves)
         | Inl err \<Rightarrow> \<exists>c e. next_leaf c USER_END = Inl e \<and> err = UsageBackend e"
  using assms(2)
proof (induction "2 ^ 64 - unat cursor" arbitrary: cursor acc rule: less_induct)
  case less
  consider err where "next_leaf cursor USER_END = Inl err" | "next_leaf cursor USER_END = Inr None"
    | page where "next_leaf cursor USER_END = Inr (Some page)"
    by (cases "next_leaf cursor USER_END") auto
  then show ?case
  proof cases
    case 1
    then show ?thesis
      by (subst leaf_loop.simps) auto
  next
    case 2
    then have "leaves \<inter> {..<unat cursor} = leaves"
      using next_None by auto
    with 2 less.prems show ?thesis
      by (subst leaf_loop.simps) simp
  next
    case (3 page)
    note user = page_user [OF 3]
    show ?thesis
    proof (cases "containing regions page")
      case None
      note count = count_page [OF 3 None]
      have sum: "unat acc + 4096 = 4096 * card (reserved_pages regions \<union> leaves \<inter> {..<unat (page + 4096)})"
        using less.prems count finite_leaves by simp
      then have "unat acc + 4096 \<le> 2 ^ 47"
        using count_bound [OF fits] by simp
      then have acc: "checked_add acc 4096 = Some (acc + 4096)" "unat (acc + 4096) = unat acc + 4096"
        by (simp_all add: checked_add_def unat_add_checked)
      have "2 ^ 64 - unat (page + 4096) < 2 ^ 64 - unat cursor"
        using user by (intro cursor_progress le_less_trans [OF _ user_page_less]) auto
      from less.hyps [OF this] sum acc(2) show ?thesis
        using 3 user None acc(1) by (subst leaf_loop.simps) (simp add: not_le)
    next
      case (Some r)
      then obtain s e where r: "containing regions page = Some (s, e)"
        by (cases r) auto
      note inside = containing_Some [OF r]
      have "2 ^ 64 - unat e < 2 ^ 64 - unat cursor"
        using user inside by (intro cursor_progress) auto
      from less.hyps [OF this] less.prems show ?thesis
        using 3 user r inside jump_region [OF 3, of s e regions] by (subst leaf_loop.simps) (simp add: not_le)
    qed
  qed
qed

theorem usage_counts:
  assumes "reserved_loop [] 0 regions \<noteq> None"
  shows "case usage_bytes regions next_leaf of
           Inr t \<Rightarrow> unat t = 4096 * card (reserved_pages regions \<union> leaves)
         | Inl err \<Rightarrow> \<exists>c e. next_leaf c USER_END = Inl e \<and> err = UsageBackend e"
proof -
  obtain t where t: "reserved_loop [] 0 regions = Some t"
    using assms by auto
  have "unat t = 4096 * card (reserved_pages regions)" "\<forall>r \<in> set regions. region_fits r"
    using reserved_loop_counts [OF t] by simp_all
  then show ?thesis
    using leaf_loop_counts [of regions t 0] by (simp add: usage_bytes_def t)
qed

end

section \<open>Searching the user page tables\<close>

text \<open>
  A page-table entry is what the accessors of the paging library report of it; \<open>tables\<close> gives the
  entries of the table mapped at a kernel address. The physical memory map is absent before the
  bootloader's information arrives.
\<close>

record pte =
  pte_unused :: bool
  pte_present :: bool
  pte_user :: bool
  pte_huge :: bool
  pte_addr :: u64

definition inspect_entry :: "(u64 \<Rightarrow> nat \<Rightarrow> pte) \<Rightarrow> u64 \<Rightarrow> u64 \<Rightarrow> nat \<Rightarrow> nat \<Rightarrow> kernel_error + page_entry" where
  "inspect_entry tables offset table index level =
     (case checked_add table offset of
        None \<Rightarrow> Inl (Kernel_Memory Mem_InvalidAddress)
      | Some pointer \<Rightarrow>
          let entry = tables pointer index
          in if pte_unused entry \<or> \<not> pte_user entry then Inr Absent
             else if level = 1 then Inr Leaf
             else if \<not> pte_present entry then Inr Absent
             else if pte_huge entry then Inl (Kernel_Memory Mem_InvalidAddress)
             else Inr (Branch (pte_addr entry)))"

definition next_user_page_entry ::
  "u64 option \<Rightarrow> (u64 \<Rightarrow> nat \<Rightarrow> pte) \<Rightarrow> u64 \<Rightarrow> u64 \<Rightarrow> u64 \<Rightarrow> kernel_error + u64 option" where
  "next_user_page_entry physical_memory_offset tables table start e =
     (case physical_memory_offset of
        None \<Rightarrow> Inl (Kernel_Memory Mem_NotMapped)
      | Some offset \<Rightarrow>
          (case sparse_next (inspect_entry tables offset) table start e of
             Inl (WalkBackend error) \<Rightarrow> Inl error
           | Inl _ \<Rightarrow> Inl (Kernel_Memory Mem_InvalidAddress)
           | Inr page \<Rightarrow> Inr page))"

text \<open>The user pages of an address space: those whose walk through all four levels ends in a leaf.\<close>

definition mapped_pages :: "u64 option \<Rightarrow> (u64 \<Rightarrow> nat \<Rightarrow> pte) \<Rightarrow> u64 \<Rightarrow> nat set" where
  "mapped_pages physical_memory_offset tables table =
     {p \<in> user_pages. \<exists>offset. physical_memory_offset = Some offset
        \<and> walk_levels (inspect_entry tables offset) p 4 table = Inr None}"

lemma linear_None:
  assumes "linear_loop inspect root a e = Inr None" "4096 dvd a" "4096 dvd p" "a \<le> p" "p < e"
  shows "walk_levels inspect p 4 root \<noteq> Inr None"
  using assms
proof (induction inspect root a e rule: linear_loop.induct)
  case (1 inspect root a e)
  show ?case
  proof (cases "p = a")
    case True
    with "1.prems" show ?thesis
      by (subst (asm) linear_loop.simps) auto
  next
    case False
    then have "a + 4096 \<le> p"
      using "1.prems" by (auto elim!: dvdE)
    with 1 show ?thesis
      by (subst (asm) (2) linear_loop.simps) (auto split: sum.splits option.splits)
  qed
qed

lemma linear_Some:
  assumes "linear_loop inspect root a e = Inr (Some q)" "4096 dvd a"
  shows "4096 dvd q \<and> a \<le> q \<and> q < e \<and> walk_levels inspect q 4 root = Inr None
    \<and> (\<forall>p. 4096 dvd p \<longrightarrow> a \<le> p \<longrightarrow> p < q \<longrightarrow> walk_levels inspect p 4 root \<noteq> Inr None)"
  using assms
proof (induction inspect root a e rule: linear_loop.induct)
  case (1 inspect root a e)
  then have "a < e"
    by (auto simp: linear_loop.simps split: if_splits)
  consider "walk_levels inspect a 4 root = Inr None"
    | n where "walk_levels inspect a 4 root = Inr (Some n)"
    using "1.prems"(1) \<open>a < e\<close> by (auto simp: linear_loop.simps [of _ _ a] split: sum.splits option.splits)
  then show ?case
  proof cases
    case 1
    then show ?thesis
      using "1.prems" \<open>a < e\<close> by (simp add: linear_loop.simps [of _ _ a])
  next
    case (2 n)
    then have "linear_loop inspect root (a + 4096) e = Inr (Some q)"
      using "1.prems"(1) \<open>a < e\<close> by (simp add: linear_loop.simps [of _ _ a])
    then have IH: "4096 dvd q \<and> a + 4096 \<le> q \<and> q < e \<and> walk_levels inspect q 4 root = Inr None
        \<and> (\<forall>p. 4096 dvd p \<longrightarrow> a + 4096 \<le> p \<longrightarrow> p < q \<longrightarrow> walk_levels inspect p 4 root \<noteq> Inr None)"
      using 1 2 \<open>a < e\<close> by simp
    moreover have "p = a \<or> a + 4096 \<le> p" if "4096 dvd p" "a \<le> p" for p
      using that "1.prems"(2) by (auto elim!: dvdE)
    ultimately show ?thesis
      using 2 by fastforce
  qed
qed

lemma next_user_page_entry_Inr:
  assumes "next_user_page_entry off tables table c USER_END = Inr r"
  obtains offset n where "off = Some offset" "4096 dvd unat c" "r = map_option of_nat n"
    "linear_loop (inspect_entry tables offset) table (unat c) (2 ^ 47) = Inr n"
  using assms
  by (auto simp: next_user_page_entry_def sparse_next_def sparse_linear page_offset_zero_iff USER_END_nat
      map_sum_def intro: that split: option.splits sum.splits walk_error.splits if_splits)

interpretation pt: leaf_source "next_user_page_entry off tables table" "mapped_pages off tables table"
  for off tables table
proof
  show "mapped_pages off tables table \<subseteq> user_pages"
    by (auto simp: mapped_pages_def)
next
  fix c p
  assume "next_user_page_entry off tables table c USER_END = Inr None" and p: "p \<in> mapped_pages off tables table"
  then obtain offset where "off = Some offset" "4096 dvd unat c"
      and search: "linear_loop (inspect_entry tables offset) table (unat c) (2 ^ 47) = Inr None"
    by (auto elim!: next_user_page_entry_Inr)
  with linear_None [OF search, of p] p show "p < unat c"
    by (force simp: mapped_pages_def user_pages_def not_less)
next
  fix c page
  assume "next_user_page_entry off tables table c USER_END = Inr (Some page)"
  then obtain offset q where off: "off = Some offset" "page = of_nat q" "4096 dvd unat c"
      and search: "linear_loop (inspect_entry tables offset) table (unat c) (2 ^ 47) = Inr (Some q)"
    by (auto elim!: next_user_page_entry_Inr simp: map_option_case split: option.splits)
  note q = linear_Some [OF search off(3)]
  have "unat page = q"
    using q by (simp add: off(2) unat_of_nat take_bit_nat_eq_self)
  then show "unat page \<in> mapped_pages off tables table \<and> c \<le> page
      \<and> (\<forall>r \<in> mapped_pages off tables table. r < unat page \<longrightarrow> r < unat c)"
    using q off(1) by (force simp: mapped_pages_def user_pages_def word_le_nat_alt not_less)
qed

definition apart :: "u64 \<times> u64 \<Rightarrow> u64 \<times> u64 \<Rightarrow> bool" where
  "apart r r' \<longleftrightarrow> \<not> (fst r' < snd r \<and> fst r < snd r')"

lemma reserved_loop_Some:
  assumes "\<forall>r \<in> set (seen @ rest). region_fits r" "sorted_wrt apart (seen @ rest)"
    and "unat acc = 4096 * card (reserved_pages seen)"
  shows "\<exists>t. reserved_loop seen acc rest = Some t"
  using assms
proof (induction seen acc rest rule: reserved_loop.induct)
  case (2 seen acc s e rest)
  have fits: "region_fits (s, e)" and apart: "\<forall>r \<in> set seen. \<not> (s < snd r \<and> fst r < e)"
    using "2.prems" by (auto simp: sorted_wrt_append apart_def)
  have "range_pages s e \<inter> reserved_pages seen = {}"
    using apart by (fastforce simp: reserved_pages_def range_pages_def word_less_nat_alt)
  then have "card (reserved_pages (seen @ [(s, e)])) = card (reserved_pages seen) + card (range_pages s e)"
    by (simp add: card_Un_disjoint Int_commute)
  then have sum: "unat acc + unat (e - s) = 4096 * card (reserved_pages (seen @ [(s, e)]))"
    using "2.prems"(3) card_range_pages [OF fits] by simp
  also have "\<dots> \<le> 4096 * card user_pages"
    using "2.prems"(1) reserved_pages_user [of "seen @ [(s, e)]"] by (intro mult_le_mono2 card_mono) auto
  finally have "unat acc + unat (e - s) < 2 ^ 64"
    using card_user_pages by simp
  then obtain t where t: "checked_add acc (e - s) = Some t" "unat t = unat acc + unat (e - s)"
    by (simp add: checked_add_def unat_add_checked)
  have "\<exists>t'. reserved_loop (seen @ [(s, e)]) t rest = Some t'"
    using 2 fits apart sum t
    by (intro "2.IH") (auto simp: region_fits_def page_offset_zero_iff list_ex_iff not_le)
  then show ?case
    using fits apart t by (auto simp: region_fits_def page_offset_zero_iff list_ex_iff not_le)
qed simp

text \<open>
  C20. The sparse page-table search agrees with a search of every page. On every address range, on
  every page-table contents and for every error the reader of an entry can report,
  \<^verbatim>\<open>next\<close> gives the same answer as visiting each page of the range in order, although it
  skips whole subtrees.
\<close>

theorem sparse_next_is_page_by_page:
  "sparse_next inspect root start e = linear_next inspect root start e"
  by (simp add: sparse_next_def linear_next_def sparse_linear page_offset_zero_iff)

text \<open>
  C19. The memory accounting of an address space counts each page once. For page-aligned, pairwise
  disjoint reservations in user space, the bytes reported are 4096 times the number of pages that
  are reserved or mapped in the page tables (or both); the only failure is an error of the
  page-table search.
\<close>

theorem mapped_bytes_exact:
  assumes "\<forall>r \<in> set regions. region_fits r" "sorted_wrt apart regions"
  shows "case usage_bytes regions (next_user_page_entry off tables table) of
           Inr t \<Rightarrow> unat t = 4096 * card (reserved_pages regions \<union> mapped_pages off tables table)
         | Inl err \<Rightarrow> \<exists>c e. next_user_page_entry off tables table c USER_END = Inl e \<and> err = UsageBackend e"
proof -
  have "reserved_loop [] 0 regions \<noteq> None"
    using reserved_loop_Some [of "[]" regions 0] assms by auto
  then show ?thesis
    by (rule pt.usage_counts)
qed

theorem mapped_bytes_exact_witness:
  "region_fits (0x1000, 0x3000) \<and> region_fits (0x5000, 0x6000) \<and> apart (0x1000, 0x3000) (0x5000, 0x6000)
   \<and> (case usage_bytes [(0x1000, 0x3000), (0x5000, 0x6000)]
             (next_user_page_entry (Some 0) (\<lambda>_ _. \<lparr>pte_unused = True, pte_present = False, pte_user = False,
                pte_huge = False, pte_addr = 0\<rparr>) 0x1000) of
        Inr t \<Rightarrow> unat t = 4096 * card (reserved_pages [(0x1000, 0x3000), (0x5000, 0x6000)] \<union> mapped_pages (Some 0)
             (\<lambda>_ _. \<lparr>pte_unused = True, pte_present = False, pte_user = False, pte_huge = False, pte_addr = 0\<rparr>) 0x1000)
      | Inl err \<Rightarrow> \<exists>c e. next_user_page_entry (Some 0) (\<lambda>_ _. \<lparr>pte_unused = True, pte_present = False, pte_user = False,
                pte_huge = False, pte_addr = 0\<rparr>) 0x1000 c USER_END = Inl e \<and> err = UsageBackend e)"
proof -
  have fits: "region_fits (0x1000, 0x3000)" "region_fits (0x5000, 0x6000)" "apart (0x1000, 0x3000) (0x5000, 0x6000)"
    by (simp_all add: region_fits_def apart_def USER_END_def push_bit_eq_mult)
  then show ?thesis
    using mapped_bytes_exact [of "[(0x1000, 0x3000), (0x5000, 0x6000)]"] by simp
qed

end
