(* ===== verification/Spec2Isabelle.thy ===== *)
theory Spec2Isabelle
  imports Frame_Refs Capability_Syscalls Object_Flow Page_Walk
begin

text \<open>
  The mnu kernel: draft header.
\<close>

end
